(* ===== verification/Prelude.thy ===== *)
theory Prelude
  imports Main "HOL-Library.Word" "HOL-Library.AList" "HOL-Library.Sublist"
begin

unbundle bit_operations_syntax

text \<open>
  Shared vocabulary of the development: the machine types of the C sources, the
  outcomes a C function can have besides returning, a byte-addressed memory with the
  block operations of \<^verbatim>\<open>string.h\<close>, and the generic facts on lists, words and memory
  that the component theories use.
\<close>

named_theorems mem_simps \<open>reading after writing, on byte-addressed memory\<close>
named_theorems word_bits \<open>equality of words, bit by bit\<close>
named_theorems word_nat \<open>operations on machine words read as natural numbers\<close>

section \<open>Machine types\<close>

type_synonym byte = "8 word"
type_synonym uint32_t = "32 word"
type_synonym size_t = "64 word"

text \<open>
  A C function that does not return normally either reads or writes outside the object
  it was given, dereferences \<^verbatim>\<open>NULL\<close>, stops at an \<^verbatim>\<open>assert\<close>, or uses a value that was never
  stored. Such outcomes are the left summand of a result.
\<close>

datatype cerror = OutOfBounds | NullDeref | AssertFailed | Uninitialised | FormatOverflow
  | UseAfterFree | WrongPointer

type_synonym 'a cres = "cerror + 'a"

fun res_bind :: "'a cres \<Rightarrow> ('a \<Rightarrow> 'b cres) \<Rightarrow> 'b cres" where
  "res_bind (Inl e) f = Inl e"
| "res_bind (Inr x) f = f x"

lemma res_bind_eq_Inr: "res_bind r f = Inr y \<longleftrightarrow> (\<exists>x. r = Inr x \<and> f x = Inr y)"
  by (cases r) auto

text \<open>
  A computation whose loop may not end: \<^term>\<open>None\<close> when it does not return, otherwise a
  result as above.
\<close>

type_synonym 'a run = "'a cres option"

definition run_bind :: "'a run \<Rightarrow> ('a \<Rightarrow> 'b run) \<Rightarrow> 'b run" where
  "run_bind r f = (case r of None \<Rightarrow> None | Some (Inl e) \<Rightarrow> Some (Inl e) | Some (Inr x) \<Rightarrow> f x)"

lemma run_bind_simps [simp]:
  "run_bind None f = None" "run_bind (Some (Inl e)) f = Some (Inl e)" "run_bind (Some (Inr x)) f = f x"
  by (simp_all add: run_bind_def)

lemma res_bind_InrE:
  assumes "res_bind r f = Inr y"
  obtains x where "r = Inr x" and "f x = Inr y"
  using assms by (cases r) simp_all

lemma run_bind_InrE:
  assumes "run_bind r f = Some (Inr y)"
  obtains x where "r = Some (Inr x)" and "f x = Some (Inr y)"
  using assms by (auto simp: run_bind_def split: option.splits sum.splits)

lemma length_filter_update:
  assumes "i < length xs"
  shows "length (filter P (xs[i := x])) + (if P (xs ! i) then 1 else 0)
       = length (filter P xs) + (if P x then 1 else 0)"
  using assms
proof (induction xs arbitrary: i)
  case (Cons y ys)
  then show ?case by (cases i) fastforce+
qed simp

section \<open>Lists\<close>

lemma take_Suc_update [simp]:
  "n < length xs \<Longrightarrow> take (Suc n) (xs[n := x]) = take n xs @ [x]"
  by (simp add: take_Suc_conv_app_nth)

lemma nth_update_if: "xs[i := x] ! j = (if i = j \<and> i < length xs then x else xs ! j)"
  by (cases "i < length xs") (auto simp: nth_list_update list_update_beyond)

lemma nth_append_middle: "i = length xs \<Longrightarrow> (xs @ y # ys) ! i = y"
  by simp

lemma list_eq_iff_nth:
  "xs = ys \<longleftrightarrow> length xs = length ys \<and> (\<forall>i < length xs. xs ! i = ys ! i)"
  by (auto intro: nth_equalityI)

lemma last_in_append: "xs \<noteq> [] \<Longrightarrow> \<exists>ys y. xs = ys @ [y]"
  by (rule exI [of _ "butlast xs"], rule exI [of _ "last xs"]) simp

section \<open>Words\<close>

lemma unat_of_nat_64 [word_nat]: "n < 2 ^ 64 \<Longrightarrow> unat (of_nat n :: 64 word) = n"
  by (simp add: unat_of_nat)

lemma unat_less_64: "unat (w :: 64 word) < 2 ^ 64"
  using unsigned_less [of w] by simp

lemma unat_add_64 [word_nat]:
  "unat a + unat b < 2 ^ 64 \<Longrightarrow> unat (a + b :: 64 word) = unat a + unat b"
  by (simp add: unat_word_ariths)

lemma unat_and_mask [word_nat]: "unat (w AND mask k) = unat w mod 2 ^ k"
proof -
  have "w AND mask k = take_bit k w" by (simp add: take_bit_eq_mask)
  then show ?thesis by (simp add: unsigned_take_bit_eq) (simp add: take_bit_eq_mod)
qed

lemma unat_add_mod_pow2:
  assumes "k \<le> 64"
  shows "unat (x + of_nat d :: 64 word) mod 2 ^ k = (unat x + d) mod 2 ^ k"
proof -
  have dvd: "(2::nat) ^ k dvd 2 ^ 64" using assms by (rule le_imp_power_dvd)
  have "unat (x + of_nat d :: 64 word) = (unat x + d) mod 2 ^ 64"
    by (simp add: unat_word_ariths unat_of_nat mod_simps)
  then show ?thesis by (simp only: mod_mod_cancel [OF dvd])
qed

lemma mod_add_inj:
  fixes a :: nat
  assumes "(a + i) mod c = (a + j) mod c" and "i < c" and "j < c"
  shows "i = j"
proof -
  have *: "i = j" if "(a + j) mod c = (a + i) mod c" "i \<le> j" "j < c" for i j
  proof -
    have "c dvd a + j - (a + i)" using that by (subst mod_eq_dvd_iff_nat [symmetric]) simp_all
    then have "c dvd j - i" by simp
    with that show ?thesis using dvd_imp_le [of c "j - i"] by (cases "i = j") auto
  qed
  show ?thesis
  proof (cases "i \<le> j")
    case True
    then show ?thesis using * [of j i] assms by simp
  next
    case False
    then show ?thesis using * [of i j] assms by simp
  qed
qed

text \<open>
  Equality of short words, bit by bit. With the rules for bits of the word operations
  (\<open>bit_simps\<close>) the simplifier decides equations between shifted and masked words.
\<close>

lemma word8_eq_iff [word_bits]:
  "(a :: 8 word) = b \<longleftrightarrow> list_all (\<lambda>n. bit a n = bit b n) [0, 1, 2, 3, 4, 5, 6, 7]"
proof -
  have "[0, 1, 2, 3, 4, 5, 6, 7] = [0..<8]" by code_simp
  then show ?thesis by (auto simp: list_all_iff intro!: bit_word_eqI)
qed

lemma word32_eq_iff [word_bits]:
  "(a :: 32 word) = b \<longleftrightarrow> list_all (\<lambda>n. bit a n = bit b n)
  [0, 1, 2, 3, 4, 5, 6, 7, 8, 9, 10, 11, 12, 13, 14, 15,
   16, 17, 18, 19, 20, 21, 22, 23, 24, 25, 26, 27, 28, 29, 30, 31]"
proof -
  have "[0, 1, 2, 3, 4, 5, 6, 7, 8, 9, 10, 11, 12, 13, 14, 15,
   16, 17, 18, 19, 20, 21, 22, 23, 24, 25, 26, 27, 28, 29, 30, 31] = [0..<32]" by code_simp
  then show ?thesis by (auto simp: list_all_iff intro!: bit_word_eqI)
qed

lemma unat_exp [word_nat]: "k < LENGTH('a) \<Longrightarrow> unat (2 ^ k :: 'a::len word) = 2 ^ k"
proof -
  assume "k < LENGTH('a)"
  then have "(2::nat) ^ k < 2 ^ LENGTH('a)" by (intro power_strict_increasing) simp_all
  then have "unat (of_nat (2 ^ k) :: 'a word) = 2 ^ k" by (simp only: unat_of_nat mod_less)
  then show ?thesis by simp
qed

lemma not_bit_above:
  assumes "unat (x :: 'a::len word) < 2 ^ k" and "k \<le> n"
  shows "\<not> bit x n"
proof -
  from assms have "unat x < 2 ^ n" by (meson less_le_trans one_le_numeral power_increasing)
  then have "\<not> bit (unat x) n" by (simp add: bit_iff_odd)
  then show ?thesis by (auto simp: bit_unsigned_iff dest: bit_imp_le_length)
qed

lemma not_bit_above_exp:
  "(x :: 'a::len word) < 2 ^ k \<Longrightarrow> k < LENGTH('a) \<Longrightarrow> k \<le> n \<Longrightarrow> \<not> bit x n"
  by (rule not_bit_above) (simp_all add: word_less_nat_alt unat_exp)

section \<open>Byte-addressed memory\<close>

text \<open>
  Memory is a total function from addresses to bytes. Every store a C function makes is a
  function update, so \<^emph>\<open>where\<close> a function writes is visible in the theorems: a frame
  theorem says that every address outside the destination object keeps its byte.
\<close>

type_synonym memory = "nat \<Rightarrow> byte"

definition mem_read :: "memory \<Rightarrow> nat \<Rightarrow> nat \<Rightarrow> byte list" where
  "mem_read m p n = map (\<lambda>i. m (p + i)) [0..<n]"

definition mem_write :: "memory \<Rightarrow> nat \<Rightarrow> byte list \<Rightarrow> memory" where
  "mem_write m p bs = (\<lambda>a. if p \<le> a \<and> a < p + length bs then bs ! (a - p) else m a)"

text \<open>\<open>memcpy\<close> and \<open>memmove\<close> read the whole source before they write, in this model.\<close>

definition memmove :: "memory \<Rightarrow> nat \<Rightarrow> nat \<Rightarrow> nat \<Rightarrow> memory" where
  "memmove m dst src n = mem_write m dst (mem_read m src n)"

lemma length_mem_read [simp]: "length (mem_read m p n) = n"
  by (simp add: mem_read_def)

lemma nth_mem_read [simp]: "i < n \<Longrightarrow> mem_read m p n ! i = m (p + i)"
  by (simp add: mem_read_def)

lemma mem_read_0 [simp]: "mem_read m p 0 = []"
  by (simp add: mem_read_def)

lemma mem_read_Suc: "mem_read m p (Suc n) = mem_read m p n @ [m (p + n)]"
  by (simp add: mem_read_def)

lemma mem_read_Cons: "mem_read m p (Suc n) = m p # mem_read m (Suc p) n"
  by (rule nth_equalityI) (auto simp: nth_Cons split: nat.splits)

lemma mem_read_add: "mem_read m p (a + b) = mem_read m p a @ mem_read m (p + a) b"
  by (rule nth_equalityI) (auto simp: nth_append add.assoc)

lemma mem_read_numeral:
  "mem_read m p 2 = [m p, m (p + 1)]"
  "mem_read m p 3 = [m p, m (p + 1), m (p + 2)]"
  "mem_read m p 4 = [m p, m (p + 1), m (p + 2), m (p + 3)]"
  by (simp_all add: mem_read_def eval_nat_numeral)

lemma mem_read_cong:
  "(\<And>a. p \<le> a \<Longrightarrow> a < p + n \<Longrightarrow> m a = m' a) \<Longrightarrow> mem_read m p n = mem_read m' p n"
  by (rule nth_equalityI) auto

lemma mem_write_outside [mem_simps]:
  "a < p \<or> p + length bs \<le> a \<Longrightarrow> mem_write m p bs a = m a"
  by (auto simp: mem_write_def)

lemma mem_write_inside [mem_simps]:
  "i < length bs \<Longrightarrow> mem_write m p bs (p + i) = bs ! i"
  by (simp add: mem_write_def)

lemma mem_read_write_same [mem_simps]:
  "n = length bs \<Longrightarrow> mem_read (mem_write m p bs) p n = bs"
  by (rule nth_equalityI) (auto simp: mem_write_def)

lemma mem_read_write_disjoint [mem_simps]:
  "p + n \<le> q \<or> q + length bs \<le> p \<Longrightarrow> mem_read (mem_write m q bs) p n = mem_read m p n"
  by (rule mem_read_cong) (auto simp: mem_write_def)

end
