(* ===== verification/Base64.thy ===== *)
theory Base64
  imports Prelude
begin

text \<open>
  \<^verbatim>\<open>uo_base64/src/uo_base64.c\<close> over byte-addressed memory: the two encoders, which write
  their output from the end towards the start, and the two decoders, which run forward.
  Both are used in place (the JWT code encodes a payload onto itself), so the theorems
  say for which placements of source and destination the result is the encoding of the
  bytes the source held on entry.
\<close>

section \<open>Tables\<close>

definition btoa :: "byte list" where
  "btoa = map of_char
     ''ABCDEFGHIJKLMNOPQRSTUVWXYZabcdefghijklmnopqrstuvwxyz0123456789+/''"

definition atob :: "byte list" where
  "atob =
    [0xFF, 0xFF, 0xFF, 0xFF, 0xFF, 0xFF, 0xFF, 0xFF, 0xFF, 0xFF, 0xFF, 0xFF, 0xFF, 0xFF, 0xFF, 0xFF,
     0xFF, 0xFF, 0xFF, 0xFF, 0xFF, 0xFF, 0xFF, 0xFF, 0xFF, 0xFF, 0xFF, 0xFF, 0xFF, 0xFF, 0xFF, 0xFF,
     0xFF, 0xFF, 0xFF, 0xFF, 0xFF, 0xFF, 0xFF, 0xFF, 0xFF, 0xFF, 0xFF, 0x3E, 0xFF, 0xFF, 0xFF, 0x3F,
     0x34, 0x35, 0x36, 0x37, 0x38, 0x39, 0x3A, 0x3B, 0x3C, 0x3D, 0xFF, 0xFF, 0xFF, 0x40, 0xFF, 0xFF,
     0xFF, 0x00, 0x01, 0x02, 0x03, 0x04, 0x05, 0x06, 0x07, 0x08, 0x09, 0x0A, 0x0B, 0x0C, 0x0D, 0x0E,
     0x0F, 0x10, 0x11, 0x12, 0x13, 0x14, 0x15, 0x16, 0x17, 0x18, 0x19, 0xFF, 0xFF, 0xFF, 0xFF, 0xFF,
     0xFF, 0x1A, 0x1B, 0x1C, 0x1D, 0x1E, 0x1F, 0x20, 0x21, 0x22, 0x23, 0x24, 0x25, 0x26, 0x27, 0x28,
     0x29, 0x2A, 0x2B, 0x2C, 0x2D, 0x2E, 0x2F, 0x30, 0x31, 0x32, 0x33, 0xFF, 0xFF, 0xFF, 0xFF, 0xFF,
     0xFF, 0xFF, 0xFF, 0xFF, 0xFF, 0xFF, 0xFF, 0xFF, 0xFF, 0xFF, 0xFF, 0xFF, 0xFF, 0xFF, 0xFF, 0xFF,
     0xFF, 0xFF, 0xFF, 0xFF, 0xFF, 0xFF, 0xFF, 0xFF, 0xFF, 0xFF, 0xFF, 0xFF, 0xFF, 0xFF, 0xFF, 0xFF,
     0xFF, 0xFF, 0xFF, 0xFF, 0xFF, 0xFF, 0xFF, 0xFF, 0xFF, 0xFF, 0xFF, 0xFF, 0xFF, 0xFF, 0xFF, 0xFF,
     0xFF, 0xFF, 0xFF, 0xFF, 0xFF, 0xFF, 0xFF, 0xFF, 0xFF, 0xFF, 0xFF, 0xFF, 0xFF, 0xFF, 0xFF, 0xFF,
     0xFF, 0xFF, 0xFF, 0xFF, 0xFF, 0xFF, 0xFF, 0xFF, 0xFF, 0xFF, 0xFF, 0xFF, 0xFF, 0xFF, 0xFF, 0xFF,
     0xFF, 0xFF, 0xFF, 0xFF, 0xFF, 0xFF, 0xFF, 0xFF, 0xFF, 0xFF, 0xFF, 0xFF, 0xFF, 0xFF, 0xFF, 0xFF,
     0xFF, 0xFF, 0xFF, 0xFF, 0xFF, 0xFF, 0xFF, 0xFF, 0xFF, 0xFF, 0xFF, 0xFF, 0xFF, 0xFF, 0xFF, 0xFF,
     0xFF, 0xFF, 0xFF, 0xFF, 0xFF, 0xFF, 0xFF, 0xFF, 0xFF, 0xFF, 0xFF, 0xFF, 0xFF, 0xFF, 0xFF, 0xFF]"

definition btoa_url :: "byte list" where
  "btoa_url = map of_char
     ''ABCDEFGHIJKLMNOPQRSTUVWXYZabcdefghijklmnopqrstuvwxyz0123456789-_''"

definition atob_url :: "byte list" where
  "atob_url =
    [0xFF, 0xFF, 0xFF, 0xFF, 0xFF, 0xFF, 0xFF, 0xFF, 0xFF, 0xFF, 0xFF, 0xFF, 0xFF, 0xFF, 0xFF, 0xFF,
     0xFF, 0xFF, 0xFF, 0xFF, 0xFF, 0xFF, 0xFF, 0xFF, 0xFF, 0xFF, 0xFF, 0xFF, 0xFF, 0xFF, 0xFF, 0xFF,
     0xFF, 0xFF, 0xFF, 0xFF, 0xFF, 0xFF, 0xFF, 0xFF, 0xFF, 0xFF, 0xFF, 0xFF, 0xFF, 0x3E, 0xFF, 0xFF,
     0x34, 0x35, 0x36, 0x37, 0x38, 0x39, 0x3A, 0x3B, 0x3C, 0x3D, 0xFF, 0xFF, 0xFF, 0xFF, 0xFF, 0xFF,
     0xFF, 0x00, 0x01, 0x02, 0x03, 0x04, 0x05, 0x06, 0x07, 0x08, 0x09, 0x0A, 0x0B, 0x0C, 0x0D, 0x0E,
     0x0F, 0x10, 0x11, 0x12, 0x13, 0x14, 0x15, 0x16, 0x17, 0x18, 0x19, 0xFF, 0xFF, 0xFF, 0xFF, 0x3F,
     0xFF, 0x1A, 0x1B, 0x1C, 0x1D, 0x1E, 0x1F, 0x20, 0x21, 0x22, 0x23, 0x24, 0x25, 0x26, 0x27, 0x28,
     0x29, 0x2A, 0x2B, 0x2C, 0x2D, 0x2E, 0x2F, 0x30, 0x31, 0x32, 0x33, 0xFF, 0xFF, 0xFF, 0xFF, 0xFF,
     0xFF, 0xFF, 0xFF, 0xFF, 0xFF, 0xFF, 0xFF, 0xFF, 0xFF, 0xFF, 0xFF, 0xFF, 0xFF, 0xFF, 0xFF, 0xFF,
     0xFF, 0xFF, 0xFF, 0xFF, 0xFF, 0xFF, 0xFF, 0xFF, 0xFF, 0xFF, 0xFF, 0xFF, 0xFF, 0xFF, 0xFF, 0xFF,
     0xFF, 0xFF, 0xFF, 0xFF, 0xFF, 0xFF, 0xFF, 0xFF, 0xFF, 0xFF, 0xFF, 0xFF, 0xFF, 0xFF, 0xFF, 0xFF,
     0xFF, 0xFF, 0xFF, 0xFF, 0xFF, 0xFF, 0xFF, 0xFF, 0xFF, 0xFF, 0xFF, 0xFF, 0xFF, 0xFF, 0xFF, 0xFF,
     0xFF, 0xFF, 0xFF, 0xFF, 0xFF, 0xFF, 0xFF, 0xFF, 0xFF, 0xFF, 0xFF, 0xFF, 0xFF, 0xFF, 0xFF, 0xFF,
     0xFF, 0xFF, 0xFF, 0xFF, 0xFF, 0xFF, 0xFF, 0xFF, 0xFF, 0xFF, 0xFF, 0xFF, 0xFF, 0xFF, 0xFF, 0xFF,
     0xFF, 0xFF, 0xFF, 0xFF, 0xFF, 0xFF, 0xFF, 0xFF, 0xFF, 0xFF, 0xFF, 0xFF, 0xFF, 0xFF, 0xFF, 0xFF,
     0xFF, 0xFF, 0xFF, 0xFF, 0xFF, 0xFF, 0xFF, 0xFF, 0xFF, 0xFF, 0xFF, 0xFF, 0xFF, 0xFF, 0xFF, 0xFF]"

text \<open>The pad character \<^verbatim>\<open>=\<close>.\<close>

definition pad :: byte where
  "pad = of_char CHR ''=''"

section \<open>Encoding\<close>

definition uo_base64_len :: "size_t \<Rightarrow> size_t" where
  "uo_base64_len len = (len * 4 div 3 + 3) AND NOT 3"

text \<open>
  The loop of both encoders, from the end: \<open>a\<close> and \<open>b\<close> are the output and input
  pointers. Each round reads three bytes before it stores four characters.
\<close>

function encode_loop :: "byte list \<Rightarrow> nat \<Rightarrow> memory \<Rightarrow> nat \<Rightarrow> nat \<Rightarrow> memory" where
  "encode_loop tbl dst m a b =
     (if dst < a then
        let b2 = m (b - 1); b1 = m (b - 2); b0 = m (b - 3);
            m = m(a - 1 := tbl ! unat (b2 AND 0x3F));
            m = m(a - 2 := tbl ! unat (push_bit 2 (b1 AND 0x0F) OR drop_bit 6 b2));
            m = m(a - 3 := tbl ! unat (push_bit 4 (b0 AND 0x03) OR drop_bit 4 b1));
            m = m(a - 4 := tbl ! unat (drop_bit 2 b0))
        in encode_loop tbl dst m (a - 4) (b - 3)
      else m)"
  by pat_completeness auto
termination
  by (relation "measure (\<lambda>(tbl, dst, m, a, b). a)") auto

declare encode_loop.simps [simp del]

definition uo_base64_encode :: "memory \<Rightarrow> nat \<Rightarrow> nat \<Rightarrow> nat \<Rightarrow> memory \<times> nat" where
  "uo_base64_encode m dst src src_len =
     (let fin = dst + unat (uo_base64_len (of_nat src_len));
          b = src + src_len
      in if src_len mod 3 = 1 then
           let b0 = m (b - 1);
               m = m(fin - 1 := pad);
               m = m(fin - 2 := pad);
               m = m(fin - 3 := btoa ! unat (push_bit 4 (b0 AND 0x03)));
               m = m(fin - 4 := btoa ! unat (drop_bit 2 b0))
           in (encode_loop btoa dst m (fin - 4) (b - 1), fin)
         else if src_len mod 3 = 2 then
           let b1 = m (b - 1); b0 = m (b - 2);
               m = m(fin - 1 := pad);
               m = m(fin - 2 := btoa ! unat (push_bit 2 (b1 AND 0x0F)));
               m = m(fin - 3 := btoa ! unat (push_bit 4 (b0 AND 0x03) OR drop_bit 4 b1));
               m = m(fin - 4 := btoa ! unat (drop_bit 2 b0))
           in (encode_loop btoa dst m (fin - 4) (b - 2), fin)
         else (encode_loop btoa dst m fin b, fin))"

definition uo_base64url_encode :: "memory \<Rightarrow> nat \<Rightarrow> nat \<Rightarrow> nat \<Rightarrow> memory \<times> nat" where
  "uo_base64url_encode m dst src src_len =
     (let fin = dst + unat (uo_base64_len (of_nat src_len));
          b = src + src_len
      in if src_len mod 3 = 1 then
           let b0 = m (b - 1);
               m = m(fin - 3 := btoa_url ! unat (push_bit 4 (b0 AND 0x03)));
               m = m(fin - 4 := btoa_url ! unat (drop_bit 2 b0))
           in (encode_loop btoa_url dst m (fin - 4) (b - 1), fin - 2)
         else if src_len mod 3 = 2 then
           let b1 = m (b - 1); b0 = m (b - 2);
               m = m(fin - 2 := btoa_url ! unat (push_bit 2 (b1 AND 0x0F)));
               m = m(fin - 3 := btoa_url ! unat (push_bit 4 (b0 AND 0x03) OR drop_bit 4 b1));
               m = m(fin - 4 := btoa_url ! unat (drop_bit 2 b0))
           in (encode_loop btoa_url dst m (fin - 4) (b - 2), fin - 1)
         else (encode_loop btoa_url dst m fin b, fin))"

section \<open>Decoding\<close>

text \<open>
  One full group: four characters at \<open>a\<close> become three bytes at \<open>b\<close>. All four are read
  before the first store.
\<close>

definition decode_group :: "byte list \<Rightarrow> memory \<Rightarrow> nat \<Rightarrow> nat \<Rightarrow> memory" where
  "decode_group tbl m a b =
     (let a0 = tbl ! unat (m a); a1 = tbl ! unat (m (a + 1));
          a2 = tbl ! unat (m (a + 2)); a3 = tbl ! unat (m (a + 3));
          m = m(b := push_bit 2 a0 OR drop_bit 4 a1);
          m = m(b + 1 := push_bit 4 (a1 AND 0x0F) OR drop_bit 2 a2)
      in m(b + 2 := push_bit 6 (a2 AND 0x03) OR a3))"

text \<open>
  The loop of \<^verbatim>\<open>uo_base64_decode\<close>. Its condition looks at \<open>a[2]\<close> and \<open>a[3]\<close> also when
  \<open>a\<close> has reached \<^verbatim>\<open>end\<close>, so it is not bounded by \<^verbatim>\<open>end\<close>: it is defined as a
  function that may not return.
\<close>

partial_function (option) base64_decode_loop ::
  "nat \<Rightarrow> memory \<Rightarrow> nat \<Rightarrow> nat \<Rightarrow> (memory \<times> nat \<times> nat) option" where
  "base64_decode_loop fin m a b =
     (if a + 4 < fin \<or> m (a + 2) \<noteq> pad \<and> m (a + 3) \<noteq> pad
      then base64_decode_loop fin (decode_group atob m a b) (a + 4) (b + 3)
      else Some (m, a, b))"

definition uo_base64_decode :: "memory \<Rightarrow> nat \<Rightarrow> nat \<Rightarrow> nat \<Rightarrow> (memory \<times> nat) option" where
  "uo_base64_decode m dst src src_len =
     (let fin = src + src_len in
      case base64_decode_loop fin m src dst of
        None \<Rightarrow> None
      | Some (m, a, b) \<Rightarrow>
          if a < fin then
            let a0 = atob ! unat (m a); a1 = atob ! unat (m (a + 1));
                a2 = atob ! unat (m (a + 2));
                m = m(b := push_bit 2 a0 OR drop_bit 4 a1)
            in if a2 \<noteq> 0x40
               then Some (m(b + 1 := push_bit 4 (a1 AND 0x0F) OR drop_bit 2 a2), b + 2)
               else Some (m, b + 1)
          else Some (m, b))"

function base64url_decode_loop ::
  "nat \<Rightarrow> memory \<Rightarrow> nat \<Rightarrow> nat \<Rightarrow> memory \<times> nat \<times> nat" where
  "base64url_decode_loop fin m a b =
     (if a + 4 \<le> fin
      then base64url_decode_loop fin (decode_group atob_url m a b) (a + 4) (b + 3)
      else (m, a, b))"
  by pat_completeness auto
termination
  by (relation "measure (\<lambda>(fin, m, a, b). fin - a)") auto

declare base64url_decode_loop.simps [simp del]

definition uo_base64url_decode :: "memory \<Rightarrow> nat \<Rightarrow> nat \<Rightarrow> nat \<Rightarrow> memory \<times> nat" where
  "uo_base64url_decode m dst src src_len =
     (let fin = src + src_len;
          (m, a, b) = base64url_decode_loop fin m src dst
      in if fin - a = 3 then
           let a0 = atob_url ! unat (m a); a1 = atob_url ! unat (m (a + 1));
               a2 = atob_url ! unat (m (a + 2));
               m = m(b := push_bit 2 a0 OR drop_bit 4 a1)
           in (m(b + 1 := push_bit 4 (a1 AND 0x0F) OR drop_bit 2 a2), b + 2)
         else if fin - a = 2 then
           let a0 = atob_url ! unat (m a); a1 = atob_url ! unat (m (a + 1))
           in (m(b := push_bit 2 a0 OR drop_bit 4 a1), b + 1)
         else (m, b))"

section \<open>The encoding as a function on byte lists\<close>

text \<open>RFC 4648: groups of three bytes, an unpadded and a padded last group.\<close>

definition enc3 :: "byte list \<Rightarrow> byte \<Rightarrow> byte \<Rightarrow> byte \<Rightarrow> byte list" where
  "enc3 tbl b0 b1 b2 =
     [tbl ! unat (drop_bit 2 b0),
      tbl ! unat (push_bit 4 (b0 AND 0x03) OR drop_bit 4 b1),
      tbl ! unat (push_bit 2 (b1 AND 0x0F) OR drop_bit 6 b2),
      tbl ! unat (b2 AND 0x3F)]"

definition enc2 :: "byte list \<Rightarrow> byte \<Rightarrow> byte \<Rightarrow> byte list" where
  "enc2 tbl b0 b1 =
     [tbl ! unat (drop_bit 2 b0),
      tbl ! unat (push_bit 4 (b0 AND 0x03) OR drop_bit 4 b1),
      tbl ! unat (push_bit 2 (b1 AND 0x0F))]"

definition enc1 :: "byte list \<Rightarrow> byte \<Rightarrow> byte list" where
  "enc1 tbl b0 = [tbl ! unat (drop_bit 2 b0), tbl ! unat (push_bit 4 (b0 AND 0x03))]"

lemmas enc_defs = enc3_def enc2_def enc1_def

fun b64url :: "byte list \<Rightarrow> byte list" where
  "b64url (b0 # b1 # b2 # bs) = enc3 btoa_url b0 b1 b2 @ b64url bs"
| "b64url [b0, b1] = enc2 btoa_url b0 b1"
| "b64url [b0] = enc1 btoa_url b0"
| "b64url [] = []"

fun b64 :: "byte list \<Rightarrow> byte list" where
  "b64 (b0 # b1 # b2 # bs) = enc3 btoa b0 b1 b2 @ b64 bs"
| "b64 [b0, b1] = enc2 btoa b0 b1 @ [pad]"
| "b64 [b0] = enc1 btoa b0 @ [pad, pad]"
| "b64 [] = []"

text \<open>The full groups alone, over either table.\<close>

fun groups :: "byte list \<Rightarrow> byte list \<Rightarrow> byte list" where
  "groups tbl (b0 # b1 # b2 # bs) = enc3 tbl b0 b1 b2 @ groups tbl bs"
| "groups tbl _ = []"

lemma length_enc [simp]:
  "length (enc3 t a b c) = 4" "length (enc2 t a b) = 3" "length (enc1 t a) = 2"
  by (simp_all add: enc_defs)

lemma three_div [simp]: "(3 + n) div 3 = Suc (n div 3)" for n :: nat
  by (simp add: div_add_self1)

lemma three_div2 [simp]: "Suc (Suc (3 * q)) div 3 = q"
  by (simp add: div_nat_eqI)

lemma length_groups: "length (groups t bs) = 4 * (length bs div 3)"
  by (induction t bs rule: groups.induct) auto

lemma groups_snoc:
  "length xs mod 3 = 0 \<Longrightarrow> groups t (xs @ [a, b, c]) = groups t xs @ enc3 t a b c"
  by (induction t xs rule: groups.induct) (auto simp: mod_Suc split: if_splits)

lemma b64url_groups:
  "length xs mod 3 = 0 \<Longrightarrow> b64url (xs @ ys) = groups btoa_url xs @ b64url ys"
  by (induction xs rule: b64url.induct) (auto simp: mod_Suc split: if_splits)

lemma b64_groups:
  "length xs mod 3 = 0 \<Longrightarrow> b64 (xs @ ys) = groups btoa xs @ b64 ys"
  by (induction xs rule: b64.induct) (auto simp: mod_Suc split: if_splits)

lemma length_b64: "length (b64 bs) = 4 * ((length bs + 2) div 3)"
proof (induction bs rule: b64.induct)
  case (1 b0 b1 b2 bs)
  have "(length bs + 2 + 3) div 3 = (length bs + 2) div 3 + 1" by simp
  with "1.IH" show ?case by (simp add: ac_simps)
qed auto

lemma length_b64url:
  "length (b64url bs) = 4 * (length bs div 3)
     + (if length bs mod 3 = 0 then 0 else length bs mod 3 + 1)"
  by (induction bs rule: b64url.induct) (auto simp: mod_Suc)

section \<open>The output length\<close>

lemma unat_and_not_3: "unat (x AND NOT 3 :: size_t) = 4 * (unat x div 4)"
proof -
  have "x AND NOT 3 = push_bit 2 (drop_bit 2 x)"
  proof (rule bit_word_eqI)
    fix n assume "n < LENGTH(64)"
    have "bit (3 :: size_t) n \<longleftrightarrow> n < 2"
      using bit_mask_iff [of 2 n, where 'a = size_t] \<open>n < LENGTH(64)\<close>
      by (simp add: mask_eq_exp_minus_1)
    moreover have "2 \<le> n \<Longrightarrow> Suc (Suc (n - 2)) = n" by simp
    ultimately show "bit (x AND NOT 3) n \<longleftrightarrow> bit (push_bit 2 (drop_bit 2 x)) n"
      using \<open>n < LENGTH(64)\<close>
      by (cases "n < 2") (auto simp: bit_simps)
  qed
  moreover have "unat (drop_bit 2 x) = unat x div 4"
    by (simp add: drop_bit_eq_div unat_div_distrib)
  moreover have "unat x div 4 * 4 < 2 ^ 64"
    using unat_less_64 [of x] by simp
  ultimately show ?thesis
    by (simp add: push_bit_eq_mult unat_word_ariths)
qed

lemma uo_base64_len_nat:
  assumes "n < 2 ^ 62"
  shows "unat (uo_base64_len (of_nat n)) = 4 * ((n + 2) div 3)"
proof -
  have n: "unat (of_nat n :: size_t) = n" using assms by (intro unat_of_nat_64) simp
  have n4: "unat (of_nat n * 4 :: size_t) = n * 4"
    using assms by (simp add: unat_word_ariths n)
  have d: "unat (of_nat n * 4 div 3 :: size_t) = n * 4 div 3"
    by (simp only: unat_div_distrib n4) simp
  have "n * 4 div 3 + 3 < 2 ^ 64" using assms by simp
  then have s: "unat (of_nat n * 4 div 3 + 3 :: size_t) = n * 4 div 3 + 3"
    by (simp only: unat_word_ariths(1) d) simp
  have "unat (uo_base64_len (of_nat n)) = 4 * ((n * 4 div 3 + 3) div 4)"
    by (simp only: uo_base64_len_def unat_and_not_3 s)
  also have "\<dots> = 4 * ((n + 2) div 3)"
  proof -
    define q r where "q = n div 3" and "r = n mod 3"
    then have n: "n = 3 * q + r" and r: "r < 3" by simp_all
    then consider "r = 0" | "r = 1" | "r = 2" by linarith
    moreover have "(4 + 12 * q) div 3 = 4 * q + 1" "(8 + 12 * q) div 3 = 4 * q + 2"
      by (simp_all add: div_nat_eqI)
    ultimately show ?thesis by cases (simp_all add: n)
  qed
  finally show ?thesis .
qed

section \<open>The encoders compute the encoding\<close>

text \<open>
  The encoders overwrite memory while they still read. Their output may overlap their
  input as long as it does not start before it: \<^verbatim>\<open>dst >= src\<close>, in particular
  \<^verbatim>\<open>dst == src\<close>. Otherwise the two objects have to be disjoint.
\<close>

definition encode_safe :: "nat \<Rightarrow> nat \<Rightarrow> nat \<Rightarrow> bool" where
  "encode_safe dst src n \<longleftrightarrow> src \<le> dst \<or> dst + n \<le> src"

definition same_outside :: "nat \<Rightarrow> nat \<Rightarrow> memory \<Rightarrow> memory \<Rightarrow> bool" where
  "same_outside p n m m' \<longleftrightarrow> (\<forall>x. x < p \<or> p + n \<le> x \<longrightarrow> m' x = m x)"

lemma same_outsideD: "same_outside p n m m' \<Longrightarrow> x < p \<or> p + n \<le> x \<Longrightarrow> m' x = m x"
  by (auto simp: same_outside_def)

lemma encode_loop_groups:
  assumes "encode_safe dst src (4 * k)"
  shows "mem_read (encode_loop tbl dst m (dst + 4 * k) (src + 3 * k)) dst (4 * k)
           = groups tbl (mem_read m src (3 * k))
       \<and> same_outside dst (4 * k) m (encode_loop tbl dst m (dst + 4 * k) (src + 3 * k))"
  using assms
proof (induction k arbitrary: m)
  case 0
  then show ?case by (simp add: encode_loop.simps same_outside_def)
next
  case (Suc k)
  let ?b0 = "m (src + 3 * k)" and ?b1 = "m (src + 3 * k + 1)" and ?b2 = "m (src + 3 * k + 2)"
  define m1 where "m1 = m(dst + 4 * k + 3 := tbl ! unat (?b2 AND 0x3F),
      dst + 4 * k + 2 := tbl ! unat (push_bit 2 (?b1 AND 0x0F) OR drop_bit 6 ?b2),
      dst + 4 * k + 1 := tbl ! unat (push_bit 4 (?b0 AND 0x03) OR drop_bit 4 ?b1),
      dst + 4 * k := tbl ! unat (drop_bit 2 ?b0))"
  define m2 where "m2 = encode_loop tbl dst m1 (dst + 4 * k) (src + 3 * k)"
  have addr: "dst + 4 * Suc k - 1 = dst + 4 * k + 3" "dst + 4 * Suc k - 2 = dst + 4 * k + 2"
    "dst + 4 * Suc k - 3 = dst + 4 * k + 1" "dst + 4 * Suc k - 4 = dst + 4 * k"
    "src + 3 * Suc k - 1 = src + 3 * k + 2" "src + 3 * Suc k - 2 = src + 3 * k + 1"
    "src + 3 * Suc k - 3 = src + 3 * k"
    by simp_all
  have unfold: "encode_loop tbl dst m (dst + 4 * Suc k) (src + 3 * Suc k) = m2"
  proof -
    have "dst < dst + 4 * Suc k" by simp
    then show ?thesis
      by (subst encode_loop.simps) (simp only: Let_def addr m2_def m1_def if_True)
  qed
  have safe: "encode_safe dst src (4 * k)"
    using Suc.prems by (auto simp: encode_safe_def)
  have src1: "mem_read m1 src (3 * k) = mem_read m src (3 * k)"
    using Suc.prems by (intro mem_read_cong) (auto simp: m1_def encode_safe_def)
  have IH: "mem_read m2 dst (4 * k) = groups tbl (mem_read m1 src (3 * k))"
    "same_outside dst (4 * k) m1 m2"
    using Suc.IH [OF safe, of m1] by (simp_all add: m2_def)
  have "mem_read m2 dst (4 * Suc k) = mem_read m2 dst (4 * k) @ mem_read m2 (dst + 4 * k) 4"
    using mem_read_add [of m2 dst "4 * k" 4] by (simp add: add.commute)
  also have "mem_read m2 (dst + 4 * k) 4 = mem_read m1 (dst + 4 * k) 4"
    by (rule mem_read_cong) (auto intro: same_outsideD [OF IH(2)])
  also have "\<dots> = enc3 tbl ?b0 ?b1 ?b2"
    by (simp add: mem_read_numeral m1_def enc3_def)
  also have "mem_read m2 dst (4 * k) = groups tbl (mem_read m src (3 * k))"
    by (simp only: IH src1)
  also have "groups tbl (mem_read m src (3 * k)) @ enc3 tbl ?b0 ?b1 ?b2
      = groups tbl (mem_read m src (3 * k) @ [?b0, ?b1, ?b2])"
    by (simp add: groups_snoc)
  also have "mem_read m src (3 * k) @ [?b0, ?b1, ?b2] = mem_read m src (3 * Suc k)"
    using mem_read_add [of m src "3 * k" 3]
    by (simp add: mem_read_numeral add.commute)
  finally have "mem_read m2 dst (4 * Suc k) = groups tbl (mem_read m src (3 * Suc k))" .
  moreover have "same_outside dst (4 * Suc k) m m2"
    using IH(2) by (auto simp: same_outside_def m1_def)
  ultimately show ?case by (simp only: unfold)
qed

text \<open>
  The last group is stored first, into \<open>t\<close> characters after the full groups; then the
  loop runs. \<open>m1\<close> is the memory between the two.
\<close>

lemma encode_with_tail:
  assumes "encode_safe dst src (4 * q + t)"
    and "same_outside (dst + 4 * q) t m m1"
    and "m2 = encode_loop tbl dst m1 (dst + 4 * q) (src + 3 * q)"
  shows "mem_read m2 dst (4 * q + t)
           = groups tbl (mem_read m src (3 * q)) @ mem_read m1 (dst + 4 * q) t"
    and "same_outside dst (4 * q + t) m m2"
proof -
  have safe: "encode_safe dst src (4 * q)"
    using assms(1) by (auto simp: encode_safe_def)
  have src1: "mem_read m1 src (3 * q) = mem_read m src (3 * q)"
    using assms(1) by (intro mem_read_cong same_outsideD [OF assms(2)]) (auto simp: encode_safe_def)
  have loop: "mem_read m2 dst (4 * q) = groups tbl (mem_read m1 src (3 * q))"
    "same_outside dst (4 * q) m1 m2"
    using encode_loop_groups [OF safe, of tbl m1] assms(3) by simp_all
  have "mem_read m2 (dst + 4 * q) t = mem_read m1 (dst + 4 * q) t"
    by (rule mem_read_cong) (auto intro: same_outsideD [OF loop(2)])
  then show "mem_read m2 dst (4 * q + t)
      = groups tbl (mem_read m src (3 * q)) @ mem_read m1 (dst + 4 * q) t"
    by (simp only: mem_read_add loop(1) src1)
  show "same_outside dst (4 * q + t) m m2"
    using assms(2) loop(2) by (auto simp: same_outside_def)
qed

lemma mem_read_split_3:
  "n = 3 * q + r \<Longrightarrow> mem_read m p n = mem_read m p (3 * q) @ mem_read m (p + 3 * q) r"
  by (simp only: mem_read_add)

text \<open>The address arithmetic of the encoders, by the length of the last group.\<close>

lemma encode_arith:
  "(3 * q) mod 3 = (0::nat)" "(3 * q + 1) mod 3 = (1::nat)" "(3 * q + 2) mod 3 = (2::nat)"
  "(0::nat) = 1 \<longleftrightarrow> False" "(0::nat) = 2 \<longleftrightarrow> False" "(2::nat) = 1 \<longleftrightarrow> False"
  "(3 * q + 2) div 3 = (q::nat)" "(3 * q + 1 + 2) div 3 = q + 1" "(3 * q + 2 + 2) div 3 = q + 1"
  "src + (3 * q + 1) - 1 = (src + 3 * q :: nat)" "src + (3 * q + 2) - 1 = src + 3 * q + 1"
  "src + (3 * q + 2) - 2 = (src + 3 * q :: nat)"
  "dst + 4 * q + 4 - 1 = dst + 4 * q + (3::nat)" "dst + 4 * q + 4 - 2 = dst + 4 * q + (2::nat)"
  "dst + 4 * q + 4 - 3 = dst + 4 * q + (1::nat)" "dst + 4 * q + 4 - 4 = dst + 4 * (q::nat)"
  "dst + 4 * (q + 1) = dst + 4 * q + (4::nat)"
  by (simp_all add: div_nat_eqI mod_Suc)

lemma base64url_encode_unfold:
  assumes "n < 2 ^ 62"
  shows "n = 3 * q \<Longrightarrow>
      uo_base64url_encode m dst src n = (encode_loop btoa_url dst m (dst + 4 * q) (src + 3 * q), dst + 4 * q)"
    and "n = 3 * q + 1 \<Longrightarrow> b0 = m (src + 3 * q) \<Longrightarrow>
      uo_base64url_encode m dst src n =
      (encode_loop btoa_url dst (m(dst + 4 * q + 1 := btoa_url ! unat (push_bit 4 (b0 AND 0x03)),
        dst + 4 * q := btoa_url ! unat (drop_bit 2 b0))) (dst + 4 * q) (src + 3 * q), dst + 4 * q + 2)"
    and "n = 3 * q + 2 \<Longrightarrow> b0 = m (src + 3 * q) \<Longrightarrow> b1 = m (src + 3 * q + 1) \<Longrightarrow>
      uo_base64url_encode m dst src n =
      (encode_loop btoa_url dst (m(dst + 4 * q + 2 := btoa_url ! unat (push_bit 2 (b1 AND 0x0F)),
        dst + 4 * q + 1 := btoa_url ! unat (push_bit 4 (b0 AND 0x03) OR drop_bit 4 b1),
        dst + 4 * q := btoa_url ! unat (drop_bit 2 b0))) (dst + 4 * q) (src + 3 * q), dst + 4 * q + 3)"
  unfolding uo_base64url_encode_def uo_base64_len_nat [OF assms] Let_def
  by (simp_all only: encode_arith if_True if_False simp_thms)

lemma base64url_encode_correct:
  assumes n: "n < 2 ^ 62"
    and safe: "encode_safe dst src (length (b64url (mem_read m src n)))"
    and r: "uo_base64url_encode m dst src n = (m', fin)"
  shows "fin = dst + length (b64url (mem_read m src n))
       \<and> mem_read m' dst (length (b64url (mem_read m src n))) = b64url (mem_read m src n)
       \<and> same_outside dst (length (b64url (mem_read m src n))) m m'"
proof -
  define q where "q = n div 3"
  define b0 b1 where "b0 = m (src + 3 * q)" and "b1 = m (src + 3 * q + 1)"
  note unfold = base64url_encode_unfold [OF n, of q, where m = m and dst = dst and src = src]
  have "n = 3 * q + n mod 3" "n mod 3 < 3" by (simp_all add: q_def)
  then consider "n = 3 * q" | "n = 3 * q + 1" | "n = 3 * q + 2" by linarith
  then show ?thesis
  proof cases
    case 1
    have "b64url (mem_read m src n) = groups btoa_url (mem_read m src (3 * q))"
      using b64url_groups [of "mem_read m src (3 * q)" "[]"] by (simp add: 1)
    moreover have "same_outside (dst + 4 * q) 0 m m" by (simp add: same_outside_def)
    ultimately show ?thesis
      using encode_with_tail [of dst src q 0 m m m' btoa_url] safe r unfold(1) [OF 1]
      by (auto simp: length_groups)
  next
    case 2
    define m1 where "m1 = m(dst + 4 * q + 1 := btoa_url ! unat (push_bit 4 (b0 AND 0x03)),
        dst + 4 * q := btoa_url ! unat (drop_bit 2 b0))"
    have "b64url (mem_read m src n)
        = groups btoa_url (mem_read m src (3 * q)) @ enc1 btoa_url b0"
      by (simp add: mem_read_split_3 [OF 2] b64url_groups b0_def mem_read_Suc)
    moreover have "same_outside (dst + 4 * q) 2 m m1" by (simp add: same_outside_def m1_def)
    moreover have "mem_read m1 (dst + 4 * q) 2 = enc1 btoa_url b0"
      by (simp add: mem_read_numeral m1_def enc1_def)
    ultimately show ?thesis
      using encode_with_tail [of dst src q 2 m m1 m' btoa_url] safe r unfold(2) [OF 2 b0_def]
      by (simp add: length_groups m1_def)
  next
    case 3
    define m1 where "m1 = m(dst + 4 * q + 2 := btoa_url ! unat (push_bit 2 (b1 AND 0x0F)),
        dst + 4 * q + 1 := btoa_url ! unat (push_bit 4 (b0 AND 0x03) OR drop_bit 4 b1),
        dst + 4 * q := btoa_url ! unat (drop_bit 2 b0))"
    have "b64url (mem_read m src n)
        = groups btoa_url (mem_read m src (3 * q)) @ enc2 btoa_url b0 b1"
      by (simp add: mem_read_split_3 [OF 3] b64url_groups b0_def b1_def mem_read_numeral)
    moreover have "same_outside (dst + 4 * q) 3 m m1" by (simp add: same_outside_def m1_def)
    moreover have "mem_read m1 (dst + 4 * q) 3 = enc2 btoa_url b0 b1"
      by (simp add: mem_read_numeral m1_def enc2_def)
    ultimately show ?thesis
      using encode_with_tail [of dst src q 3 m m1 m' btoa_url] safe r
        unfold(3) [OF 3 b0_def b1_def]
      by (simp add: length_groups m1_def)
  qed
qed

lemma base64_encode_unfold:
  assumes "n < 2 ^ 62"
  shows "n = 3 * q \<Longrightarrow>
      uo_base64_encode m dst src n = (encode_loop btoa dst m (dst + 4 * q) (src + 3 * q), dst + 4 * q)"
    and "n = 3 * q + 1 \<Longrightarrow> b0 = m (src + 3 * q) \<Longrightarrow>
      uo_base64_encode m dst src n =
      (encode_loop btoa dst (m(dst + 4 * q + 3 := pad, dst + 4 * q + 2 := pad,
        dst + 4 * q + 1 := btoa ! unat (push_bit 4 (b0 AND 0x03)),
        dst + 4 * q := btoa ! unat (drop_bit 2 b0))) (dst + 4 * q) (src + 3 * q), dst + 4 * q + 4)"
    and "n = 3 * q + 2 \<Longrightarrow> b0 = m (src + 3 * q) \<Longrightarrow> b1 = m (src + 3 * q + 1) \<Longrightarrow>
      uo_base64_encode m dst src n =
      (encode_loop btoa dst (m(dst + 4 * q + 3 := pad,
        dst + 4 * q + 2 := btoa ! unat (push_bit 2 (b1 AND 0x0F)),
        dst + 4 * q + 1 := btoa ! unat (push_bit 4 (b0 AND 0x03) OR drop_bit 4 b1),
        dst + 4 * q := btoa ! unat (drop_bit 2 b0))) (dst + 4 * q) (src + 3 * q), dst + 4 * q + 4)"
  unfolding uo_base64_encode_def uo_base64_len_nat [OF assms] Let_def
  by (simp_all only: encode_arith if_True if_False simp_thms)

lemma base64_encode_correct:
  assumes n: "n < 2 ^ 62"
    and safe: "encode_safe dst src (length (b64 (mem_read m src n)))"
    and r: "uo_base64_encode m dst src n = (m', fin)"
  shows "fin = dst + length (b64 (mem_read m src n))
       \<and> mem_read m' dst (length (b64 (mem_read m src n))) = b64 (mem_read m src n)
       \<and> same_outside dst (length (b64 (mem_read m src n))) m m'"
proof -
  define q where "q = n div 3"
  define b0 b1 where "b0 = m (src + 3 * q)" and "b1 = m (src + 3 * q + 1)"
  note unfold = base64_encode_unfold [OF n, of q, where m = m and dst = dst and src = src]
  have "n = 3 * q + n mod 3" "n mod 3 < 3" by (simp_all add: q_def)
  then consider "n = 3 * q" | "n = 3 * q + 1" | "n = 3 * q + 2" by linarith
  then show ?thesis
  proof cases
    case 1
    have "b64 (mem_read m src n) = groups btoa (mem_read m src (3 * q))"
      using b64_groups [of "mem_read m src (3 * q)" "[]"] by (simp add: 1)
    moreover have "same_outside (dst + 4 * q) 0 m m" by (simp add: same_outside_def)
    ultimately show ?thesis
      using encode_with_tail [of dst src q 0 m m m' btoa] safe r unfold(1) [OF 1]
      by (auto simp: length_groups)
  next
    case 2
    define m1 where "m1 = m(dst + 4 * q + 3 := pad, dst + 4 * q + 2 := pad,
        dst + 4 * q + 1 := btoa ! unat (push_bit 4 (b0 AND 0x03)),
        dst + 4 * q := btoa ! unat (drop_bit 2 b0))"
    have "b64 (mem_read m src n)
        = groups btoa (mem_read m src (3 * q)) @ enc1 btoa b0 @ [pad, pad]"
      by (simp add: mem_read_split_3 [OF 2] b64_groups b0_def mem_read_Suc)
    moreover have "same_outside (dst + 4 * q) 4 m m1" by (simp add: same_outside_def m1_def)
    moreover have "mem_read m1 (dst + 4 * q) 4 = enc1 btoa b0 @ [pad, pad]"
      by (simp add: mem_read_numeral m1_def enc1_def)
    ultimately show ?thesis
      using encode_with_tail [of dst src q 4 m m1 m' btoa] safe r unfold(2) [OF 2 b0_def]
      by (simp add: length_groups m1_def)
  next
    case 3
    define m1 where "m1 = m(dst + 4 * q + 3 := pad,
        dst + 4 * q + 2 := btoa ! unat (push_bit 2 (b1 AND 0x0F)),
        dst + 4 * q + 1 := btoa ! unat (push_bit 4 (b0 AND 0x03) OR drop_bit 4 b1),
        dst + 4 * q := btoa ! unat (drop_bit 2 b0))"
    have "b64 (mem_read m src n)
        = groups btoa (mem_read m src (3 * q)) @ enc2 btoa b0 b1 @ [pad]"
      by (simp add: mem_read_split_3 [OF 3] b64_groups b0_def b1_def mem_read_numeral)
    moreover have "same_outside (dst + 4 * q) 4 m m1" by (simp add: same_outside_def m1_def)
    moreover have "mem_read m1 (dst + 4 * q) 4 = enc2 btoa b0 b1 @ [pad]"
      by (simp add: mem_read_numeral m1_def enc2_def)
    ultimately show ?thesis
      using encode_with_tail [of dst src q 4 m m1 m' btoa] safe r
        unfold(3) [OF 3 b0_def b1_def]
      by (simp add: length_groups m1_def)
  qed
qed

section \<open>The decoders invert the encoding\<close>

text \<open>On the six-bit values the two tables of each alphabet are inverse.\<close>

lemma atob_map_btoa: "map (\<lambda>c. atob ! unat c) btoa = map of_nat [0..<64]"
proof -
  have "map (\<lambda>c. atob ! unat c) btoa =
   [0, 1, 2, 3, 4, 5, 6, 7, 8, 9, 10, 11, 12, 13, 14, 15,
   16, 17, 18, 19, 20, 21, 22, 23, 24, 25, 26, 27, 28, 29, 30, 31,
   32, 33, 34, 35, 36, 37, 38, 39, 40, 41, 42, 43, 44, 45, 46, 47,
   48, 49, 50, 51, 52, 53, 54, 55, 56, 57, 58, 59, 60, 61, 62, 63]"
    by (simp add: atob_def btoa_def)
  also have "\<dots> = map of_nat [0..<64]" by code_simp
  finally show ?thesis .
qed

lemma atob_url_map_btoa_url: "map (\<lambda>c. atob_url ! unat c) btoa_url = map of_nat [0..<64]"
proof -
  have "map (\<lambda>c. atob_url ! unat c) btoa_url =
   [0, 1, 2, 3, 4, 5, 6, 7, 8, 9, 10, 11, 12, 13, 14, 15,
   16, 17, 18, 19, 20, 21, 22, 23, 24, 25, 26, 27, 28, 29, 30, 31,
   32, 33, 34, 35, 36, 37, 38, 39, 40, 41, 42, 43, 44, 45, 46, 47,
   48, 49, 50, 51, 52, 53, 54, 55, 56, 57, 58, 59, 60, 61, 62, 63]"
    by (simp add: atob_url_def btoa_url_def)
  also have "\<dots> = map of_nat [0..<64]" by code_simp
  finally show ?thesis .
qed

lemma pad_notin_btoa: "pad \<notin> set btoa"
  by (simp add: pad_def btoa_def)

lemma atob_pad: "atob ! unat pad = 0x40"
  by (simp add: atob_def pad_def)

lemma length_btoa [simp]: "length btoa = 64" "length btoa_url = 64"
  by (simp_all add: btoa_def btoa_url_def)

lemma atob_btoa [simp]:
  assumes "unat w < 64"
  shows "atob ! unat (btoa ! unat w) = w" and "btoa ! unat w \<noteq> pad"
    and "atob_url ! unat (btoa_url ! unat w) = w"
proof -
  show "atob ! unat (btoa ! unat w) = w"
    using arg_cong [OF atob_map_btoa, of "\<lambda>xs. xs ! unat w"] assms by simp
  show "atob_url ! unat (btoa_url ! unat w) = w"
    using arg_cong [OF atob_url_map_btoa_url, of "\<lambda>xs. xs ! unat w"] assms by simp
  show "btoa ! unat w \<noteq> pad"
    using pad_notin_btoa assms by (metis length_btoa(1) nth_mem)
qed

text \<open>The six-bit values the encoders look up.\<close>

lemma sextetI: "\<not> bit w 6 \<Longrightarrow> \<not> bit w 7 \<Longrightarrow> unat w < 64" for w :: byte
proof -
  assume "\<not> bit w 6" "\<not> bit w 7"
  then have "w = w AND mask 6"
    by (simp add: word_bits bit_simps mask_eq_exp_minus_1)
  then have "unat w = unat w mod 2 ^ 6" by (metis unat_and_mask)
  moreover have "unat w mod 2 ^ 6 < 64" by simp
  ultimately show ?thesis by linarith
qed

lemma not_bit_byte: "8 \<le> n \<Longrightarrow> \<not> bit w n" for w :: byte
  by (auto dest: bit_imp_le_length)

lemma sextets [simp]:
  fixes b0 b1 b2 :: byte
  shows "unat (drop_bit 2 b0) < 64" "unat (push_bit 4 (b0 AND 0x03) OR drop_bit 4 b1) < 64"
    "unat (push_bit 2 (b1 AND 0x0F) OR drop_bit 6 b2) < 64" "unat (b2 AND 0x3F) < 64"
    "unat (push_bit 4 (b0 AND 0x03)) < 64" "unat (push_bit 2 (b1 AND 0x0F)) < 64"
  by (rule sextetI; simp add: bit_simps not_bit_byte)+

text \<open>Putting the six-bit values back together.\<close>

lemma octets:
  fixes b0 b1 b2 :: byte
  shows "push_bit 2 (drop_bit 2 b0) OR drop_bit 4 (push_bit 4 (b0 AND 0x03) OR drop_bit 4 b1) = b0"
    "push_bit 4 ((push_bit 4 (b0 AND 0x03) OR drop_bit 4 b1) AND 0x0F)
       OR drop_bit 2 (push_bit 2 (b1 AND 0x0F) OR drop_bit 6 b2) = b1"
    "push_bit 6 ((push_bit 2 (b1 AND 0x0F) OR drop_bit 6 b2) AND 0x03) OR (b2 AND 0x3F) = b2"
    "push_bit 2 (drop_bit 2 b0) OR drop_bit 4 (push_bit 4 (b0 AND 0x03)) = b0"
    "push_bit 4 ((push_bit 4 (b0 AND 0x03) OR drop_bit 4 b1) AND 0x0F)
       OR drop_bit 2 (push_bit 2 (b1 AND 0x0F)) = b1"
  by (simp_all add: word_bits bit_simps not_bit_byte)
    (simp_all add: numeral_2_eq_2 numeral_3_eq_3)

text \<open>
  The decoders run forward: they may be given a destination that does not start after the
  source, in particular the source itself, or a disjoint one.
\<close>

definition decode_safe :: "nat \<Rightarrow> nat \<Rightarrow> nat \<Rightarrow> bool" where
  "decode_safe dst src n \<longleftrightarrow> dst \<le> src \<or> src + n \<le> dst"

lemma mem_read_4_eq:
  "mem_read m p 4 = [a, b, c, d] \<longleftrightarrow> m p = a \<and> m (p + 1) = b \<and> m (p + 2) = c \<and> m (p + 3) = d"
  by (simp add: mem_read_numeral)

lemma decode_group_enc3:
  assumes "mem_read m a 4 = enc3 btoa_url b0 b1 b2"
  shows "decode_group atob_url m a b = m(b := b0, b + 1 := b1, b + 2 := b2)"
proof -
  note eqs = assms [unfolded enc3_def mem_read_4_eq, THEN conjunct1]
    assms [unfolded enc3_def mem_read_4_eq, THEN conjunct2, THEN conjunct1]
    assms [unfolded enc3_def mem_read_4_eq, THEN conjunct2, THEN conjunct2, THEN conjunct1]
    assms [unfolded enc3_def mem_read_4_eq, THEN conjunct2, THEN conjunct2, THEN conjunct2]
  show ?thesis
    unfolding decode_group_def Let_def eqs atob_btoa(3) [OF sextets(1)]
      atob_btoa(3) [OF sextets(2)] atob_btoa(3) [OF sextets(3)] atob_btoa(3) [OF sextets(4)]
      octets(1-3) by (rule refl)
qed

lemma decode_group_enc3_padded:
  assumes "mem_read m a 4 = enc3 btoa b0 b1 b2"
  shows "decode_group atob m a b = m(b := b0, b + 1 := b1, b + 2 := b2)"
proof -
  note eqs = assms [unfolded enc3_def mem_read_4_eq, THEN conjunct1]
    assms [unfolded enc3_def mem_read_4_eq, THEN conjunct2, THEN conjunct1]
    assms [unfolded enc3_def mem_read_4_eq, THEN conjunct2, THEN conjunct2, THEN conjunct1]
    assms [unfolded enc3_def mem_read_4_eq, THEN conjunct2, THEN conjunct2, THEN conjunct2]
  show ?thesis
    unfolding decode_group_def Let_def eqs atob_btoa(1) [OF sextets(1)]
      atob_btoa(1) [OF sextets(2)] atob_btoa(1) [OF sextets(3)] atob_btoa(1) [OF sextets(4)]
      octets(1-3) by (rule refl)
qed

lemma mem_read_after_group:
  assumes "decode_safe dst src (4 + n)"
  shows "mem_read (m(dst := b0, dst + 1 := b1, dst + 2 := b2)) (src + 4) n = mem_read m (src + 4) n"
  using assms by (intro mem_read_cong) (auto simp: decode_safe_def)

lemma mem_read_group_result:
  assumes "same_outside (dst + 3) n (m(dst := b0, dst + 1 := b1, dst + 2 := b2)) m'"
    and "mem_read m' (dst + 3) n = bs"
  shows "mem_read m' dst (3 + n) = b0 # b1 # b2 # bs" and "same_outside dst (3 + n) m m'"
proof -
  have "m' dst = b0" "m' (dst + 1) = b1" "m' (dst + 2) = b2"
    using same_outsideD [OF assms(1)] by simp_all
  then show "mem_read m' dst (3 + n) = b0 # b1 # b2 # bs"
    using assms(2) by (simp add: mem_read_add mem_read_numeral)
  show "same_outside dst (3 + n) m m'"
    using assms(1) by (auto simp: same_outside_def)
qed

lemma base64url_decode_step:
  "4 \<le> n \<Longrightarrow> uo_base64url_decode m dst src n
     = uo_base64url_decode (decode_group atob_url m src dst) (dst + 3) (src + 4) (n - 4)"
  unfolding uo_base64url_decode_def
  by (subst base64url_decode_loop.simps) simp

text \<open>The last group: three, two or no characters.\<close>

lemma mem_read_3_eq:
  "mem_read m p 3 = [a, b, c] \<longleftrightarrow> m p = a \<and> m (p + 1) = b \<and> m (p + 2) = c"
  by (simp add: mem_read_numeral)

lemma mem_read_2_eq: "mem_read m p 2 = [a, b] \<longleftrightarrow> m p = a \<and> m (p + 1) = b"
  by (simp add: mem_read_numeral)

lemma base64url_decode_short:
  "n < 4 \<Longrightarrow> base64url_decode_loop (src + n) m src dst = (m, src, dst)"
  by (simp add: base64url_decode_loop.simps)

lemma base64url_decode_3:
  assumes "mem_read m src 3 = enc2 btoa_url b0 b1"
  shows "uo_base64url_decode m dst src 3 = (m(dst := b0, dst + 1 := b1), dst + 2)"
proof -
  have eqs: "m src = btoa_url ! unat (drop_bit 2 b0)"
    "m (src + 1) = btoa_url ! unat (push_bit 4 (b0 AND 3) OR drop_bit 4 b1)"
    "m (src + 2) = btoa_url ! unat (push_bit 2 (b1 AND 15))"
    using assms unfolding enc2_def mem_read_3_eq by blast+
  have "base64url_decode_loop (src + 3) m src dst = (m, src, dst)"
    by (rule base64url_decode_short) simp
  moreover have "src + 3 - src = 3" by simp
  ultimately show ?thesis
    by (simp only: uo_base64url_decode_def Let_def prod.case if_True simp_thms eqs
        atob_btoa(3) [OF sextets(1)] atob_btoa(3) [OF sextets(2)] atob_btoa(3) [OF sextets(6)]
        octets(1) octets(5))
qed

lemma base64url_decode_2:
  assumes "mem_read m src 2 = enc1 btoa_url b0"
  shows "uo_base64url_decode m dst src 2 = (m(dst := b0), dst + 1)"
proof -
  have eqs: "m src = btoa_url ! unat (drop_bit 2 b0)"
    "m (src + 1) = btoa_url ! unat (push_bit 4 (b0 AND 3))"
    using assms unfolding enc1_def mem_read_2_eq by blast+
  have "base64url_decode_loop (src + 2) m src dst = (m, src, dst)"
    by (rule base64url_decode_short) simp
  moreover have "src + 2 - src = 2" "((2::nat) = 3) = False" by simp_all
  ultimately show ?thesis
    by (simp only: uo_base64url_decode_def Let_def prod.case if_True if_False simp_thms eqs
        atob_btoa(3) [OF sextets(1)] atob_btoa(3) [OF sextets(5)] octets(4))
qed

lemma base64url_decode_0: "uo_base64url_decode m dst src 0 = (m, dst)"
  by (simp add: uo_base64url_decode_def base64url_decode_short [of 0, simplified])

lemma base64url_decode_correct:
  assumes "mem_read m src n = b64url bs" and "decode_safe dst src n"
    and "uo_base64url_decode m dst src n = (m', fin)"
  shows "fin = dst + length bs \<and> mem_read m' dst (length bs) = bs
       \<and> same_outside dst (length bs) m m'"
  using assms
proof (induction bs arbitrary: m src n dst rule: b64url.induct)
  case (1 b0 b1 b2 bs)
  define k where "k = length (b64url bs)"
  have n: "n = 4 + k"
    using arg_cong [OF "1.prems"(1), of length] by (simp add: k_def)
  let ?m1 = "m(dst := b0, dst + 1 := b1, dst + 2 := b2)"
  have rd: "mem_read m src 4 = enc3 btoa_url b0 b1 b2" "mem_read m (src + 4) k = b64url bs"
    using "1.prems"(1) by (simp_all add: n mem_read_add append_eq_append_conv)
  have "mem_read ?m1 (src + 4) k = b64url bs"
    using "1.prems"(2) by (simp only: n mem_read_after_group rd(2))
  moreover have "decode_safe (dst + 3) (src + 4) k"
    using "1.prems"(2) by (auto simp: decode_safe_def n)
  moreover have "uo_base64url_decode ?m1 (dst + 3) (src + 4) k = (m', fin)"
    using "1.prems"(3) base64url_decode_step [of n m dst src]
    by (simp add: n decode_group_enc3 [OF rd(1)])
  ultimately have IH: "fin = dst + 3 + length bs" "mem_read m' (dst + 3) (length bs) = bs"
    "same_outside (dst + 3) (length bs) ?m1 m'"
    using "1.IH" by blast+
  then show ?case
    using mem_read_group_result [OF IH(3,2)] by (simp add: numeral_3_eq_3)
next
  case (2 b0 b1)
  have n: "n = 3" using arg_cong [OF "2.prems"(1), of length] by simp
  from 2 have "m' = m(dst := b0, dst + 1 := b1)" "fin = dst + 2"
    using base64url_decode_3 [of m src b0 b1 dst] by (simp_all only: n b64url.simps prod.inject)
  then show ?case by (simp add: same_outside_def mem_read_Suc)
next
  case (3 b0)
  have n: "n = 2" using arg_cong [OF "3.prems"(1), of length] by simp
  from 3 have "m' = m(dst := b0)" "fin = dst + 1"
    using base64url_decode_2 [of m src b0 dst] by (simp_all only: n b64url.simps prod.inject)
  then show ?case by (simp add: same_outside_def mem_read_Suc)
next
  case 4
  have n: "n = 0" using arg_cong [OF "4.prems"(1), of length] by simp
  with "4.prems"(3) show ?case
    by (simp add: base64url_decode_0 same_outside_def)
qed

text \<open>
  The padded decoder. The group that holds the padding stops its loop; when the encoding
  has none, nothing does.
\<close>

lemma base64_decode_step:
  assumes "4 < n \<or> m (src + 2) \<noteq> pad \<and> m (src + 3) \<noteq> pad" and "4 \<le> n"
  shows "uo_base64_decode m dst src n
     = uo_base64_decode (decode_group atob m src dst) (dst + 3) (src + 4) (n - 4)"
  using assms unfolding uo_base64_decode_def
  by (subst base64_decode_loop.simps) simp

lemma base64_decode_last:
  assumes "m (src + 2) = pad \<or> m (src + 3) = pad"
  shows "base64_decode_loop (src + 4) m src dst = Some (m, src, dst)"
  using assms by (subst base64_decode_loop.simps) auto

lemma base64_decode_last_2:
  assumes "mem_read m src 4 = enc2 btoa b0 b1 @ [pad]"
  shows "uo_base64_decode m dst src 4 = Some (m(dst := b0, dst + 1 := b1), dst + 2)"
proof -
  have eqs: "m src = btoa ! unat (drop_bit 2 b0)"
    "m (src + 1) = btoa ! unat (push_bit 4 (b0 AND 3) OR drop_bit 4 b1)"
    "m (src + 2) = btoa ! unat (push_bit 2 (b1 AND 15))" "m (src + 3) = pad"
    using assms unfolding enc2_def append.simps mem_read_4_eq by blast+
  have loop: "base64_decode_loop (src + 4) m src dst = Some (m, src, dst)"
    using eqs(4) by (intro base64_decode_last) simp
  have lt: "src < src + 4" by simp
  have "push_bit 2 (b1 AND 15) \<noteq> 0x40"
    by (rule notI, drule arg_cong [where f = unat]) (use sextets(6) [of b1] in simp)
  with loop lt show ?thesis
    by (simp only: uo_base64_decode_def Let_def option.case prod.case if_True eqs
        atob_btoa(1) [OF sextets(1)] atob_btoa(1) [OF sextets(2)] atob_btoa(1) [OF sextets(6)]
        octets(1) octets(5) simp_thms)
qed

lemma base64_decode_last_1:
  assumes "mem_read m src 4 = enc1 btoa b0 @ [pad, pad]"
  shows "uo_base64_decode m dst src 4 = Some (m(dst := b0), dst + 1)"
proof -
  have eqs: "m src = btoa ! unat (drop_bit 2 b0)"
    "m (src + 1) = btoa ! unat (push_bit 4 (b0 AND 3))"
    "m (src + 2) = pad"
    using assms unfolding enc1_def append.simps mem_read_4_eq by blast+
  have loop: "base64_decode_loop (src + 4) m src dst = Some (m, src, dst)"
    using eqs(3) by (intro base64_decode_last) simp
  have lt: "src < src + 4" by simp
  from loop lt show ?thesis
    by (simp only: uo_base64_decode_def Let_def option.case prod.case if_True if_False eqs
        atob_btoa(1) [OF sextets(1)] atob_btoa(1) [OF sextets(5)] atob_pad
        octets(4) simp_thms)
qed

lemma base64_decode_correct:
  assumes "mem_read m src n = b64 bs" and "length bs mod 3 \<noteq> 0" and "decode_safe dst src n"
  shows "\<exists>m'. uo_base64_decode m dst src n = Some (m', dst + length bs)
       \<and> mem_read m' dst (length bs) = bs \<and> same_outside dst (length bs) m m'"
  using assms
proof (induction bs arbitrary: m src n dst rule: b64.induct)
  case (1 b0 b1 b2 bs)
  define k where "k = length (b64 bs)"
  have n: "n = 4 + k"
    using arg_cong [OF "1.prems"(1), of length] by (simp add: k_def)
  have "bs \<noteq> []" and bs: "length bs mod 3 \<noteq> 0" using "1.prems"(2) by (auto simp: mod_Suc split: if_splits)
  then have k: "0 < k" by (cases bs rule: b64.cases) (simp_all add: k_def)
  let ?m1 = "m(dst := b0, dst + 1 := b1, dst + 2 := b2)"
  have rd: "mem_read m src 4 = enc3 btoa b0 b1 b2" "mem_read m (src + 4) k = b64 bs"
    using "1.prems"(1) by (simp_all add: n mem_read_add append_eq_append_conv)
  have "mem_read ?m1 (src + 4) k = b64 bs"
    using "1.prems"(3) by (simp only: n mem_read_after_group rd(2))
  moreover have "decode_safe (dst + 3) (src + 4) k"
    using "1.prems"(3) by (auto simp: decode_safe_def n)
  ultimately obtain m' where
    "uo_base64_decode ?m1 (dst + 3) (src + 4) k = Some (m', dst + 3 + length bs)"
    and IH: "mem_read m' (dst + 3) (length bs) = bs" "same_outside (dst + 3) (length bs) ?m1 m'"
    using "1.IH" [OF _ bs] by blast
  moreover have "uo_base64_decode m dst src n = uo_base64_decode ?m1 (dst + 3) (src + 4) k"
    using base64_decode_step [of n m src dst] k
    by (simp add: n decode_group_enc3_padded [OF rd(1)])
  ultimately show ?case
    using mem_read_group_result [OF IH(2,1)] by (simp add: numeral_3_eq_3)
next
  case (2 b0 b1)
  have n: "n = 4" using arg_cong [OF "2.prems"(1), of length] by simp
  have "uo_base64_decode m dst src n = Some (m(dst := b0, dst + 1 := b1), dst + 2)"
    using base64_decode_last_2 [of m src b0 b1 dst] "2.prems"(1) by (simp only: n b64.simps)
  then show ?case by (simp add: same_outside_def mem_read_Suc)
next
  case (3 b0)
  have n: "n = 4" using arg_cong [OF "3.prems"(1), of length] by simp
  have "uo_base64_decode m dst src n = Some (m(dst := b0), dst + 1)"
    using base64_decode_last_1 [of m src b0 dst] "3.prems"(1) by (simp only: n b64.simps)
  then show ?case by (simp add: same_outside_def mem_read_Suc)
qed simp

section \<open>Properties\<close>

text \<open>
  C13: encoding to base64url and decoding again gives back the bytes of the source, also
  when the encoder writes over its own source and the decoder over its own input, and the
  decoder returns the end of what it stored.
\<close>

theorem base64url_roundtrip:
  assumes "n < 2 ^ 62" and "encode_safe dst src (length (b64url (mem_read m src n)))"
    and "decode_safe out dst (length (b64url (mem_read m src n)))"
  shows "case uo_base64url_encode m dst src n of (m1, fin) \<Rightarrow>
         case uo_base64url_decode m1 out dst (fin - dst) of (m2, fin2) \<Rightarrow>
           fin2 = out + n \<and> mem_read m2 out n = mem_read m src n"
proof -
  obtain m1 fin where e: "uo_base64url_encode m dst src n = (m1, fin)" by fastforce
  obtain m2 fin2 where d: "uo_base64url_decode m1 out dst (fin - dst) = (m2, fin2)" by fastforce
  note enc = base64url_encode_correct [OF assms(1,2) e]
  then have "mem_read m1 dst (fin - dst) = b64url (mem_read m src n)" by simp
  moreover have "decode_safe out dst (fin - dst)" using enc assms(3) by simp
  ultimately show ?thesis
    using base64url_decode_correct [OF _ _ d, of "mem_read m src n"] by (simp add: e d)
qed

theorem base64url_roundtrip_witness:
  "case uo_base64url_encode of_nat 0 0 5 of (m1, fin) \<Rightarrow>
   case uo_base64url_decode m1 0 0 fin of (m2, fin2) \<Rightarrow> fin2 = 5 \<and> mem_read m2 0 5 = [0, 1, 2, 3, 4]"
proof -
  have "mem_read of_nat 0 5 = [0, 1, 2, 3, 4]" by (simp add: mem_read_def eval_nat_numeral)
  then show ?thesis
    using base64url_roundtrip [of 5 0 0 of_nat 0] by (simp add: encode_safe_def decode_safe_def)
qed

text \<open>
  The padded encoder stores the RFC 4648 encoding of the bytes the source held on
  entry, of the length \<^verbatim>\<open>uo_base64_len\<close> announces, also in place, and touches nothing else.
\<close>

theorem base64_encode_rfc4648:
  assumes "n < 2 ^ 62" and "encode_safe dst src (unat (uo_base64_len (of_nat n)))"
  shows "case uo_base64_encode m dst src n of (m', fin) \<Rightarrow>
           fin = dst + unat (uo_base64_len (of_nat n))
         \<and> mem_read m' dst (unat (uo_base64_len (of_nat n))) = b64 (mem_read m src n)
         \<and> same_outside dst (unat (uo_base64_len (of_nat n))) m m'"
proof -
  have len: "unat (uo_base64_len (of_nat n)) = length (b64 (mem_read m src n))"
    using uo_base64_len_nat [OF assms(1)] by (simp add: length_b64)
  obtain m' fin where e: "uo_base64_encode m dst src n = (m', fin)" by fastforce
  from base64_encode_correct [OF assms(1) _ e] assms(2) show ?thesis by (simp add: len e)
qed

theorem base64_encode_rfc4648_witness:
  "case uo_base64_encode of_nat 0 0 5 of (m', fin) \<Rightarrow> fin = 8 \<and> mem_read m' 0 8 = b64 [0, 1, 2, 3, 4]"
proof -
  have "mem_read of_nat 0 5 = [0, 1, 2, 3, 4]" by (simp add: mem_read_def eval_nat_numeral)
  moreover have "unat (uo_base64_len (of_nat 5)) = 8" using uo_base64_len_nat [of 5] by simp
  ultimately show ?thesis
    using base64_encode_rfc4648 [of 5 0 0 of_nat] by (auto simp: encode_safe_def)
qed

text \<open>
  C26: \<^verbatim>\<open>uo_base64_decode\<close> terminates and inverts the padded encoding of every byte string
  whose length is not a multiple of three, also in place.
\<close>

theorem base64_decode_inverts:
  assumes "mem_read m src n = b64 bs" and "length bs mod 3 \<noteq> 0" and "decode_safe dst src n"
  shows "\<exists>m'. uo_base64_decode m dst src n = Some (m', dst + length bs)
       \<and> mem_read m' dst (length bs) = bs \<and> same_outside dst (length bs) m m'"
  using assms by (rule base64_decode_correct)

theorem base64_decode_inverts_witness:
  "\<exists>m'. uo_base64_decode (\<lambda>i. b64 [7] ! i) 0 0 4 = Some (m', 1)
       \<and> mem_read m' 0 1 = [7] \<and> same_outside 0 1 (\<lambda>i. b64 [7] ! i) m'"
proof -
  have "mem_read (\<lambda>i. b64 [7] ! i) 0 (length (b64 [7])) = b64 [7]"
    by (rule nth_equalityI) auto
  moreover have "length (b64 [7]) = 4" by (simp add: length_b64)
  ultimately show ?thesis
    using base64_decode_inverts [of "\<lambda>i. b64 [7] ! i" 0 4 "[7]" 0]
    by (simp add: decode_safe_def)
qed

text \<open>
  When the encoded length is a multiple of four without padding, the loop of
  \<^verbatim>\<open>uo_base64_decode\<close> goes on beyond the end of its input: given an empty input that is
  followed in memory by four characters that are not padding, it stores three bytes at the
  destination.
\<close>

theorem base64_decode_overrun:
  assumes "m (src + 2) \<noteq> pad" and "m (src + 3) \<noteq> pad" and "m (src + 6) = pad"
    and "dst + 3 \<le> src"
  shows "uo_base64_decode m dst src 0 = Some (decode_group atob m src dst, dst + 3)"
proof -
  have "src + 4 + 2 = src + 6" by simp
  with assms have "decode_group atob m src dst (src + 4 + 2) = pad"
    by (simp only: decode_group_def Let_def) (simp add: add.commute)
  then have "base64_decode_loop src (decode_group atob m src dst) (src + 4) (dst + 3)
      = Some (decode_group atob m src dst, src + 4, dst + 3)"
    by (subst base64_decode_loop.simps) (simp only: simp_thms if_False not_less le_add1, simp)
  then have "base64_decode_loop src m src dst = Some (decode_group atob m src dst, src + 4, dst + 3)"
    using assms by (subst base64_decode_loop.simps) simp
  then show ?thesis by (simp add: uo_base64_decode_def)
qed

theorem base64_decode_overrun_witness:
  "uo_base64_decode ((\<lambda>_. of_char CHR ''A'')(10 := pad)) 0 4 0
     = Some (decode_group atob ((\<lambda>_. of_char CHR ''A'')(10 := pad)) 4 0, 3)"
  using base64_decode_overrun [of "(\<lambda>_. of_char CHR ''A'')(10 := pad)" 4 0] by (simp add: pad_def)

end
