(* ===== verification/CString.thy ===== *)
theory CString
  imports Prelude "HOL-Library.Sublist"
begin

text \<open>
  The parts of the C standard library that the text-handling components call. A C string
  is the list of its characters before the terminating \<^verbatim>\<open>NUL\<close>; a pointer into a string
  is an offset, and the offset \<^term>\<open>length s\<close> points at the terminator. \<^verbatim>\<open>NULL\<close> is
  \<^term>\<open>None\<close>. Character classes are those of the C locale.
\<close>

abbreviation NUL :: char where
  "NUL \<equiv> CHR 0x00"

text \<open>\<open>chr_at s i\<close> is the character a pointer at offset \<open>i \<le> length s\<close> reads.\<close>

definition chr_at :: "string \<Rightarrow> nat \<Rightarrow> char" where
  "chr_at s i = (if i < length s then s ! i else NUL)"

definition no_nul :: "string \<Rightarrow> bool" where
  "no_nul s \<longleftrightarrow> NUL \<notin> set s"

lemma chr_at_nth [simp]: "i < length s \<Longrightarrow> chr_at s i = s ! i"
  by (simp add: chr_at_def)

lemma chr_at_end [simp]: "length s \<le> i \<Longrightarrow> chr_at s i = NUL"
  by (simp add: chr_at_def)

section \<open>Character classes\<close>

definition isspace :: "char \<Rightarrow> bool" where
  "isspace c \<longleftrightarrow> c \<in> {CHR '' '', CHR 0x09, CHR 0x0A, CHR 0x0B, CHR 0x0C, CHR 0x0D}"

definition isdigit :: "char \<Rightarrow> bool" where
  "isdigit c \<longleftrightarrow> 48 \<le> (of_char c :: nat) \<and> (of_char c :: nat) \<le> 57"

definition isxdigit :: "char \<Rightarrow> bool" where
  "isxdigit c \<longleftrightarrow> isdigit c
     \<or> 65 \<le> (of_char c :: nat) \<and> (of_char c :: nat) \<le> 70
     \<or> 97 \<le> (of_char c :: nat) \<and> (of_char c :: nat) \<le> 102"

definition iscntrl :: "char \<Rightarrow> bool" where
  "iscntrl c \<longleftrightarrow> (of_char c :: nat) < 32 \<or> (of_char c :: nat) = 127"

definition tolower :: "char \<Rightarrow> char" where
  "tolower c = (let n = of_char c :: nat in
     if 65 \<le> n \<and> n \<le> 90 then char_of (n + 32) else c)"

lemma isspace_not_NUL [simp]: "\<not> isspace NUL"
  by (simp add: isspace_def)

lemma isdigit_not_NUL [simp]: "\<not> isdigit NUL"
  by (simp add: isdigit_def)

section \<open>Searching\<close>

text \<open>
  \<open>find_from P s i\<close> is the least offset \<open>j \<ge> i\<close> whose character satisfies \<open>P\<close>;
  \<^verbatim>\<open>strchr\<close> of a non-\<^verbatim>\<open>NUL\<close> character is the case of an equality.
\<close>

fun find_idx :: "('a \<Rightarrow> bool) \<Rightarrow> 'a list \<Rightarrow> nat option" where
  "find_idx P [] = None"
| "find_idx P (x # xs) = (if P x then Some 0 else map_option Suc (find_idx P xs))"

definition strchr :: "string \<Rightarrow> nat \<Rightarrow> char \<Rightarrow> nat option" where
  "strchr s i c = map_option (\<lambda>j. i + j) (find_idx (\<lambda>x. x = c) (drop i s))"

lemma find_idx_None: "find_idx P xs = None \<longleftrightarrow> (\<forall>x \<in> set xs. \<not> P x)"
  by (induction xs) auto

lemma find_idx_Some:
  "find_idx P xs = Some i \<longleftrightarrow> i < length xs \<and> P (xs ! i) \<and> (\<forall>j < i. \<not> P (xs ! j))"
proof (induction xs arbitrary: i)
  case Nil
  then show ?case by simp
next
  case (Cons x xs)
  show ?case
    by (cases i) (auto simp: Cons.IH less_Suc_eq_0_disj nth_Cons split: nat.splits)
qed

lemma find_idx_append_first:
  "\<forall>x \<in> set xs. \<not> P x \<Longrightarrow> P y \<Longrightarrow> find_idx P (xs @ y # ys) = Some (length xs)"
  by (induction xs) auto

lemma find_idx_skip:
  "\<forall>x \<in> set xs. \<not> P x \<Longrightarrow> find_idx P (xs @ ys) = map_option (\<lambda>n. length xs + n) (find_idx P ys)"
  by (cases "find_idx P ys"; induction xs) auto

lemma strchr_skip:
  assumes "c \<notin> set xs"
  shows "strchr (pre @ xs @ post) (length pre) c = strchr (pre @ xs @ post) (length pre + length xs) c"
proof -
  have "find_idx (\<lambda>x. x = c) (xs @ post) = map_option (\<lambda>n. length xs + n) (find_idx (\<lambda>x. x = c) post)"
    using assms by (intro find_idx_skip) auto
  then show ?thesis by (simp add: strchr_def option.map_comp comp_def add.assoc)
qed

lemma strchr_here: "strchr (pre @ c # post) (length pre) c = Some (length pre)"
  by (simp add: strchr_def)

lemma strchr_None: "strchr s i c = None \<longleftrightarrow> c \<notin> set (drop i s)"
  by (auto simp: strchr_def find_idx_None)

lemma strchr_Some:
  "strchr s i c = Some j \<longleftrightarrow>
     i \<le> j \<and> j < length s \<and> s ! j = c \<and> (\<forall>k. i \<le> k \<and> k < j \<longrightarrow> s ! k \<noteq> c)"
proof
  assume "strchr s i c = Some j"
  then obtain d where d: "find_idx (\<lambda>x. x = c) (drop i s) = Some d" and j: "j = i + d"
    by (auto simp: strchr_def)
  from d have *: "d < length s - i" "drop i s ! d = c" "\<forall>k < d. drop i s ! k \<noteq> c"
    by (auto simp: find_idx_Some)
  have "s ! k \<noteq> c" if "i \<le> k" "k < j" for k
    using *(3) [rule_format, of "k - i"] that j *(1) by auto
  with * j show "i \<le> j \<and> j < length s \<and> s ! j = c \<and> (\<forall>k. i \<le> k \<and> k < j \<longrightarrow> s ! k \<noteq> c)"
    by auto
next
  assume a: "i \<le> j \<and> j < length s \<and> s ! j = c \<and> (\<forall>k. i \<le> k \<and> k < j \<longrightarrow> s ! k \<noteq> c)"
  then have "find_idx (\<lambda>x. x = c) (drop i s) = Some (j - i)"
    by (auto simp: find_idx_Some)
  with a show "strchr s i c = Some j"
    by (simp add: strchr_def)
qed

lemma strchr_append:
  "i \<le> length xs \<Longrightarrow> c \<notin> set (drop i xs) \<Longrightarrow> strchr (xs @ c # ys) i c = Some (length xs)"
  by (auto simp: strchr_Some nth_append in_set_conv_nth)
     (metis diff_less_mono le_add_diff_inverse)

lemma strchr_bound: "strchr s i c = Some j \<Longrightarrow> i \<le> j \<and> j < length s"
  by (simp add: strchr_Some)

section \<open>Comparison\<close>

text \<open>
  \<^verbatim>\<open>strcmp\<close> compares as unsigned characters; only the sign of the result is specified.
  A list that ends is the string whose terminator is reached.
\<close>

fun strcmp :: "string \<Rightarrow> string \<Rightarrow> int" where
  "strcmp [] [] = 0"
| "strcmp [] (b # bs) = -1"
| "strcmp (a # as) [] = 1"
| "strcmp (a # as) (b # bs) =
     (if a = b then strcmp as bs else if (of_char a :: nat) < of_char b then -1 else 1)"

lemma strcmp_eq_0 [simp]: "strcmp s t = 0 \<longleftrightarrow> s = t"
  by (induction s t rule: strcmp.induct) auto

section \<open>Text with terminators inside\<close>

text \<open>What a string function sees of an array of characters: the part before the first \<^verbatim>\<open>NUL\<close>.\<close>

definition cstr :: "string \<Rightarrow> string" where
  "cstr s = takeWhile (\<lambda>c. c \<noteq> NUL) s"

lemma cstr_no_nul: "no_nul s \<Longrightarrow> cstr s = s"
  by (simp add: cstr_def no_nul_def takeWhile_eq_all_conv) blast

lemma cstr_append: "no_nul s \<Longrightarrow> cstr (s @ t) = s @ cstr t"
  unfolding cstr_def no_nul_def by (rule takeWhile_append2) auto

fun strstr :: "string \<Rightarrow> string \<Rightarrow> nat option" where
  "strstr [] needle = (if needle = [] then Some 0 else None)"
| "strstr (c # s) needle = (if prefix needle (c # s) then Some 0 else map_option Suc (strstr s needle))"

definition strrchr :: "string \<Rightarrow> char \<Rightarrow> nat option" where
  "strrchr s c = map_option (\<lambda>j. length s - 1 - j) (find_idx (\<lambda>x. x = c) (rev s))"

lemma strrchr_last: "c \<notin> set t \<Longrightarrow> strrchr (s @ c # t) c = Some (length s)"
proof -
  assume "c \<notin> set t"
  then have "find_idx (\<lambda>x. x = c) (rev t @ c # rev s) = Some (length (rev t))"
    by (intro find_idx_append_first) auto
  then show ?thesis by (simp add: strrchr_def)
qed

text \<open>
  \<^verbatim>\<open>strtok_r\<close>: the next token and the text from the delimiter that ends it. That delimiter is
  overwritten; the next call starts behind it.
\<close>

definition strtok_r :: "string \<Rightarrow> string \<Rightarrow> (string \<times> string) option" where
  "strtok_r s delims =
     (let r = dropWhile (\<lambda>c. c \<in> set delims) s
      in if r = [] then None
         else Some (takeWhile (\<lambda>c. c \<notin> set delims) r, dropWhile (\<lambda>c. c \<notin> set delims) r))"

lemma strtok_r_shorter: "strtok_r s delims = Some (tok, rest) \<Longrightarrow> length rest < length s"
proof -
  assume a: "strtok_r s delims = Some (tok, rest)"
  define r where "r = dropWhile (\<lambda>c. c \<in> set delims) s"
  have r: "r \<noteq> []" "rest = dropWhile (\<lambda>c. c \<notin> set delims) r"
    using a by (auto simp: strtok_r_def Let_def r_def split: if_splits)
  then obtain c r' where c: "r = c # r'" "c \<notin> set delims"
    using hd_dropWhile [of "\<lambda>c. c \<in> set delims" s] by (cases r) (auto simp: r_def)
  have "length rest \<le> length r'" using r(2) c by (simp add: length_dropWhile_le)
  moreover have "length r \<le> length s" by (simp add: r_def length_dropWhile_le)
  ultimately show ?thesis using c(1) by simp
qed

lemma strtok_r_token:
  assumes "set lead \<subseteq> set delims" and "set tok \<inter> set delims = {}" and "tok \<noteq> []"
    and "rest = [] \<or> hd rest \<in> set delims"
  shows "strtok_r (lead @ tok @ rest) delims = Some (tok, rest)"
proof -
  have "dropWhile (\<lambda>c. c \<in> set delims) (lead @ tok @ rest) = dropWhile (\<lambda>c. c \<in> set delims) (tok @ rest)"
    by (rule dropWhile_append2) (use assms(1) in blast)
  also have "\<dots> = tok @ rest" using assms(2,3) by (cases tok) auto
  finally have "dropWhile (\<lambda>c. c \<in> set delims) (lead @ tok @ rest) = tok @ rest" .
  moreover have "takeWhile (\<lambda>c. c \<notin> set delims) (tok @ rest) = tok @ takeWhile (\<lambda>c. c \<notin> set delims) rest"
    by (rule takeWhile_append2) (use assms(2) in blast)
  moreover have "dropWhile (\<lambda>c. c \<notin> set delims) (tok @ rest) = dropWhile (\<lambda>c. c \<notin> set delims) rest"
    by (rule dropWhile_append2) (use assms(2) in blast)
  moreover have "takeWhile (\<lambda>c. c \<notin> set delims) rest = []" "dropWhile (\<lambda>c. c \<notin> set delims) rest = rest"
    using assms(4) by (cases rest; simp)+
  ultimately show ?thesis using assms(3) by (simp add: strtok_r_def)
qed

section \<open>Decimal numbers\<close>

text \<open>Output as \<^verbatim>\<open>sprintf\<close> does it for integer formats.\<close>

fun decimal :: "nat \<Rightarrow> string" where
  "decimal n = (if n < 10 then [char_of (48 + n)] else decimal (n div 10) @ [char_of (48 + n mod 10)])"

declare decimal.simps [simp del]

lemma isdigit_char_of: "n < 10 \<Longrightarrow> isdigit (char_of (48 + n))" for n :: nat
  by (simp add: isdigit_def of_char_of)

lemma decimal_digits: "list_all isdigit (decimal n) \<and> decimal n \<noteq> []"
  by (induction n rule: decimal.induct) (subst (1 2) decimal.simps, auto simp: isdigit_char_of)

text \<open>The value of a sequence of digits.\<close>

definition digit_value :: "char \<Rightarrow> nat" where
  "digit_value c = of_char c - 48"

definition digits_value :: "string \<Rightarrow> nat" where
  "digits_value ds = foldl (\<lambda>n d. 10 * n + digit_value d) 0 ds"

lemma length_decimal: "n < 10 ^ Suc k \<Longrightarrow> length (decimal n) \<le> Suc k"
proof (induction k arbitrary: n)
  case 0
  then show ?case by (simp add: decimal.simps)
next
  case (Suc k)
  then have "n div 10 < 10 ^ Suc k" by (simp add: less_mult_imp_div_less algebra_simps)
  with Suc.IH show ?case by (subst decimal.simps) auto
qed

lemma digits_value_decimal: "digits_value (decimal n) = n"
proof (induction n rule: decimal.induct)
  case (1 n)
  show ?case
  proof (cases "n < 10")
    case True
    then show ?thesis by (subst decimal.simps) (simp add: digits_value_def digit_value_def of_char_of)
  next
    case False
    then have "digits_value (decimal n) = 10 * digits_value (decimal (n div 10)) + n mod 10"
      by (subst decimal.simps) (simp add: digits_value_def digit_value_def of_char_of)
    with 1 False show ?thesis by simp
  qed
qed

text \<open>
  The prefix that \<^verbatim>\<open>strtoull\<close> and \<^verbatim>\<open>sscanf\<close> with \<^verbatim>\<open>%d\<close> read: white space, an optional sign, digits.
  \<^term>\<open>None\<close> when there is no digit; otherwise the sign and the value.
\<close>

definition scan_decimal :: "string \<Rightarrow> (bool \<times> nat) option" where
  "scan_decimal s =
     (let s = dropWhile isspace s;
          neg = (s \<noteq> [] \<and> hd s = CHR ''-'');
          s = (if s \<noteq> [] \<and> hd s \<in> {CHR ''+'', CHR ''-''} then tl s else s);
          ds = takeWhile isdigit s
      in if ds = [] then None else Some (neg, digits_value ds))"

lemma scan_decimal_digits:
  assumes "list_all isdigit ds" and "ds \<noteq> []" and "rest = [] \<or> \<not> isdigit (hd rest)"
  shows "scan_decimal (ds @ rest) = Some (False, digits_value ds)"
proof -
  have d: "\<not> isspace (hd ds)" "hd ds \<noteq> CHR ''+''" "hd ds \<noteq> CHR ''-''"
    using assms(1,2) by (cases ds; auto simp: isdigit_def isspace_def)+
  have "takeWhile isdigit (ds @ rest) = ds"
    using assms(1,3) by (cases rest) (auto simp: takeWhile_append2 list_all_iff)
  moreover have "dropWhile isspace (ds @ rest) = ds @ rest" using d(1) assms(2) by (cases ds) auto
  ultimately show ?thesis using d(2,3) assms(2) by (simp add: scan_decimal_def Let_def)
qed

lemma scan_decimal_decimal: "rest = [] \<or> \<not> isdigit (hd rest) \<Longrightarrow> scan_decimal (decimal n @ rest) = Some (False, n)"
  using scan_decimal_digits [of "decimal n" rest] decimal_digits [of n] by (simp add: digits_value_decimal)

end
