(* ===== verification/Util.thy ===== *)
theory Util
  imports CString
begin

text \<open>
  The helpers of \<^verbatim>\<open>uo_util/src/include/uo_util/uo_util.h\<close>: rounding up to a power of
  two, the djb2 string hash, string comparison and search, UTF-8 output, and URI
  decoding.
\<close>

section \<open>Rounding up to a power of two\<close>

definition uo_ceil_pow2 :: "64 word \<Rightarrow> 64 word" where
  "uo_ceil_pow2 n =
     (let n = n - 1;
          n = n OR drop_bit 1 n;
          n = n OR drop_bit 2 n;
          n = n OR drop_bit 4 n;
          n = n OR drop_bit 8 n;
          n = n OR drop_bit 16 n;
          n = n OR drop_bit 32 n
      in n + 1)"

text \<open>
  After the step that shifts by \<open>k\<close>, a bit is set when one of the \<open>2 * k\<close> bits of the
  argument that start there is set.
\<close>

definition smeared :: "nat \<Rightarrow> 64 word \<Rightarrow> 64 word \<Rightarrow> bool" where
  "smeared k x y \<longleftrightarrow> (\<forall>j. bit y j \<longleftrightarrow> (\<exists>i < k. bit x (j + i)))"

lemma smeared_step:
  assumes "smeared k x y"
  shows "smeared (k + k) x (y OR drop_bit k y)"
proof -
  have "bit (y OR drop_bit k y) j \<longleftrightarrow> (\<exists>i < k + k. bit x (j + i))" for j
  proof -
    have "bit (y OR drop_bit k y) j \<longleftrightarrow> bit y j \<or> bit y (k + j)"
      by (simp add: bit_or_iff bit_drop_bit_eq)
    also have "\<dots> \<longleftrightarrow> (\<exists>i < k. bit x (j + i)) \<or> (\<exists>i < k. bit x (k + j + i))"
      using assms by (simp add: smeared_def)
    also have "\<dots> \<longleftrightarrow> (\<exists>i < k + k. bit x (j + i))"
    proof -
      have "\<exists>i < k + k. bit x (j + i)" if "i < k" "bit x (k + j + i)" for i
        using that by (intro exI [of _ "k + i"]) (simp add: ac_simps)
      moreover have "(\<exists>i < k. bit x (j + i)) \<or> (\<exists>i < k. bit x (k + j + i))"
        if "i < k + k" "bit x (j + i)" for i
      proof (cases "i < k")
        case False
        with that show ?thesis
          by (intro disjI2 exI [of _ "i - k"]) (auto simp: ac_simps)
      qed (use that in auto)
      ultimately show ?thesis by (metis trans_less_add1)
    qed
    finally show ?thesis .
  qed
  then show ?thesis by (simp add: smeared_def)
qed

lemma uo_ceil_pow2_smeared: "\<exists>y. uo_ceil_pow2 n = y + 1 \<and> smeared 64 (n - 1) y"
proof -
  define x where "x = n - 1"
  define y1 where "y1 = x OR drop_bit 1 x"
  define y2 where "y2 = y1 OR drop_bit 2 y1"
  define y3 where "y3 = y2 OR drop_bit 4 y2"
  define y4 where "y4 = y3 OR drop_bit 8 y3"
  define y5 where "y5 = y4 OR drop_bit 16 y4"
  define y6 where "y6 = y5 OR drop_bit 32 y5"
  have "smeared 1 x x" by (simp add: smeared_def)
  then have "smeared 2 x y1" using smeared_step [of 1 x x] by (simp add: y1_def numeral_2_eq_2)
  then have "smeared 4 x y2" using smeared_step [of 2 x y1] by (simp add: y2_def)
  then have "smeared 8 x y3" using smeared_step [of 4 x y2] by (simp add: y3_def)
  then have "smeared 16 x y4" using smeared_step [of 8 x y3] by (simp add: y4_def)
  then have "smeared 32 x y5" using smeared_step [of 16 x y4] by (simp add: y5_def)
  then have "smeared 64 x y6" using smeared_step [of 32 x y5] by (simp add: y6_def)
  moreover have "uo_ceil_pow2 n = y6 + 1"
    by (simp add: uo_ceil_pow2_def Let_def x_def y1_def y2_def y3_def y4_def y5_def y6_def)
  ultimately show ?thesis unfolding x_def by blast
qed

lemma smeared_mask:
  assumes "smeared 64 x y" and "2 ^ k \<le> unat x" and "unat x < 2 ^ Suc k"
  shows "y = mask (Suc k)"
proof (rule bit_word_eqI)
  fix j
  assume "j < LENGTH(64)"
  then have j: "j < 64" by simp
  have high: "bit x k"
  proof -
    have "unat x div 2 ^ k = 1"
      using assms(2,3) by (simp add: div_nat_eqI)
    then have "bit (unat x) k" by (simp add: bit_iff_odd)
    then show ?thesis by (simp add: bit_unsigned_iff)
  qed
  then have k: "k < 64" using bit_imp_le_length by fastforce
  have above: "\<not> bit x i" if "k < i" for i
    using assms(3) that by (intro not_bit_above [of x "Suc k"]) simp_all
  have "(\<exists>i < 64. bit x (j + i)) \<longleftrightarrow> j \<le> k"
  proof
    assume "\<exists>i < 64. bit x (j + i)"
    then show "j \<le> k" using above by (metis add_leE not_le)
  next
    assume "j \<le> k"
    with high k show "\<exists>i < 64. bit x (j + i)"
      by (intro exI [of _ "k - j"]) auto
  qed
  with assms(1) j show "bit y j \<longleftrightarrow> bit (mask (Suc k) :: 64 word) j"
    by (simp add: smeared_def bit_mask_iff less_Suc_eq_le)
qed

text \<open>
  A request between 1 and \<open>2 ^ 63\<close> is rounded up to the least power of two that is not
  below it. Outside that range the final increment wraps to 0.
\<close>

lemma uo_ceil_pow2_least:
  assumes "0 < n" and "n \<le> 2 ^ 63"
  obtains k where "k \<le> 63" "unat (uo_ceil_pow2 (of_nat n)) = 2 ^ k" "n \<le> 2 ^ k"
    "k = 0 \<or> 2 ^ (k - 1) < n"
proof (cases "n = 1")
  case True
  have "uo_ceil_pow2 1 = 1" by (simp add: uo_ceil_pow2_def)
  with True that [of 0] show ?thesis by simp
next
  case False
  with assms(1) have n1: "1 \<le> n - 1" by simp
  then obtain k where k: "2 ^ k \<le> n - 1" "n - 1 < 2 ^ (k + 1)"
    using ex_power_ivl1 [of 2 "n - 1"] by auto
  have x: "unat (of_nat n - 1 :: 64 word) = n - 1"
  proof -
    have "of_nat n - 1 = (of_nat (n - 1) :: 64 word)"
      using assms(1) by (simp add: of_nat_diff)
    then show ?thesis using assms(2) by (simp add: unat_of_nat)
  qed
  obtain y where y: "uo_ceil_pow2 (of_nat n) = y + 1" "smeared 64 (of_nat n - 1) y"
    using uo_ceil_pow2_smeared by blast
  have m: "y = mask (Suc k)"
    by (rule smeared_mask [OF y(2)]) (use k in \<open>simp_all only: x Suc_eq_plus1\<close>)
  have lt: "(2::nat) ^ k < 2 ^ 63" using k(1) assms by linarith
  have k63: "k < 63" by (rule power_less_imp_less_exp [OF _ lt]) simp
  have "y + 1 = 2 ^ Suc k" by (simp add: m mask_eq_exp_minus_1)
  moreover have "unat (2 ^ Suc k :: 64 word) = 2 ^ Suc k"
    using k63 by (intro unat_exp) simp
  ultimately have "unat (uo_ceil_pow2 (of_nat n)) = 2 ^ Suc k" by (simp add: y(1))
  moreover have "n \<le> 2 ^ Suc k" "2 ^ k < n" using k n1 by auto
  ultimately show ?thesis using that [of "Suc k"] k63 by simp
qed

lemma uo_ceil_pow2_zero: "uo_ceil_pow2 0 = 0"
  by (simp add: uo_ceil_pow2_def)

section \<open>String hash and comparison\<close>

fun djb2_loop :: "64 word \<Rightarrow> string \<Rightarrow> 64 word" where
  "djb2_loop hash [] = hash"
| "djb2_loop hash (c # str) = djb2_loop ((push_bit 5 hash + hash) + of_char c) str"

definition uo_strhash_djb2 :: "string \<Rightarrow> 64 word" where
  "uo_strhash_djb2 str = djb2_loop 5381 str"

lemma djb2_loop_foldl: "djb2_loop h s = foldl (\<lambda>h c. 33 * h + of_char c) h s"
proof (induction s arbitrary: h)
  case (Cons c s)
  have "push_bit 5 h + h = 33 * h" by (simp add: push_bit_eq_mult algebra_simps)
  then show ?case by (simp add: Cons.IH)
qed simp

definition uo_streq :: "string \<Rightarrow> string \<Rightarrow> bool" where
  "uo_streq str1 str2 \<longleftrightarrow> strcmp str1 str2 = 0"

lemma uo_streq_iff [simp]: "uo_streq s t \<longleftrightarrow> s = t"
  by (simp add: uo_streq_def)

text \<open>
  \<open>uo_strdiff str1 str2\<close> is the offset in \<open>str1\<close> of the first character that
  differs from \<open>str2\<close>, or \<^verbatim>\<open>NULL\<close> when the strings are equal. The offset may be that of
  the terminator of \<open>str1\<close>.
\<close>

fun uo_strdiff :: "string \<Rightarrow> string \<Rightarrow> nat option" where
  "uo_strdiff [] [] = None"
| "uo_strdiff [] (b # bs) = Some 0"
| "uo_strdiff (a # as) [] = Some 0"
| "uo_strdiff (a # as) (b # bs) =
     (if a = b then map_option Suc (uo_strdiff as bs) else Some 0)"

definition uo_isprefix :: "string \<Rightarrow> string \<Rightarrow> bool" where
  "uo_isprefix pre str =
     (case uo_strdiff pre str of None \<Rightarrow> True | Some i \<Rightarrow> chr_at pre i = NUL)"

lemma uo_strdiff_None [simp]: "uo_strdiff s t = None \<longleftrightarrow> s = t"
  by (induction s t rule: uo_strdiff.induct) auto

lemma uo_strdiff_Some:
  "uo_strdiff s t = Some i \<longleftrightarrow>
     s \<noteq> t \<and> i \<le> length s \<and> i \<le> length t \<and> take i s = take i t
     \<and> (i < length s \<and> i < length t \<longrightarrow> s ! i \<noteq> t ! i)
     \<and> (i = length s \<or> i = length t \<or> s ! i \<noteq> t ! i)"
proof (induction s t arbitrary: i rule: uo_strdiff.induct)
  case (4 a as b bs)
  show ?case
    by (cases i) (auto simp: "4.IH")
qed (auto simp: Suc_le_eq)

lemma uo_strdiff_append:
  "uo_strdiff (p @ s) (p @ t) = map_option ((+) (length p)) (uo_strdiff s t)"
  by (induction p) (auto simp: option.map_comp option.map_ident comp_def)

section \<open>The scratch string\<close>

text \<open>
  \<^verbatim>\<open>uo_temp_substr\<close> and \<^verbatim>\<open>uo_temp_strcat\<close> build their result in a thread-local buffer of
  \<^verbatim>\<open>UO_TEMPSTR_LEN\<close> bytes at address \<open>tempstr\<close>. \<^verbatim>\<open>strlen\<close> runs until it meets a NUL byte.
\<close>

partial_function (option) strlen_from :: "memory \<Rightarrow> nat \<Rightarrow> nat \<Rightarrow> nat option" where
  "strlen_from m p n = (if m (p + n) = 0 then Some n else strlen_from m p (Suc n))"

definition UO_TEMPSTR_LEN :: nat where
  "UO_TEMPSTR_LEN = 0x1000"

definition uo_temp_substr :: "nat \<Rightarrow> memory \<Rightarrow> nat \<Rightarrow> nat \<Rightarrow> memory cres" where
  "uo_temp_substr tempstr m str len =
     (if len < UO_TEMPSTR_LEN then Inr (memmove (m(tempstr + len := 0)) tempstr str len)
      else Inl AssertFailed)"

definition uo_temp_strcat :: "nat \<Rightarrow> memory \<Rightarrow> nat \<Rightarrow> nat \<Rightarrow> memory cres option" where
  "uo_temp_strcat tempstr m str1 str2 =
     (case (strlen_from m str1 0, strlen_from m str2 0) of
        (Some str1_len, Some str2_len) \<Rightarrow>
          let len = str1_len + str2_len in
          if len < UO_TEMPSTR_LEN then
            let m = m(tempstr + len := 0);
                m = memmove m (tempstr + str1_len) str2 str2_len
            in Some (Inr (if str1 = tempstr then m else memmove m tempstr str1 str1_len))
          else Some (Inl AssertFailed)
      | _ \<Rightarrow> None)"

text \<open>\<open>cstr_at m p s\<close>: the C string \<open>s\<close> with its terminator is stored at \<open>p\<close>.\<close>

definition cstr_at :: "memory \<Rightarrow> nat \<Rightarrow> byte list \<Rightarrow> bool" where
  "cstr_at m p s \<longleftrightarrow> mem_read m p (length s) = s \<and> m (p + length s) = 0 \<and> 0 \<notin> set s"

lemma strlen_from_cstr:
  assumes "cstr_at m p s" and "n \<le> length s"
  shows "strlen_from m p n = Some (length s)"
  using assms(2)
proof (induction "length s - n" arbitrary: n)
  case 0
  with assms(1) show ?case by (subst strlen_from.simps) (simp add: cstr_at_def)
next
  case (Suc d)
  then have n: "n < length s" by simp
  from assms(1) n have "m (p + n) = s ! n"
    by (metis cstr_at_def nth_mem_read)
  with assms(1) n have "m (p + n) \<noteq> 0"
    by (metis cstr_at_def nth_mem)
  with Suc n show ?case by (subst strlen_from.simps) simp
qed

lemma mem_read_eq_nth: "mem_read m p (length s) = s \<longleftrightarrow> (\<forall>i < length s. m (p + i) = s ! i)"
  by (auto simp: list_eq_iff_nth)

section \<open>Characters in strings\<close>

text \<open>
  \<^verbatim>\<open>uo_strchrnth\<close> starts one character before the string, so that every round first
  steps over the previous hit. \<open>strchrnth_loop s ch n i\<close> is the loop whose next search
  starts at offset \<open>i\<close>.
\<close>

fun strchrnth_loop :: "string \<Rightarrow> char \<Rightarrow> nat \<Rightarrow> nat \<Rightarrow> nat option" where
  "strchrnth_loop s ch 0 i = Some (i - 1)"
| "strchrnth_loop s ch (Suc n) i =
     (case strchr s i ch of None \<Rightarrow> None | Some j \<Rightarrow> strchrnth_loop s ch n (Suc j))"

definition uo_strchrnth :: "string \<Rightarrow> char \<Rightarrow> nat \<Rightarrow> nat option cres" where
  "uo_strchrnth s ch n =
     (if n = 0 then Inl AssertFailed else Inr (strchrnth_loop s ch n 0))"

fun chrfreq_loop :: "char \<Rightarrow> char \<Rightarrow> bool \<Rightarrow> 64 word \<Rightarrow> string \<Rightarrow> 64 word" where
  "chrfreq_loop chr esc_chr is_prev_esc i [] = i"
| "chrfreq_loop chr esc_chr is_prev_esc i (curr_chr # str) =
     chrfreq_loop chr esc_chr
       (\<not> is_prev_esc \<and> curr_chr = esc_chr)
       (if curr_chr = chr
        then i + (if \<not> is_prev_esc then 1 else if chr = esc_chr then - 1 else 0)
        else i)
       str"

definition uo_chrfreq :: "string \<Rightarrow> char \<Rightarrow> char \<Rightarrow> 64 word cres" where
  "uo_chrfreq str chr esc_chr =
     (if chr = NUL then Inl AssertFailed else Inr (chrfreq_loop chr esc_chr False 0 str))"

section \<open>UTF-8 output\<close>

text \<open>The bytes \<^verbatim>\<open>uo_utf8_append\<close> stores at its destination; \<^term>\<open>None\<close> for \<^verbatim>\<open>NULL\<close>.\<close>

definition uo_utf8_append :: "uint32_t \<Rightarrow> byte list option" where
  "uo_utf8_append codepoint =
     (if codepoint < 0x80 then Some [ucast (codepoint AND 0x7f)]
      else if codepoint < 0x800 then
        Some [ucast (0xc0 OR drop_bit 6 codepoint),
              ucast (0x80 OR (codepoint AND 0x3f))]
      else if codepoint < 0x10000 then
        Some [ucast (0xe0 OR drop_bit 12 codepoint),
              ucast (0x80 OR (drop_bit 6 codepoint AND 0x3f)),
              ucast (0x80 OR (codepoint AND 0x3f))]
      else if codepoint < 0x110000 then
        Some [ucast (0xf0 OR drop_bit 18 codepoint),
              ucast (0x80 OR (drop_bit 12 codepoint AND 0x3f)),
              ucast (0x80 OR (drop_bit 6 codepoint AND 0x3f)),
              ucast (0x80 OR (codepoint AND 0x3f))]
      else None)"

text \<open>The inverse direction, as the UTF-8 definition (RFC 3629) states it.\<close>

fun utf8_codepoint :: "byte list \<Rightarrow> uint32_t option" where
  "utf8_codepoint [a] = (if a AND 0x80 = 0 then Some (ucast a) else None)"
| "utf8_codepoint [a, b] =
     (if a AND 0xe0 = 0xc0 \<and> b AND 0xc0 = 0x80
      then Some (push_bit 6 (ucast a AND 0x1f) OR (ucast b AND 0x3f)) else None)"
| "utf8_codepoint [a, b, c] =
     (if a AND 0xf0 = 0xe0 \<and> b AND 0xc0 = 0x80 \<and> c AND 0xc0 = 0x80
      then Some (push_bit 12 (ucast a AND 0x0f) OR push_bit 6 (ucast b AND 0x3f)
                 OR (ucast c AND 0x3f)) else None)"
| "utf8_codepoint [a, b, c, d] =
     (if a AND 0xf8 = 0xf0 \<and> b AND 0xc0 = 0x80 \<and> c AND 0xc0 = 0x80 \<and> d AND 0xc0 = 0x80
      then Some (push_bit 18 (ucast a AND 0x07) OR push_bit 12 (ucast b AND 0x3f)
                 OR push_bit 6 (ucast c AND 0x3f) OR (ucast d AND 0x3f)) else None)"
| "utf8_codepoint _ = None"

lemmas codepoint_bits =
  not_bit_above_exp [where 'a = 32 and k = 7, simplified]
  not_bit_above_exp [where 'a = 32 and k = 11, simplified]
  not_bit_above_exp [where 'a = 32 and k = 16, simplified]
  not_bit_above_exp [where 'a = 32 and k = 21, simplified]

lemma utf8_codepoint_1:
  "cp < 0x80 \<Longrightarrow> utf8_codepoint [ucast (cp AND 0x7f)] = Some cp"
  by (simp add: word_bits bit_simps codepoint_bits)

lemma utf8_codepoint_2:
  "cp < 0x800 \<Longrightarrow>
   utf8_codepoint [ucast (0xc0 OR drop_bit 6 cp), ucast (0x80 OR (cp AND 0x3f))] = Some cp"
  by (simp add: word_bits bit_simps codepoint_bits)

lemma utf8_codepoint_3:
  "cp < 0x10000 \<Longrightarrow>
   utf8_codepoint [ucast (0xe0 OR drop_bit 12 cp), ucast (0x80 OR (drop_bit 6 cp AND 0x3f)),
     ucast (0x80 OR (cp AND 0x3f))] = Some cp"
  by (simp add: word_bits bit_simps codepoint_bits)

lemma utf8_codepoint_4:
  assumes "cp < 0x110000"
  shows "utf8_codepoint [ucast (0xf0 OR drop_bit 18 cp),
     ucast (0x80 OR (drop_bit 12 cp AND 0x3f)), ucast (0x80 OR (drop_bit 6 cp AND 0x3f)),
     ucast (0x80 OR (cp AND 0x3f))] = Some cp"
proof -
  have "cp < 0x200000" using assms by (simp add: order.strict_trans)
  then show ?thesis by (simp add: word_bits bit_simps codepoint_bits)
qed

lemmas utf8_codepoint_simps =
  utf8_codepoint_1 utf8_codepoint_2 utf8_codepoint_3 utf8_codepoint_4

section \<open>URI decoding\<close>

text \<open>
  The value of a hexadecimal digit as \<^verbatim>\<open>uo_uri_decode\<close> computes it on its two digits,
  and the loop on the source string \<open>s\<close> with \<^verbatim>\<open>src_end\<close> at offset \<open>n\<close>. The source may
  be longer than \<open>n\<close>; a read beyond its terminator is \<^const>\<open>OutOfBounds\<close>.
\<close>

definition uri_xval :: "char \<Rightarrow> nat" where
  "uri_xval c =
     (let a = of_char c;
          a = (if 97 \<le> a then a - 32 else a)
      in if 65 \<le> a then a - 55 else a - 48)"

function uri_decode_loop :: "string \<Rightarrow> nat \<Rightarrow> nat \<Rightarrow> string \<Rightarrow> string cres" where
  "uri_decode_loop s n i dst =
     (if i = n then Inr dst
      else if length s < i then Inl OutOfBounds
      else if chr_at s i = CHR ''+'' then uri_decode_loop s n (i + 1) (dst @ '' '')
      else if chr_at s i = CHR ''%''
        \<and> chr_at s (i + 1) \<noteq> NUL \<and> chr_at s (i + 2) \<noteq> NUL
        \<and> isxdigit (chr_at s (i + 1)) \<and> isxdigit (chr_at s (i + 2))
      then uri_decode_loop s n (i + 3)
        (dst @ [char_of (16 * uri_xval (chr_at s (i + 1)) + uri_xval (chr_at s (i + 2)))])
      else uri_decode_loop s n (i + 1) (dst @ [chr_at s i]))"
  by pat_completeness auto
termination
  by (relation "measure (\<lambda>(s, n, i, dst). Suc (length s) - i)") auto

declare uri_decode_loop.simps [simp del]

definition uo_uri_decode :: "string \<Rightarrow> nat \<Rightarrow> string cres" where
  "uo_uri_decode src src_len = uri_decode_loop src src_len 0 []"

text \<open>
  Called with the length of the whole string, as the file server calls it, the loop
  returns, never reads past the terminator, and stores at most as many characters as it
  reads.
\<close>

lemma uri_decode_loop_total:
  assumes "i \<le> length s"
  shows "\<exists>r. uri_decode_loop s (length s) i dst = Inr r
           \<and> length r \<le> length dst + (length s - i)"
  using assms
proof (induction s "length s" i dst rule: uri_decode_loop.induct)
  case (1 s i dst)
  show ?case
  proof (cases "i = length s")
    case True
    then show ?thesis by (simp add: uri_decode_loop.simps)
  next
    case False
    with "1.prems" have i: "i < length s" by simp
    let ?pct = "chr_at s i = CHR ''%''
        \<and> chr_at s (i + 1) \<noteq> NUL \<and> chr_at s (i + 2) \<noteq> NUL
        \<and> isxdigit (chr_at s (i + 1)) \<and> isxdigit (chr_at s (i + 2))"
    have three: "i + 3 \<le> length s" if ?pct
      using that by (metis add.commute chr_at_end less_eq_Suc_le linorder_not_le
          numeral_3_eq_3 numeral_2_eq_2 plus_nat.simps(2) One_nat_def add_Suc_right)
    consider "chr_at s i = CHR ''+''" | "chr_at s i \<noteq> CHR ''+''" ?pct
      | "chr_at s i \<noteq> CHR ''+''" "\<not> ?pct"
      by blast
    then show ?thesis
    proof cases
      case 1
      with "1.hyps"(1) [OF False _ 1] i show ?thesis
        by (subst uri_decode_loop.simps) fastforce
    next
      case 2
      with "1.hyps"(2) [OF False _ 2] three [OF 2(2)] i show ?thesis
        by (subst uri_decode_loop.simps) fastforce
    next
      case 3
      with "1.hyps"(3) [OF False _ 3] i show ?thesis
        by (subst uri_decode_loop.simps) fastforce
    qed
  qed
qed

text \<open>
  Percent encoding of every character, with upper- or lower-case digits, as a reference:
  what a client may send for an arbitrary string.
\<close>

definition hex_digit :: "nat \<Rightarrow> char" where
  "hex_digit n = char_of (if n < 10 then 48 + n else 55 + n)"

definition pct :: "char \<Rightarrow> string" where
  "pct c = [CHR ''%'', hex_digit (of_char c div 16), hex_digit (of_char c mod 16)]"

definition uri_encode :: "(char \<Rightarrow> bool) \<Rightarrow> string \<Rightarrow> string" where
  "uri_encode plain s = concat (map (\<lambda>c. if plain c then [c] else pct c) s)"

lemma hex_digit_simps:
  assumes "n < 16"
  shows "uri_xval (hex_digit n) = n" "isxdigit (hex_digit n)" "hex_digit n \<noteq> NUL"
proof -
  have c: "of_char (hex_digit n) = (if n < 10 then 48 + n else 55 + n)"
    using assms by (simp add: hex_digit_def of_char_of)
  show "uri_xval (hex_digit n) = n" "isxdigit (hex_digit n)"
    using assms by (auto simp: uri_xval_def Let_def c isxdigit_def isdigit_def)
  show "hex_digit n \<noteq> NUL"
  proof
    assume "hex_digit n = NUL"
    then have "of_char (hex_digit n) = (0::nat)" by simp
    with c show False by (simp split: if_splits)
  qed
qed

lemma length_uri_encode_Cons:
  "uri_encode plain (c # s) = (if plain c then [c] else pct c) @ uri_encode plain s"
  by (simp add: uri_encode_def)

lemma uri_decode_loop_encode:
  assumes plain: "\<not> plain CHR ''+''" "\<not> plain CHR ''%''"
  shows "uri_decode_loop (p @ uri_encode plain s) (length (p @ uri_encode plain s)) (length p) dst
           = Inr (dst @ s)"
proof (induction s arbitrary: p dst)
  case Nil
  show ?case by (simp add: uri_decode_loop.simps uri_encode_def)
next
  case (Cons c s)
  show ?case
  proof (cases "plain c")
    case True
    then have c: "c \<noteq> CHR ''+''" "c \<noteq> CHR ''%''" using plain by auto
    from True c Cons.IH [of "p @ [c]" "dst @ [c]"] show ?thesis
      by (subst uri_decode_loop.simps) (simp add: length_uri_encode_Cons)
  next
    case False
    let ?t = "p @ uri_encode plain (c # s)"
    have t: "?t = (p @ pct c) @ uri_encode plain s" "length (p @ pct c) = length p + 3"
      by (simp_all add: False length_uri_encode_Cons pct_def)
    have ch: "chr_at ?t (length p) = CHR ''%''"
      "chr_at ?t (length p + 1) = hex_digit (of_char c div 16)"
      "chr_at ?t (length p + 2) = hex_digit (of_char c mod 16)"
      by (simp_all add: False length_uri_encode_Cons pct_def chr_at_def nth_append)
    have d: "of_char c div 16 < (16::nat)" "of_char c mod 16 < (16::nat)"
      by (simp_all add: less_mult_imp_div_less of_char_def)
    have "length p \<noteq> length ?t" "\<not> length ?t < length p"
      by (simp_all add: t(1) pct_def)
    moreover have "16 * (of_char c div 16) + of_char c mod 16 = (of_char c :: nat)"
      by (rule mult_div_mod_eq)
    ultimately have "uri_decode_loop ?t (length ?t) (length p) dst
        = uri_decode_loop ?t (length ?t) (length p + 3) (dst @ [c])"
      by (subst uri_decode_loop.simps)
         (simp only: ch hex_digit_simps d char_of_char if_True if_False char.inject simp_thms)
    also have "\<dots> = Inr (dst @ c # s)"
      using Cons.IH [of "p @ pct c" "dst @ [c]"] by (simp only: t) simp
    finally show ?thesis .
  qed
qed

section \<open>Properties\<close>

text \<open>
  \<^verbatim>\<open>uo_ceil_pow2\<close> returns the least power of two that is not below its argument, for
  every argument from 1 to \<open>2 ^ 63\<close>.
\<close>

theorem uo_ceil_pow2_correct:
  assumes "0 < n" and "n \<le> 2 ^ 63"
  shows "\<exists>k \<le> 63. unat (uo_ceil_pow2 (of_nat n)) = 2 ^ k \<and> n \<le> 2 ^ k
           \<and> (\<forall>j. n \<le> 2 ^ j \<longrightarrow> k \<le> j)"
proof -
  obtain k where k: "k \<le> 63" "unat (uo_ceil_pow2 (of_nat n)) = 2 ^ k" "n \<le> 2 ^ k"
    "k = 0 \<or> 2 ^ (k - 1) < n"
    using assms by (rule uo_ceil_pow2_least)
  have "k \<le> j" if "n \<le> 2 ^ j" for j
  proof (rule ccontr)
    assume "\<not> k \<le> j"
    then have "k \<noteq> 0" "j \<le> k - 1" by simp_all
    then have "(2::nat) ^ j \<le> 2 ^ (k - 1)" by (intro power_increasing) simp_all
    with k(4) that \<open>k \<noteq> 0\<close> show False by linarith
  qed
  with k show ?thesis by blast
qed

theorem uo_ceil_pow2_correct_witness:
  "\<exists>k \<le> 63. unat (uo_ceil_pow2 (of_nat 4097)) = 2 ^ k \<and> 4097 \<le> (2::nat) ^ k
     \<and> (\<forall>j. 4097 \<le> (2::nat) ^ j \<longrightarrow> k \<le> j)"
  by (rule uo_ceil_pow2_correct) simp_all

text \<open>
  \<^verbatim>\<open>uo_utf8_append\<close> stores the UTF-8 encoding of every code point below
  \<^verbatim>\<open>0x110000\<close>, which decodes to that code point and is the shortest of the four forms,
  and returns \<^verbatim>\<open>NULL\<close> exactly for the other values.
\<close>

theorem uo_utf8_append_correct:
  "case uo_utf8_append cp of
     None \<Rightarrow> 0x110000 \<le> cp
   | Some bs \<Rightarrow> cp < 0x110000 \<and> utf8_codepoint bs = Some cp
       \<and> length bs = (if cp < 0x80 then 1 else if cp < 0x800 then 2 else if cp < 0x10000 then 3 else 4)"
proof -
  consider "cp < 0x80" | "0x80 \<le> cp" "cp < 0x800" | "0x800 \<le> cp" "cp < 0x10000"
    | "0x10000 \<le> cp" "cp < 0x110000" | "0x110000 \<le> cp"
    by (meson not_le)
  then show ?thesis
  proof cases
    case 1
    then have "cp < 0x110000" by (simp add: order.strict_trans)
    with 1 show ?thesis
      unfolding uo_utf8_append_def by (simp only: if_True option.case utf8_codepoint_1) simp
  next
    case 2
    then have "\<not> cp < 0x80" "cp < 0x110000" by (simp_all add: order.strict_trans not_less)
    with 2 show ?thesis
      unfolding uo_utf8_append_def by (simp only: if_True if_False option.case utf8_codepoint_2) simp
  next
    case 3
    then have "\<not> cp < 0x80" "\<not> cp < 0x800" "cp < 0x110000"
      by (simp_all add: word_less_nat_alt word_le_nat_alt)
    with 3 show ?thesis
      unfolding uo_utf8_append_def by (simp only: if_True if_False option.case utf8_codepoint_3) simp
  next
    case 4
    then have "\<not> cp < 0x80" "\<not> cp < 0x800" "\<not> cp < 0x10000"
      by (simp_all add: word_less_nat_alt word_le_nat_alt)
    with 4 show ?thesis
      unfolding uo_utf8_append_def by (simp only: if_True if_False option.case utf8_codepoint_4) simp
  next
    case 5
    then have "\<not> cp < 0x80" "\<not> cp < 0x800" "\<not> cp < 0x10000" "\<not> cp < 0x110000"
      by (simp_all add: word_less_nat_alt word_le_nat_alt)
    with 5 show ?thesis
      unfolding uo_utf8_append_def by (simp only: if_False option.case)
  qed
qed

text \<open>
  \<^verbatim>\<open>uo_isprefix\<close> decides whether the first string is a prefix of the second.
\<close>

theorem uo_isprefix_iff:
  assumes "no_nul pre"
  shows "uo_isprefix pre str \<longleftrightarrow> prefix pre str"
proof (cases "uo_strdiff pre str")
  case None
  then have "uo_isprefix pre str" unfolding uo_isprefix_def by (simp only: option.case)
  moreover from None have "pre = str" by simp
  ultimately show ?thesis by simp
next
  case (Some i)
  then have i: "pre \<noteq> str" "i \<le> length pre" "i \<le> length str" "take i pre = take i str"
    "i < length pre \<and> i < length str \<longrightarrow> pre ! i \<noteq> str ! i"
    by (simp_all add: uo_strdiff_Some)
  have "chr_at pre i = NUL \<longleftrightarrow> i = length pre"
    using assms i(2) by (auto simp: chr_at_def no_nul_def in_set_conv_nth)
  moreover have "prefix pre str \<longleftrightarrow> i = length pre"
  proof
    assume "prefix pre str"
    then obtain zs where "str = pre @ zs" by (auto simp: prefix_def)
    with i show "i = length pre" by (auto simp: nth_append)
  next
    assume "i = length pre"
    with i(4) show "prefix pre str" by (metis take_all_iff order_refl take_is_prefix)
  qed
  ultimately show ?thesis using Some by (simp add: uo_isprefix_def)
qed

theorem uo_isprefix_iff_witness: "uo_isprefix ''/api'' ''/api/x'' \<and> \<not> uo_isprefix ''/api'' ''/ap''"
  using uo_isprefix_iff [of "''/api''" "''/api/x''"] uo_isprefix_iff [of "''/api''" "''/ap''"]
  by (simp add: no_nul_def)

text \<open>
  C25: decoding inverts percent encoding: whatever set of characters a client leaves as
  they are (except the plus and the percent sign), \<^verbatim>\<open>uo_uri_decode\<close> called with the length
  of the encoded string stores the original string and never reads past the terminator.
\<close>

theorem uo_uri_decode_encode:
  assumes "\<not> plain CHR ''+''" and "\<not> plain CHR ''%''"
  shows "uo_uri_decode (uri_encode plain s) (length (uri_encode plain s)) = Inr s"
  using uri_decode_loop_encode [of plain "[]" s "[]"] assms by (simp add: uo_uri_decode_def)

theorem uo_uri_decode_encode_witness: "uo_uri_decode ''a%20b%2Bc'' 9 = Inr ''a b+c''"
proof -
  define plain where "plain = (\<lambda>c. c \<in> set ''abc'')"
  have e: "uri_encode plain ''a b+c'' = ''a%20b%2Bc''"
    by (simp add: plain_def uri_encode_def pct_def hex_digit_def char_of_def bit_0)
  show ?thesis
    using uo_uri_decode_encode [of plain "''a b+c''"] by (simp add: e eval_nat_numeral) (simp add: plain_def)
qed

text \<open>
  With a length shorter than the string, \<^verbatim>\<open>uo_uri_decode\<close> can step over its end: the
  loop compares \<^verbatim>\<open>src\<close> with \<^verbatim>\<open>src_end\<close> for equality while an escape advances it by three.
  Whenever the length cuts an escape at the end of the string, it reads out of bounds.
\<close>

theorem uo_uri_decode_overrun:
  assumes "isxdigit a" and "isxdigit b" and "n = 1 \<or> n = 2"
  shows "uo_uri_decode [CHR ''%'', a, b] n = Inl OutOfBounds"
proof -
  have nz: "a \<noteq> NUL" "b \<noteq> NUL" using assms by (auto simp: isxdigit_def isdigit_def)
  let ?s = "[CHR ''%'', a, b]"
  have at: "chr_at ?s 0 = CHR ''%''" "chr_at ?s (0 + 1) = a" "chr_at ?s (0 + 2) = b" "chr_at ?s 3 = NUL"
    by (simp_all add: chr_at_def)
  define d :: string where "d = [char_of (16 * uri_xval a + uri_xval b)]"
  have "uri_decode_loop ?s n 0 [] = uri_decode_loop ?s n (0 + 3) d"
    using assms nz by (subst uri_decode_loop.simps) (auto simp: at d_def)
  also have "\<dots> = uri_decode_loop ?s n (3 + 1) (d @ [NUL])"
    using assms by (subst uri_decode_loop.simps) (auto simp: at)
  also have "\<dots> = Inl OutOfBounds"
    using assms by (subst uri_decode_loop.simps) auto
  finally show ?thesis by (simp add: uo_uri_decode_def)
qed

theorem uo_uri_decode_overrun_witness: "uo_uri_decode ''%41'' 1 = Inl OutOfBounds"
  by (rule uo_uri_decode_overrun) (simp_all add: isxdigit_def isdigit_def)

text \<open>
  \<^verbatim>\<open>uo_temp_strcat\<close> leaves the concatenation of its arguments in the scratch buffer,
  when they lie outside it or the first is the scratch string itself, and touches nothing
  else.
\<close>

theorem uo_temp_strcat_correct:
  assumes s1: "cstr_at m str1 s1" and s2: "cstr_at m str2 s2"
    and fits: "length s1 + length s2 < UO_TEMPSTR_LEN"
    and out1: "str1 = tempstr \<or> str1 + length s1 < tempstr \<or> tempstr + UO_TEMPSTR_LEN \<le> str1"
    and out2: "str2 + length s2 < tempstr \<or> tempstr + UO_TEMPSTR_LEN \<le> str2"
  shows "\<exists>m'. uo_temp_strcat tempstr m str1 str2 = Some (Inr m') \<and> cstr_at m' tempstr (s1 @ s2)
           \<and> (\<forall>a. a < tempstr \<or> tempstr + UO_TEMPSTR_LEN \<le> a \<longrightarrow> m' a = m a)"
proof -
  define m1 where "m1 = memmove (m(tempstr + (length s1 + length s2) := 0))
      (tempstr + length s1) str2 (length s2)"
  define m2 where "m2 = (if str1 = tempstr then m1 else memmove m1 tempstr str1 (length s1))"
  have r: "uo_temp_strcat tempstr m str1 str2 = Some (Inr m2)"
    using fits by (simp add: uo_temp_strcat_def strlen_from_cstr [OF s1] strlen_from_cstr [OF s2]
        m2_def m1_def)
  have rd2: "mem_read (m(tempstr + (length s1 + length s2) := 0)) str2 (length s2) = s2"
    using s2 out2 fits by (auto simp: cstr_at_def mem_read_eq_nth)
  then have m1: "m1 a = (if tempstr + length s1 \<le> a \<and> a < tempstr + (length s1 + length s2)
      then s2 ! (a - (tempstr + length s1))
      else if a = tempstr + (length s1 + length s2) then 0 else m a)" for a
    by (auto simp: m1_def memmove_def mem_write_def)
  have rd1: "mem_read m1 str1 (length s1) = s1"
    using s1 out1 fits by (auto simp: cstr_at_def mem_read_eq_nth m1)
  have m2: "m2 a = (if tempstr \<le> a \<and> a < tempstr + length s1 then s1 ! (a - tempstr) else m1 a)" for a
  proof (cases "str1 = tempstr \<and> tempstr \<le> a \<and> a < tempstr + length s1")
    case True
    then have "m1 (tempstr + (a - tempstr)) = s1 ! (a - tempstr)"
      using rd1 by (metis add_diff_inverse_nat add_less_cancel_left mem_read_eq_nth not_le)
    with True show ?thesis by (simp add: m2_def)
  next
    case False
    then show ?thesis by (auto simp: m2_def memmove_def mem_write_def rd1)
  qed
  have "mem_read m2 tempstr (length (s1 @ s2)) = s1 @ s2"
    unfolding mem_read_eq_nth by (auto simp: m2 m1 nth_append)
  then have "cstr_at m2 tempstr (s1 @ s2)"
    using s1 s2 by (auto simp: cstr_at_def m2 m1)
  moreover have "m2 a = m a" if "a < tempstr \<or> tempstr + UO_TEMPSTR_LEN \<le> a" for a
    using that fits by (auto simp: m2 m1)
  ultimately show ?thesis using r by blast
qed

theorem uo_temp_strcat_correct_witness:
  "\<exists>m'. uo_temp_strcat 10 ((\<lambda>_. 0)(0 := 65, 2 := 66)) 0 2 = Some (Inr m')
     \<and> cstr_at m' 10 [65, 66] \<and> (\<forall>a. a < 10 \<or> 10 + UO_TEMPSTR_LEN \<le> a
       \<longrightarrow> m' a = ((\<lambda>_. 0)(0 := 65, 2 := 66)) a)"
  using uo_temp_strcat_correct [of "(\<lambda>_. 0)(0 := 65, 2 := 66)" 0 "[65]" 2 "[66]" 10]
  by (simp add: cstr_at_def UO_TEMPSTR_LEN_def mem_read_Suc)

end
