(* ===== verification/Json.thy ===== *)
theory Json
  imports Util
begin

text \<open>
  \<^verbatim>\<open>uo_json/src/uo_json.c\<close>: writing JSON values, decoding JSON strings, and searching JSON
  text without parsing it into a tree. Text is a string and a pointer into it an offset;
  the terminator is at offset \<^term>\<open>length s\<close>, and an access beyond it is
  \<^const>\<open>OutOfBounds\<close>. The searching functions call each other, so they carry a bound on the
  number of calls; one more than the length of the text is shown to be enough.
\<close>

section \<open>Encoding\<close>

text \<open>\<^verbatim>\<open>sprintf\<close> of a byte with \<^verbatim>\<open>%04X\<close>.\<close>

definition hex4 :: "char \<Rightarrow> string" where
  "hex4 c = [CHR ''0'', CHR ''0'', hex_digit (of_char c div 16), hex_digit (of_char c mod 16)]"

definition json_encode_char :: "char \<Rightarrow> string" where
  "json_encode_char c =
     (if iscntrl c then [CHR 0x5C, CHR ''u''] @ hex4 c
      else if c = CHR 0x22 \<or> c = CHR 0x5C then [CHR 0x5C, c]
      else [c])"

definition json_body :: "string \<Rightarrow> string" where
  "json_body s = concat (map json_encode_char s)"

definition uo_json_encode_null :: string where
  "uo_json_encode_null = ''null''"

definition uo_json_encode_utf8 :: "string option \<Rightarrow> string" where
  "uo_json_encode_utf8 src =
     (case src of None \<Rightarrow> uo_json_encode_null | Some s \<Rightarrow> [CHR 0x22] @ json_body s @ [CHR 0x22])"

definition uo_json_encode_bool :: "bool \<Rightarrow> string" where
  "uo_json_encode_bool b = (if b then ''true'' else ''false'')"

definition uo_json_encode_uint64 :: "64 word \<Rightarrow> string" where
  "uo_json_encode_uint64 w = decimal (unat w)"

definition uo_json_encode_int64 :: "64 word \<Rightarrow> string" where
  "uo_json_encode_int64 w =
     (let i = sint w in if i < 0 then CHR ''-'' # decimal (nat (- i)) else decimal (nat i))"

text \<open>\<^verbatim>\<open>uo_json_encode_kvp\<close>, given the text of the value.\<close>

definition uo_json_encode_kvp :: "string \<Rightarrow> string \<Rightarrow> string" where
  "uo_json_encode_kvp key val = uo_json_encode_utf8 (Some key) @ '': '' @ val"

section \<open>Decoding strings\<close>

fun hex_value :: "string \<Rightarrow> nat" where
  "hex_value [] = 0"
| "hex_value ds = 16 * hex_value (butlast ds) + uri_xval (last ds)"

text \<open>
  \<^verbatim>\<open>sscanf\<close> with the format \<^verbatim>\<open>%04x\<close>: skip white space, then read at most four characters of
  an optional sign, an optional \<^verbatim>\<open>0x\<close> and hexadecimal digits, of which there has to be one.
  The result is stored as an unsigned number of 32 bits.
\<close>

definition sscanf_04x :: "string \<Rightarrow> 32 word option" where
  "sscanf_04x s =
     (let t = take 4 (dropWhile isspace s);
          neg = (take 1 t = ''-'');
          t = (if take 1 t = ''-'' \<or> take 1 t = ''+'' then drop 1 t else t);
          t = (if take 2 t = ''0x'' \<or> take 2 t = ''0X'' then drop 2 t else t);
          ds = takeWhile isxdigit t
      in if ds = [] then None
         else Some (if neg then - of_nat (hex_value ds) else of_nat (hex_value ds)))"

text \<open>The destination pointer becomes \<^verbatim>\<open>NULL\<close> when \<^verbatim>\<open>uo_utf8_append\<close> refuses a code point.\<close>

definition put :: "string option \<Rightarrow> string \<Rightarrow> string option cres" where
  "put dst cs = (case dst of None \<Rightarrow> Inl NullDeref | Some d \<Rightarrow> Inr (Some (d @ cs)))"

definition put_codepoint :: "string option \<Rightarrow> 32 word \<Rightarrow> string option cres" where
  "put_codepoint dst codepoint =
     (case uo_utf8_append codepoint of
        None \<Rightarrow> Inr None
      | Some bs \<Rightarrow> put dst (map (\<lambda>b. char_of (unat b)) bs))"

text \<open>
  The loop, on the characters up to \<^verbatim>\<open>json_end\<close>; \<open>rest\<close> is the text from there on, which
  only \<^verbatim>\<open>sscanf\<close> can see.
\<close>

function decode_loop :: "string \<Rightarrow> string \<Rightarrow> string option \<Rightarrow> string option cres" where
  "decode_loop rest [] dst = Inr dst"
| "decode_loop rest (c # src) dst =
     (if c = CHR 0x5C then
        (case src of
           [] \<Rightarrow> Inr None
         | e # src' \<Rightarrow>
             if e = CHR 0x22 \<or> e = CHR 0x5C \<or> e = CHR ''/''
             then res_bind (put dst [e]) (\<lambda>dst. decode_loop rest src' dst)
             else if e = CHR ''b'' then res_bind (put dst [CHR 0x08]) (\<lambda>dst. decode_loop rest src' dst)
             else if e = CHR ''f'' then res_bind (put dst [CHR 0x0C]) (\<lambda>dst. decode_loop rest src' dst)
             else if e = CHR ''n'' then res_bind (put dst [CHR 0x0A]) (\<lambda>dst. decode_loop rest src' dst)
             else if e = CHR ''r'' then res_bind (put dst [CHR 0x0D]) (\<lambda>dst. decode_loop rest src' dst)
             else if e = CHR ''t'' then res_bind (put dst [CHR 0x09]) (\<lambda>dst. decode_loop rest src' dst)
             else if e = CHR ''u'' then
               (if length src' < 4 then Inr None
                else case sscanf_04x (src' @ rest) of
                  None \<Rightarrow> Inr None
                | Some codepoint \<Rightarrow>
                    res_bind (put_codepoint dst codepoint) (\<lambda>dst. decode_loop rest (drop 4 src') dst))
             else Inr None)
      else res_bind (put dst [c]) (\<lambda>dst. decode_loop rest src dst))"
  by pat_completeness auto
termination
  by (relation "measure (\<lambda>(rest, src, dst). length src)") auto

text \<open>
  \<open>src\<close> is the text the pointer is given with, \<open>src_len\<close> at most its length. What the
  terminator and the text after \<open>src_len\<close> hold is only read by \<^verbatim>\<open>sscanf\<close>.
\<close>

definition uo_json_decode_utf8 :: "string \<Rightarrow> nat \<Rightarrow> string option cres" where
  "uo_json_decode_utf8 src src_len =
     (if length src < src_len then Inl OutOfBounds
      else if src_len < 2 \<or> src ! 0 \<noteq> CHR 0x22 \<or> src ! (src_len - 1) \<noteq> CHR 0x22 then Inr None
      else decode_loop (drop (src_len - 1) src) (drop 1 (take (src_len - 1) src)) (Some []))"

section \<open>Searching\<close>

text \<open>A search that starts beyond the terminator is an access out of bounds.\<close>

definition strchr_at :: "string \<Rightarrow> nat \<Rightarrow> char \<Rightarrow> nat option cres" where
  "strchr_at s i c = (if length s < i then Inl OutOfBounds else Inr (strchr s i c))"

function skip_while :: "(char \<Rightarrow> bool) \<Rightarrow> string \<Rightarrow> nat \<Rightarrow> nat" where
  "skip_while P s i = (if i < length s \<and> P (s ! i) then skip_while P s (Suc i) else i)"
  by pat_completeness auto
termination
  by (relation "measure (\<lambda>(P, s, i). length s - i)") auto

declare skip_while.simps [simp del]

text \<open>Whether the character at \<open>i\<close> is preceded by an odd number of backslashes.\<close>

fun uo_json_is_char_escaped :: "string \<Rightarrow> nat \<Rightarrow> bool cres" where
  "uo_json_is_char_escaped s 0 = Inl OutOfBounds"
| "uo_json_is_char_escaped s (Suc i) =
     (if chr_at s i = CHR 0x5C then res_bind (uo_json_is_char_escaped s i) (\<lambda>b. Inr (\<not> b))
      else Inr False)"

definition uo_json_find_num_end :: "string \<Rightarrow> nat \<Rightarrow> nat option" where
  "uo_json_find_num_end s json_num =
     (let p = json_num;
          p = (if chr_at s p = CHR ''-'' then p + 1 else p);
          p = skip_while isdigit s p
      in if chr_at s p = NUL then Some p
         else
           let p = (if chr_at s p = CHR ''.'' then p + 1 else p);
               p = skip_while isdigit s p;
               exponent = (tolower (chr_at s p) = CHR ''e'')
           in if exponent \<and> chr_at s (p + 1) \<noteq> CHR ''+'' \<and> chr_at s (p + 1) \<noteq> CHR ''-'' then None
              else
                let p = (if exponent then skip_while isdigit s (p + 2) else p)
                in if chr_at s p = NUL \<or> chr_at s p = CHR '','' then Some p
                   else if isspace (chr_at s p) then Some p else None)"

function str_end_loop :: "string \<Rightarrow> nat \<Rightarrow> nat option cres" where
  "str_end_loop s i =
     (case strchr s i CHR 0x22 of
        None \<Rightarrow> Inr None
      | Some quote \<Rightarrow>
          (case uo_json_is_char_escaped s quote of
             Inl e \<Rightarrow> Inl e
           | Inr esc \<Rightarrow> if esc then str_end_loop s (quote + 1) else Inr (Some (quote + 1))))"
  by pat_completeness auto
termination
  by (relation "measure (\<lambda>(s, i). length s - i)") (auto dest: strchr_bound)

declare str_end_loop.simps [simp del]

definition uo_json_find_str_end :: "string \<Rightarrow> nat \<Rightarrow> nat option cres" where
  "uo_json_find_str_end s json_str = str_end_loop s (json_str + 1)"

text \<open>
  \<open>opt_bind\<close> is the early return of \<^verbatim>\<open>NULL\<close>: the continuation runs on a pointer that is
  not \<^verbatim>\<open>NULL\<close>.
\<close>

definition opt_bind :: "nat option cres \<Rightarrow> (nat \<Rightarrow> nat option run) \<Rightarrow> nat option run" where
  "opt_bind r f = (case r of Inl e \<Rightarrow> Some (Inl e) | Inr None \<Rightarrow> Some (Inr None) | Inr (Some p) \<Rightarrow> f p)"

definition opt_run :: "nat option run \<Rightarrow> (nat \<Rightarrow> nat option run) \<Rightarrow> nat option run" where
  "opt_run r f = (case r of None \<Rightarrow> None | Some x \<Rightarrow> opt_bind x f)"

lemma opt_bind_Some [simp]: "opt_bind (Inr (Some p)) f = f p"
  by (simp add: opt_bind_def)

lemma opt_run_Some [simp]: "opt_run (Some (Inr (Some p))) f = f p"
  by (simp add: opt_run_def)

abbreviation ret :: "nat option \<Rightarrow> nat option run" where
  "ret p \<equiv> Some (Inr p)"

fun find_end :: "nat \<Rightarrow> string \<Rightarrow> nat \<Rightarrow> nat option run"
  and find_obj_end :: "nat \<Rightarrow> string \<Rightarrow> nat \<Rightarrow> nat option run"
  and find_arr_end :: "nat \<Rightarrow> string \<Rightarrow> nat \<Rightarrow> nat option run" where
  "find_end 0 s json = None"
| "find_end (Suc n) s json =
     (let p = skip_while isspace s json; c = chr_at s p in
      if c = NUL then ret None
      else if c = CHR ''{'' then find_obj_end n s (p + 1)
      else if c = CHR ''['' then
        opt_bind (strchr_at s (p + 1) CHR '']'') (\<lambda>right_bracket.
          if right_bracket = p + 1 then ret (Some (right_bracket + 1))
          else find_arr_end n s (p + 1))
      else if c = CHR 0x22 then Some (uo_json_find_str_end s p)
      else if c = CHR ''n'' then ret (Some (p + 4))
      else if c = CHR ''t'' then ret (Some (p + 4))
      else if c = CHR ''f'' then ret (Some (p + 5))
      else ret (uo_json_find_num_end s p))"
| "find_obj_end 0 s p = None"
| "find_obj_end (Suc n) s p =
     (if chr_at s p = NUL then ret None
      else
        opt_bind (strchr_at s p CHR ''}'') (\<lambda>right_brace.
          let key = strchr s p CHR 0x22 in
          if key = None \<or> right_brace < the key then ret (Some (right_brace + 1))
          else
            opt_bind (uo_json_find_str_end s (the key)) (\<lambda>key_end.
            opt_bind (strchr_at s key_end CHR '':'') (\<lambda>colon.
            opt_run (find_end n s (skip_while isspace s (colon + 1))) (\<lambda>p.
            opt_bind (strchr_at s (p + 1) CHR ''}'') (\<lambda>right_brace.
              case strchr s p CHR '','' of
                None \<Rightarrow> ret (Some (right_brace + 1))
              | Some p \<Rightarrow> find_obj_end n s p))))))"
| "find_arr_end 0 s p = None"
| "find_arr_end (Suc n) s p =
     (if chr_at s p = NUL then ret None
      else
        opt_run (find_end n s (skip_while isspace s p)) (\<lambda>p.
        opt_bind (strchr_at s (p + 1) CHR '']'') (\<lambda>right_bracket.
          case strchr s p CHR '','' of
            None \<Rightarrow> ret (Some (right_bracket + 1))
          | Some p \<Rightarrow> find_arr_end n s p)))"

definition uo_json_find_end :: "string \<Rightarrow> nat \<Rightarrow> nat option run" where
  "uo_json_find_end s json = find_end (Suc (length s)) s json"

text \<open>
  \<open>opt_bind\<close> discards the position of a search whose result the code only tests; the loop
  of \<^verbatim>\<open>uo_json_find_value\<close> stops at the first key whose text equals \<open>name\<close>.
\<close>

fun find_value_loop :: "nat \<Rightarrow> string \<Rightarrow> string \<Rightarrow> nat \<Rightarrow> nat option run" where
  "find_value_loop 0 s name p = None"
| "find_value_loop (Suc n) s name p =
     (if chr_at s p = NUL then ret None
      else
        opt_bind (strchr_at s p CHR ''}'') (\<lambda>right_brace.
        opt_bind (strchr_at s p CHR 0x22) (\<lambda>key.
          if right_brace < key then ret None
          else
            opt_bind (uo_json_find_str_end s key) (\<lambda>key_end.
              let is_match = (length name + 2 = key_end - key
                              \<and> take (length name) (drop (key + 1) s) = name)
              in opt_bind (strchr_at s key_end CHR '':'') (\<lambda>colon.
                 let p = skip_while isspace s (colon + 1)
                 in if is_match then ret (Some p)
                    else
                      opt_run (uo_json_find_end s p) (\<lambda>p.
                      opt_bind (strchr_at s (p + 1) CHR ''}'') (\<lambda>_.
                      opt_bind (strchr_at s p CHR '','') (\<lambda>p.
                        find_value_loop n s name p))))))))"

definition uo_json_find_value :: "string \<Rightarrow> string \<Rightarrow> nat option run" where
  "uo_json_find_value json name =
     (let p = skip_while isspace json 0
      in if chr_at json p \<noteq> CHR ''{'' then ret None
         else find_value_loop (Suc (length json)) json name p)"

section \<open>Decoding inverts encoding\<close>

lemma hex4_scan:
  "sscanf_04x (hex4 c @ t) = Some (of_char c)"
proof -
  define a b where "a = of_char c div (16::nat)" and "b = of_char c mod (16::nat)"
  have ab: "a < 16" "b < 16" by (simp_all add: a_def b_def less_mult_imp_div_less of_char_def)
  have v: "16 * a + b = of_char c" by (simp add: a_def b_def)
  have h: "hex4 c = [CHR ''0'', CHR ''0'', hex_digit a, hex_digit b]" by (simp add: hex4_def a_def b_def)
  have zero: "isxdigit CHR ''0''" "uri_xval CHR ''0'' = 0" "\<not> isspace CHR ''0''"
    by (simp_all add: isxdigit_def isdigit_def uri_xval_def isspace_def)
  have "takeWhile isxdigit [CHR ''0'', CHR ''0'', hex_digit a, hex_digit b]
      = [CHR ''0'', CHR ''0'', hex_digit a, hex_digit b]"
    using ab by (simp add: zero hex_digit_simps)
  moreover have "hex_value [CHR ''0'', CHR ''0'', hex_digit a, hex_digit b] = of_char c"
    using ab by (simp add: zero hex_digit_simps v)
  ultimately show ?thesis
    by (simp add: sscanf_04x_def Let_def h zero) (simp add: eval_nat_numeral zero of_nat_of_char)
qed

lemma put_codepoint_ascii:
  assumes "of_char c < (128::nat)"
  shows "put_codepoint (Some d) (of_char c) = Inr (Some (d @ [c]))"
proof -
  define n where "n = (of_char c :: nat)"
  have n: "n < 128" using assms by (simp add: n_def)
  have w: "(of_char c :: 32 word) = of_nat n" by (simp add: n_def of_nat_of_char)
  have u: "unat (of_nat n :: 32 word) = n" using n by (simp add: unat_of_nat)
  have lt: "(of_nat n :: 32 word) < 0x80" using n by (simp add: word_less_nat_alt u)
  have "(of_nat n AND 0x7f :: 32 word) = of_nat n"
  proof -
    have "(0x7f :: 32 word) = mask 7" by (simp add: mask_eq_exp_minus_1)
    then have "unat (of_nat n AND 0x7f :: 32 word) = n mod 2 ^ 7" by (simp only: unat_and_mask u)
    then have "unat (of_nat n AND 0x7f :: 32 word) = unat (of_nat n :: 32 word)" using n u by simp
    then show ?thesis by (rule word_unat_eq_iff [THEN iffD2])
  qed
  moreover have "unat (ucast (of_nat n :: 32 word) :: 8 word) = n"
    using n by (simp add: unsigned_ucast_eq u take_bit_nat_eq_self)
  moreover have "char_of n = c" by (simp add: n_def)
  ultimately show ?thesis
    using lt by (simp add: put_codepoint_def uo_utf8_append_def w put_def)
qed

lemma decode_loop_char:
  "decode_loop rest (json_encode_char c @ t) (Some d) = decode_loop rest t (Some (d @ [c]))"
proof (cases "iscntrl c")
  case True
  then have a: "of_char c < (128::nat)" by (auto simp: iscntrl_def)
  have e: "json_encode_char c @ t = CHR 0x5C # CHR ''u'' # hex4 c @ t"
    using True by (simp add: json_encode_char_def)
  have l: "length (hex4 c @ t) \<ge> 4" "drop 4 (hex4 c @ t) = t" by (simp_all add: hex4_def)
  have "decode_loop rest (json_encode_char c @ t) (Some d)
      = res_bind (put_codepoint (Some d) (of_char c)) (\<lambda>dst. decode_loop rest t dst)"
    unfolding e using l hex4_scan [of c "t @ rest"] by simp
  with put_codepoint_ascii [OF a, of d] show ?thesis by simp
next
  case False
  then show ?thesis
    by (cases "c = CHR 0x22 \<or> c = CHR 0x5C") (auto simp: json_encode_char_def put_def)
qed

lemma decode_loop_body: "decode_loop rest (json_body s) (Some d) = Inr (Some (d @ s))"
  by (induction s arbitrary: d) (simp_all add: json_body_def decode_loop_char)

section \<open>The end of a string\<close>

text \<open>\<open>odd_bs xs\<close>: the run of backslashes at the end of \<open>xs\<close> is odd.\<close>

fun odd_run :: "string \<Rightarrow> bool" where
  "odd_run [] = False"
| "odd_run (c # cs) = (c = CHR 0x5C \<and> \<not> odd_run cs)"

definition odd_bs :: "string \<Rightarrow> bool" where
  "odd_bs xs = odd_run (rev xs)"

lemma odd_bs_snoc [simp]: "odd_bs (xs @ [c]) \<longleftrightarrow> c = CHR 0x5C \<and> \<not> odd_bs xs"
  by (simp add: odd_bs_def)

lemma odd_bs_Nil [simp]: "\<not> odd_bs []"
  by (simp add: odd_bs_def)

lemma is_char_escaped_eq:
  assumes "c \<noteq> CHR 0x5C"
  shows "uo_json_is_char_escaped (pre @ c # xs @ post) (length pre + 1 + length xs) = Inr (odd_bs (c # xs))"
proof (induction xs arbitrary: post rule: rev_induct)
  case Nil
  then show ?case using assms odd_bs_snoc [of "[]" c] by simp
next
  case (snoc x xs)
  have "chr_at (pre @ c # (xs @ [x]) @ post) (length pre + 1 + length xs) = x"
    by (simp add: nth_append)
  moreover have "odd_bs (c # xs @ [x]) \<longleftrightarrow> x = CHR 0x5C \<and> \<not> odd_bs (c # xs)"
    using odd_bs_snoc [of "c # xs" x] by simp
  moreover have "length pre + 1 + length (xs @ [x]) = Suc (length pre + 1 + length xs)" by simp
  ultimately show ?case
    using snoc.IH [of "x # post"]
    by (simp only: uo_json_is_char_escaped.simps append.simps append_assoc) simp
qed

lemma not_odd_bs_body: "\<not> odd_bs (CHR 0x22 # json_body t)"
proof (induction t rule: rev_induct)
  case Nil
  show ?case using odd_bs_snoc [of "[]" "CHR 0x22"] by (simp add: json_body_def)
next
  case (snoc c t)
  define p where "p = CHR 0x22 # json_body t"
  have j: "CHR 0x22 # json_body (t @ [c]) = p @ json_encode_char c" by (simp add: json_body_def p_def)
  have p: "\<not> odd_bs p" using snoc.IH by (simp add: p_def)
  have hex: "hex_digit (of_char c mod 16) \<noteq> CHR 0x5C"
    using hex_digit_simps(2) [of "of_char c mod 16"] by (auto simp: isxdigit_def isdigit_def)
  show ?case
  proof (cases "iscntrl c")
    case True
    have "p @ json_encode_char c = (p @ [CHR 0x5C, CHR ''u'', CHR ''0'', CHR ''0'', hex_digit (of_char c div 16)])
        @ [hex_digit (of_char c mod 16)]"
      using True by (simp add: json_encode_char_def hex4_def)
    then show ?thesis using hex by (simp only: j odd_bs_snoc simp_thms)
  next
    case False
    have two: "odd_bs (p @ [CHR 0x5C, c]) \<longleftrightarrow> c = CHR 0x5C \<and> odd_bs p"
      using odd_bs_snoc [of "p @ [CHR 0x5C]" c] by simp
    show ?thesis using False p by (simp add: j json_encode_char_def two)
  qed
qed

lemma no_quote_encode_char: "c \<noteq> CHR 0x22 \<Longrightarrow> CHR 0x22 \<notin> set (json_encode_char c)"
proof -
  have x: "isxdigit (hex_digit n) \<and> n < 16 \<Longrightarrow> hex_digit n \<noteq> CHR 0x22" for n
    by (auto simp: isxdigit_def isdigit_def)
  have "of_char c div 16 < (16::nat)" by (simp add: less_mult_imp_div_less of_char_def)
  then have "hex_digit (of_char c div 16) \<noteq> CHR 0x22" by (intro x) (simp add: hex_digit_simps)
  moreover have "hex_digit (of_char c mod 16) \<noteq> CHR 0x22" by (intro x) (simp add: hex_digit_simps)
  ultimately show "c \<noteq> CHR 0x22 \<Longrightarrow> CHR 0x22 \<notin> set (json_encode_char c)"
    by (auto simp: json_encode_char_def hex4_def)
qed

text \<open>Every quote inside an encoded string is escaped, so the search ends behind the last one.\<close>

lemma str_end_loop_body:
  "str_end_loop (pre @ CHR 0x22 # json_body t @ json_body u @ CHR 0x22 # post)
     (length pre + 1 + length (json_body t))
   = Inr (Some (length pre + 1 + length (json_body t) + length (json_body u) + 1))"
proof (induction u arbitrary: t)
  case Nil
  let ?s = "pre @ CHR 0x22 # json_body t @ CHR 0x22 # post"
  have "strchr ?s (length pre + 1 + length (json_body t)) CHR 0x22 = Some (length pre + 1 + length (json_body t))"
    using strchr_here [of "pre @ CHR 0x22 # json_body t" "CHR 0x22" post] by simp
  moreover have "uo_json_is_char_escaped ?s (length pre + 1 + length (json_body t)) = Inr False"
    using is_char_escaped_eq [of "CHR 0x22" pre "json_body t" "CHR 0x22 # post"] not_odd_bs_body by simp
  ultimately show ?case by (subst str_end_loop.simps) (simp add: json_body_def)
next
  case (Cons c u)
  let ?s = "pre @ CHR 0x22 # json_body t @ json_body (c # u) @ CHR 0x22 # post"
  let ?i = "length pre + 1 + length (json_body t)"
  have tc: "json_body (t @ [c]) = json_body t @ json_encode_char c"
    "json_body (c # u) = json_encode_char c @ json_body u" by (simp_all add: json_body_def)
  have IH: "str_end_loop ?s (?i + length (json_encode_char c))
      = Inr (Some (?i + length (json_body (c # u)) + 1))"
    using Cons.IH [of "t @ [c]"] by (simp add: tc add.assoc)
  have "str_end_loop ?s ?i = str_end_loop ?s (?i + length (json_encode_char c))"
  proof (cases "c = CHR 0x22")
    case True
    then have e: "json_encode_char c = [CHR 0x5C, CHR 0x22]"
      by (simp add: json_encode_char_def iscntrl_def)
    define p where "p = pre @ CHR 0x22 # json_body t @ [CHR 0x5C]"
    have s: "?s = p @ CHR 0x22 # json_body u @ CHR 0x22 # post" by (simp add: p_def tc e)
    have i: "length p = ?i + 1" by (simp add: p_def)
    have "strchr ?s ?i CHR 0x22 = strchr ?s (length p) CHR 0x22"
      using strchr_skip [of "CHR 0x22" "[CHR 0x5C]" "pre @ CHR 0x22 # json_body t"
          "CHR 0x22 # json_body u @ CHR 0x22 # post"] by (simp add: p_def tc e)
    also have "\<dots> = Some (length p)" unfolding s by (rule strchr_here)
    finally have q: "strchr ?s ?i CHR 0x22 = Some (?i + 1)" by (simp only: i)
    have "odd_bs (CHR 0x22 # json_body t @ [CHR 0x5C])"
      using odd_bs_snoc [of "CHR 0x22 # json_body t" "CHR 0x5C"] not_odd_bs_body by simp
    then have "uo_json_is_char_escaped ?s (?i + 1) = Inr True"
      using is_char_escaped_eq [of "CHR 0x22" pre "json_body t @ [CHR 0x5C]"
          "CHR 0x22 # json_body u @ CHR 0x22 # post"] by (simp add: tc e)
    with q show ?thesis by (subst str_end_loop.simps) (simp add: e)
  next
    case False
    then have "strchr ?s ?i CHR 0x22 = strchr ?s (?i + length (json_encode_char c)) CHR 0x22"
      using strchr_skip [OF no_quote_encode_char [OF False], of "pre @ CHR 0x22 # json_body t"
          "json_body u @ CHR 0x22 # post"] by (simp add: tc add.assoc)
    then show ?thesis by (subst (1 2) str_end_loop.simps) simp
  qed
  with IH show ?case by (simp only:)
qed

lemma find_str_end_encoded:
  "uo_json_find_str_end (pre @ uo_json_encode_utf8 (Some t) @ post) (length pre)
     = Inr (Some (length pre + length (uo_json_encode_utf8 (Some t))))"
  using str_end_loop_body [of pre "[]" t post]
  by (simp add: uo_json_find_str_end_def uo_json_encode_utf8_def json_body_def)

section \<open>The searching functions return\<close>

lemma skip_while_bounds: "i \<le> skip_while P s i \<and> (i \<le> length s \<longrightarrow> skip_while P s i \<le> length s)"
  by (induction P s i rule: skip_while.induct) (subst (1 2) skip_while.simps, auto)

lemma str_end_loop_bounds: "str_end_loop s i = Inr (Some q) \<Longrightarrow> i < q \<and> q \<le> length s"
proof (induction s i rule: str_end_loop.induct)
  case (1 s i)
  from "1.prems" obtain quote esc where q: "strchr s i CHR 0x22 = Some quote"
    "uo_json_is_char_escaped s quote = Inr esc"
    "if esc then str_end_loop s (quote + 1) = Inr (Some q) else q = quote + 1"
    by (subst (asm) str_end_loop.simps) (auto split: option.splits sum.splits if_splits)
  from strchr_bound [OF q(1)] "1.IH" [OF q(1,2)] q(3) show ?case by (cases esc) auto
qed

lemma find_num_end_bound:
  assumes "uo_json_find_num_end s p = Some q"
  shows "p \<le> q"
proof -
  have sk: "a \<le> b \<Longrightarrow> a \<le> skip_while isdigit s b" for a b
    using skip_while_bounds [of b isdigit s] by simp
  show ?thesis
    using assms by (auto simp: uo_json_find_num_end_def Let_def split: if_splits intro!: sk le_SucI)
qed

lemma opt_bind_cases:
  assumes "opt_bind r f = x"
  obtains e where "r = Inl e" "x = Some (Inl e)" | "r = Inr None" "x = ret None"
  | p where "r = Inr (Some p)" "x = f p"
  using assms by (cases r; cases "projr r") (auto simp: opt_bind_def)

text \<open>
  \<open>returns_from p r\<close>: the computation ended, and a pointer it returned is not before \<open>p\<close>.
\<close>

definition returns_from :: "nat \<Rightarrow> nat option run \<Rightarrow> bool" where
  "returns_from p r \<longleftrightarrow> (case r of None \<Rightarrow> False | Some (Inr (Some q)) \<Rightarrow> p \<le> q | Some _ \<Rightarrow> True)"

lemma returns_from_simps [simp]:
  "returns_from p (ret None)" "returns_from p (ret (Some q)) \<longleftrightarrow> p \<le> q" "returns_from p (Some (Inl e))"
  "\<not> returns_from p None"
  by (simp_all add: returns_from_def)

lemma returns_from_opt_bind:
  "(\<And>q. r = Inr (Some q) \<Longrightarrow> returns_from p (f q)) \<Longrightarrow> returns_from p (opt_bind r f)"
  by (cases r; cases "projr r") (auto simp: opt_bind_def)

lemma returns_from_opt_run:
  "returns_from q r \<Longrightarrow> (\<And>q'. q \<le> q' \<Longrightarrow> returns_from p (f q')) \<Longrightarrow> returns_from p (opt_run r f)"
  by (cases r; cases "the r"; cases "projr (the r)") (auto simp: opt_run_def opt_bind_def)

lemma strchr_at_bound:
  "strchr_at s i c = Inr (Some q) \<Longrightarrow> i \<le> q \<and> q < length s \<and> s ! q = c"
  by (auto simp: strchr_at_def strchr_Some split: if_splits)

lemma find_str_end_bound:
  "uo_json_find_str_end s i = Inr (Some q) \<Longrightarrow> i < q \<and> q \<le> length s"
  using str_end_loop_bounds by (fastforce simp: uo_json_find_str_end_def)

lemma chr_at_not_NUL: "chr_at s p \<noteq> NUL \<Longrightarrow> p < length s"
  by (auto simp: chr_at_def split: if_splits)

text \<open>A bound above the length of the text that is left is enough.\<close>

lemma returns_from_mono: "returns_from q r \<Longrightarrow> p \<le> q \<Longrightarrow> returns_from p r"
  by (auto simp: returns_from_def split: option.splits sum.splits)

lemma returns_from_scalar:
  "p \<le> q \<Longrightarrow> returns_from p (Some (uo_json_find_str_end s q))"
  "p \<le> q \<Longrightarrow> returns_from p (ret (uo_json_find_num_end s q))"
  by (auto simp: returns_from_def split: option.splits sum.splits
      dest!: find_str_end_bound find_num_end_bound)

text \<open>One round of the object loop and of the array loop, given that the calls return.\<close>

lemma find_obj_end_step:
  assumes p: "p < length s"
    and IH: "\<And>q. p < q \<Longrightarrow> q \<le> length s \<Longrightarrow> returns_from q (find_end n s q)"
      "\<And>q. p < q \<Longrightarrow> q \<le> length s \<Longrightarrow> returns_from q (find_obj_end n s q)"
  shows "returns_from p (find_obj_end (Suc n) s p)"
proof -
  have value_end: "returns_from p (opt_bind (strchr_at s (q + 1) CHR ''}'') (\<lambda>right_brace.
      case strchr s q CHR '','' of None \<Rightarrow> ret (Some (right_brace + 1)) | Some p \<Rightarrow> find_obj_end n s p))"
    if "p < q" for q
  proof (rule returns_from_opt_bind)
    fix right_brace
    assume "strchr_at s (q + 1) CHR ''}'' = Inr (Some right_brace)"
    then have "q < right_brace" using strchr_at_bound by fastforce
    moreover have "returns_from p (find_obj_end n s c)" if "strchr s q CHR '','' = Some c" for c
      using returns_from_mono [OF IH(2) [of c], of p] strchr_bound [OF that] \<open>p < q\<close> by simp
    ultimately show "returns_from p (case strchr s q CHR '','' of
        None \<Rightarrow> ret (Some (right_brace + 1)) | Some p \<Rightarrow> find_obj_end n s p)"
      using \<open>p < q\<close> by (simp split: option.split)
  qed
  have member_end: "returns_from p (opt_run (find_end n s (skip_while isspace s (colon + 1))) (\<lambda>q.
      opt_bind (strchr_at s (q + 1) CHR ''}'') (\<lambda>right_brace.
      case strchr s q CHR '','' of None \<Rightarrow> ret (Some (right_brace + 1)) | Some p \<Rightarrow> find_obj_end n s p)))"
    if "p \<le> colon" "colon < length s" for colon
    using that skip_while_bounds [of "colon + 1" isspace s]
    by (intro returns_from_opt_run [of "skip_while isspace s (colon + 1)"] IH(1) value_end) simp_all
  have key_part: "returns_from p (opt_bind (uo_json_find_str_end s k) (\<lambda>key_end.
      opt_bind (strchr_at s key_end CHR '':'') (\<lambda>colon.
      opt_run (find_end n s (skip_while isspace s (colon + 1))) (\<lambda>q.
      opt_bind (strchr_at s (q + 1) CHR ''}'') (\<lambda>right_brace.
      case strchr s q CHR '','' of None \<Rightarrow> ret (Some (right_brace + 1)) | Some p \<Rightarrow> find_obj_end n s p)))))"
    if "p \<le> k" for k
    using that
    by (intro returns_from_opt_bind member_end; fastforce dest!: strchr_at_bound find_str_end_bound)
  have "returns_from p (if key = None \<or> right_brace < the key then ret (Some (right_brace + 1))
      else opt_bind (uo_json_find_str_end s (the key)) (\<lambda>key_end.
        opt_bind (strchr_at s key_end CHR '':'') (\<lambda>colon.
        opt_run (find_end n s (skip_while isspace s (colon + 1))) (\<lambda>q.
        opt_bind (strchr_at s (q + 1) CHR ''}'') (\<lambda>right_brace.
        case strchr s q CHR '','' of None \<Rightarrow> ret (Some (right_brace + 1)) | Some p \<Rightarrow> find_obj_end n s p)))))"
    if "p \<le> right_brace" "key = strchr s p CHR 0x22" for right_brace key
    using that strchr_bound [of s p "CHR 0x22"] key_part [of "the key"] by (cases key) auto
  then show ?thesis
    unfolding find_obj_end.simps Let_def
    by (auto intro!: returns_from_opt_bind dest!: strchr_at_bound simp del: disj_not1)
qed

text \<open>
  On text without arrays, a bound above the length of the text that is left is enough.
\<close>

lemma find_end_returns:
  assumes "CHR ''['' \<notin> set s"
  shows "p \<le> length s \<Longrightarrow> length s - p < n \<Longrightarrow> returns_from p (find_end n s p)"
    "p \<le> length s \<Longrightarrow> length s - p < n \<Longrightarrow> returns_from p (find_obj_end n s p)"
proof (induction n arbitrary: p)
  case (Suc n)
  {
    case 1
    define q where "q = skip_while isspace s p"
    have q: "p \<le> q" "q \<le> length s" using skip_while_bounds [of p isspace s] 1 by (simp_all add: q_def)
    have "returns_from p (find_obj_end n s (q + 1))" if "chr_at s q \<noteq> NUL"
      using chr_at_not_NUL [OF that] q 1 returns_from_mono [OF Suc(2) [of "q + 1"], of p] by simp
    moreover have "chr_at s q \<noteq> CHR ''[''" using assms by (auto simp: chr_at_def in_set_conv_nth)
    ultimately show ?case
      using q returns_from_scalar [OF q(1)] by (simp add: Let_def q_def [symmetric])
  next
    case 2
    show ?case
    proof (cases "chr_at s p = NUL")
      case False
      with 2 show ?thesis
        by (intro find_obj_end_step Suc chr_at_not_NUL) auto
    qed simp
  }
qed simp_all

text \<open>
  The loop over an array looks for the next comma but does not step over it: it finds the
  same comma forever.
\<close>

lemma find_num_end_comma: "uo_json_find_num_end (pre @ CHR '','' # post) (length pre) = Some (length pre)"
  by (simp add: uo_json_find_num_end_def Let_def skip_while.simps chr_at_def isdigit_def tolower_def)

lemma find_end_comma:
  "find_end (Suc n) (pre @ CHR '','' # post) (length pre) = ret (Some (length pre))"
  by (simp add: Let_def skip_while.simps isspace_def find_num_end_comma [simplified])

lemma find_arr_end_stuck:
  assumes "CHR '']'' \<in> set post"
  shows "find_arr_end n (pre @ CHR '','' # post) (length pre) = None"
proof (induction n)
  case (Suc n)
  let ?s = "pre @ CHR '','' # post"
  have "strchr ?s (length pre + 1) CHR '']'' \<noteq> None"
    using assms by (simp add: strchr_None)
  then obtain rb where rb: "strchr_at ?s (length pre + 1) CHR '']'' = Inr (Some rb)"
    by (auto simp: strchr_at_def)
  have sk: "skip_while isspace ?s (length pre) = length pre"
    by (simp add: skip_while.simps isspace_def)
  show ?case
  proof (cases n)
    case (Suc m)
    have "find_end n ?s (length pre) = ret (Some (length pre))"
      unfolding Suc by (rule find_end_comma)
    with Suc.IH sk rb strchr_here [of pre "CHR '',''" post] show ?thesis
      by (simp add: opt_run_def opt_bind_def chr_at_def)
  qed (simp add: opt_run_def)
qed simp

section \<open>Members of an object\<close>

text \<open>The values the encoding macros write, and the text they give.\<close>

datatype jval = JStr string | JUint "64 word" | JInt "64 word" | JBool bool | JNull

fun jtext :: "jval \<Rightarrow> string" where
  "jtext (JStr s) = uo_json_encode_utf8 (Some s)"
| "jtext (JUint w) = uo_json_encode_uint64 w"
| "jtext (JInt w) = uo_json_encode_int64 w"
| "jtext (JBool b) = uo_json_encode_bool b"
| "jtext JNull = uo_json_encode_null"

text \<open>An object as the token code lays it out: one space inside the braces and after commas.\<close>

fun members :: "(string \<times> jval) list \<Rightarrow> string" where
  "members [] = []"
| "members [(k, v)] = uo_json_encode_kvp k (jtext v)"
| "members ((k, v) # ms) = uo_json_encode_kvp k (jtext v) @ '', '' @ members ms"

definition json_object :: "(string \<times> jval) list \<Rightarrow> string" where
  "json_object ms = ''{ '' @ members ms @ '' }''"

lemma skip_while_run:
  assumes "list_all P xs" and "post = [] \<or> \<not> P (hd post)"
  shows "skip_while P (pre @ xs @ post) (length pre) = length pre + length xs"
  using assms(1)
proof (induction xs arbitrary: pre)
  case Nil
  then show ?case using assms(2) by (cases post) (auto simp: skip_while.simps)
next
  case (Cons x xs)
  then have "skip_while P (pre @ (x # xs) @ post) (length pre)
      = skip_while P ((pre @ [x]) @ xs @ post) (length (pre @ [x]))"
    by (subst skip_while.simps) simp
  also have "\<dots> = length (pre @ [x]) + length xs" using Cons by (intro Cons.IH) simp
  finally show ?case by simp
qed

lemma isdigit_distinct:
  assumes "isdigit c"
  shows "c \<noteq> NUL \<and> c \<noteq> CHR ''{'' \<and> c \<noteq> CHR ''['' \<and> c \<noteq> CHR 0x22 \<and> c \<noteq> CHR ''n''
    \<and> c \<noteq> CHR ''t'' \<and> c \<noteq> CHR ''f'' \<and> c \<noteq> CHR ''-'' \<and> \<not> isspace c"
  using assms by (auto simp: isdigit_def isspace_def)

definition ends_value :: "string \<Rightarrow> bool" where
  "ends_value ys \<longleftrightarrow> (\<exists>rest. ys = CHR '','' # rest \<or> ys = CHR '' '' # rest)"

lemma find_num_end_digits:
  assumes "list_all isdigit ds" and "ds \<noteq> []" and "ends_value ys"
  shows "uo_json_find_num_end (pre @ ds @ ys) (length pre) = Some (length pre + length ds)"
    and "uo_json_find_num_end (pre @ CHR ''-'' # ds @ ys) (length pre) = Some (length pre + 1 + length ds)"
proof -
  obtain c rest where ys: "ys = c # rest" and c: "c = CHR '','' \<or> c = CHR '' ''"
    using assms(3) by (auto simp: ends_value_def)
  have nd: "\<not> isdigit c" using c by (auto simp: isdigit_def)
  have run: "skip_while isdigit (p @ ds @ ys) (length p) = length p + length ds" for p
    using assms(1) nd by (intro skip_while_run) (simp_all add: ys)
  have stop: "skip_while isdigit (p @ ds @ ys) (length p + length ds) = length p + length ds" for p
    using skip_while_run [of isdigit "[]" ys "p @ ds"] nd by (simp add: ys)
  have at: "chr_at (p @ ds @ ys) (length p + length ds) = c" for p
    using nth_append_length [of "p @ ds" c rest] by (simp add: chr_at_def ys)
  have fin: "c \<noteq> NUL" "c \<noteq> CHR ''.''" "tolower c \<noteq> CHR ''e''" "c = CHR '','' \<or> isspace c"
    using c by (auto simp: tolower_def isspace_def)
  obtain d ds' where ds: "ds = d # ds'" using assms(2) by (cases ds) auto
  have d: "chr_at (pre @ ds @ ys) (length pre) = d" by (simp add: chr_at_def ds)
  have "d \<noteq> CHR ''-''" using assms(1) by (auto simp: ds isdigit_def)
  with fin show "uo_json_find_num_end (pre @ ds @ ys) (length pre) = Some (length pre + length ds)"
    by (auto simp: uo_json_find_num_end_def Let_def d run stop at)
  let ?p = "pre @ [CHR ''-'']"
  have m: "chr_at (?p @ ds @ ys) (length pre) = CHR ''-''" by (simp add: chr_at_def nth_append)
  have "uo_json_find_num_end (?p @ ds @ ys) (length pre) = Some (length ?p + length ds)"
    unfolding uo_json_find_num_end_def Let_def m
    using fin run [of ?p] stop [of ?p] at [of ?p] by auto
  then show "uo_json_find_num_end (pre @ CHR ''-'' # ds @ ys) (length pre) = Some (length pre + 1 + length ds)"
    by simp
qed

lemma find_end_value:
  assumes "ends_value ys"
  shows "find_end (Suc n) (pre @ jtext v @ ys) (length pre) = ret (Some (length pre + length (jtext v)))"
proof -
  have first: "skip_while isspace (pre @ c # cs) (length pre) = length pre"
    "chr_at (pre @ c # cs) (length pre) = c" if "\<not> isspace c" for c cs
    using that by (simp_all add: skip_while.simps chr_at_def)
  have num: "find_end (Suc n) (pre @ ds @ ys) (length pre) = ret (Some (length pre + length ds))"
    if "list_all isdigit ds" "ds \<noteq> []" for ds
  proof -
    note ds = that
    then obtain d ds' where dd: "ds = d # ds'" by (cases ds) auto
    with ds isdigit_distinct [of d] find_num_end_digits(1) [OF ds assms, of pre] show ?thesis
      by (simp add: Let_def first)
  qed
  have neg: "find_end (Suc n) (pre @ (CHR ''-'' # ds) @ ys) (length pre) = ret (Some (length pre + 1 + length ds))"
    if "list_all isdigit ds" "ds \<noteq> []" for ds
    using find_num_end_digits(2) [OF that assms, of pre] by (simp add: Let_def first isspace_def)
  show ?thesis
  proof (cases v)
    case (JStr t)
    have "jtext v = CHR 0x22 # json_body t @ [CHR 0x22]" by (simp add: JStr uo_json_encode_utf8_def)
    with find_str_end_encoded [of pre t ys] JStr show ?thesis
      by (simp add: Let_def first isspace_def)
  next
    case (JUint w)
    then show ?thesis
      using num decimal_digits by (simp add: uo_json_encode_uint64_def del: find_end.simps)
  next
    case (JInt w)
    then show ?thesis
      using num [of "decimal (nat (sint w))"] neg [of "decimal (nat (- sint w))"] decimal_digits
      by (simp add: uo_json_encode_int64_def Let_def del: find_end.simps)
  next
    case (JBool b)
    then show ?thesis by (cases b) (simp_all add: uo_json_encode_bool_def Let_def first isspace_def)
  next
    case JNull
    then show ?thesis by (simp add: uo_json_encode_null_def Let_def first isspace_def)
  qed
qed

declare find_end.simps [simp del]

lemma jtext_first:
  "jtext v \<noteq> [] \<and> \<not> isspace (hd (jtext v)) \<and> hd (jtext v) \<noteq> NUL \<and> hd (jtext v) \<noteq> CHR '']''"
proof -
  have dec: "decimal n \<noteq> [] \<and> \<not> isspace (hd (decimal n)) \<and> hd (decimal n) \<noteq> NUL
      \<and> hd (decimal n) \<noteq> CHR '']''" for n
    using decimal_digits [of n] isdigit_distinct by (cases "decimal n") (auto simp: isdigit_def)
  have chars: "\<not> isspace CHR 0x22" "\<not> isspace CHR ''-''" "\<not> isspace CHR ''t''" "\<not> isspace CHR ''f''"
    "\<not> isspace CHR ''n''" by (simp_all add: isspace_def)
  show ?thesis
    by (cases v)
      (auto simp: uo_json_encode_utf8_def uo_json_encode_uint64_def uo_json_encode_int64_def
        uo_json_encode_bool_def uo_json_encode_null_def Let_def dec chars)
qed

text \<open>
  One round of the loop of \<^verbatim>\<open>uo_json_find_value\<close>, at the brace or the comma before a member.
\<close>

lemma find_value_step:
  assumes s: "s = pre @ [c, CHR '' ''] @ uo_json_encode_utf8 (Some k) @ '': '' @ jtext v @ ys"
    and c: "c = CHR ''{'' \<or> c = CHR '',''"
    and ys: "ends_value ys" "CHR ''}'' \<in> set (drop 1 ys)"
  defines "q \<equiv> length pre + length (uo_json_encode_utf8 (Some k)) + 4"
  shows "find_value_loop (Suc n) s name (length pre) =
    (if name = json_body k then ret (Some q)
     else case strchr s (q + length (jtext v)) CHR '','' of None \<Rightarrow> ret None
       | Some p \<Rightarrow> find_value_loop n s name p)"
proof -
  let ?k = "uo_json_encode_utf8 (Some k)"
  have kq: "?k = CHR 0x22 # json_body k @ [CHR 0x22]" by (simp add: uo_json_encode_utf8_def)
  have at: "chr_at s (length pre) = c" by (simp add: s chr_at_def)
  have key: "strchr s (length pre) CHR 0x22 = Some (length pre + 2)"
    using strchr_skip [of "CHR 0x22" "[c, CHR '' '']" pre "?k @ '': '' @ jtext v @ ys"] c
      strchr_here [of "pre @ [c, CHR '' '']" "CHR 0x22" "json_body k @ [CHR 0x22] @ '': '' @ jtext v @ ys"]
    by (auto simp: s kq)
  have "CHR ''}'' \<in> set ys" using ys(2) by (rule in_set_dropD)
  then have "strchr s (length pre) CHR ''}'' \<noteq> None" by (simp add: s strchr_None)
  then obtain rb where rb: "strchr s (length pre) CHR ''}'' = Some rb" by blast
  have "\<not> rb < length pre + 2"
  proof
    assume "rb < length pre + 2"
    moreover have "length pre \<le> rb" "s ! rb = CHR ''}''" using rb by (simp_all add: strchr_Some)
    ultimately have "rb = length pre \<or> rb = length pre + 1" by linarith
    with \<open>s ! rb = CHR ''}''\<close> c show False by (auto simp: s nth_append)
  qed
  note rb = rb this
  have key_end: "uo_json_find_str_end s (length pre + 2) = Inr (Some (length pre + 2 + length ?k))"
    using find_str_end_encoded [of "pre @ [c, CHR '' '']" k "'': '' @ jtext v @ ys"] by (simp add: s)
  have colon: "strchr s (length pre + 2 + length ?k) CHR '':'' = Some (length pre + 2 + length ?k)"
    using strchr_here [of "pre @ [c, CHR '' ''] @ ?k" "CHR '':''" "'' '' @ jtext v @ ys"] by (simp add: s)
  have len: "length s = q + length (jtext v) + length ys" by (simp add: s q_def)
  have ws: "skip_while isspace s (length pre + 2 + length ?k + 1) = q"
  proof -
    show ?thesis
      using jtext_first [of v] skip_while_run [of isspace "'' ''" "jtext v @ ys" "pre @ [c, CHR '' ''] @ ?k @ [CHR '':'']"]
      by (simp add: s q_def isspace_def)
  qed
  have match: "length name + 2 = length pre + 2 + length ?k - (length pre + 2)
      \<and> take (length name) (drop (length pre + 2 + 1) s) = name \<longleftrightarrow> name = json_body k"
    by (auto simp: s kq)
  define P where "P = pre @ [c, CHR '' ''] @ ?k @ '': ''"
  have P: "P @ jtext v @ ys = s" "length P = q" by (simp_all add: P_def s q_def)
  have val: "uo_json_find_end s q = ret (Some (q + length (jtext v)))"
    using find_end_value [OF ys(1), of "length s" P v] by (simp only: P uo_json_find_end_def)
  have brace: "\<exists>r. strchr_at s (q + length (jtext v) + 1) CHR ''}'' = Inr (Some r)"
  proof -
    have "drop (length P + length (jtext v) + 1) (P @ jtext v @ ys) = drop 1 ys" by simp
    then have "drop (q + length (jtext v) + 1) s = drop 1 ys" by (simp only: P)
    then have "strchr s (q + length (jtext v) + 1) CHR ''}'' \<noteq> None" using ys(2) by (simp add: strchr_None)
    moreover have "q + length (jtext v) + 1 \<le> length s" using ys(1) by (auto simp: len ends_value_def)
    ultimately show ?thesis by (auto simp: strchr_at_def)
  qed
  have nn: "c \<noteq> NUL" using c by auto
  have le: "length pre \<le> length s" "length pre + 2 + length ?k \<le> length s" "q + length (jtext v) \<le> length s"
    by (simp_all add: len q_def)
  from brace obtain r where r: "strchr_at s (q + length (jtext v) + 1) CHR ''}'' = Inr (Some r)" ..
  have sa: "strchr_at s (length pre) CHR ''}'' = Inr (Some rb)"
    "strchr_at s (length pre) CHR 0x22 = Inr (Some (length pre + 2))"
    "strchr_at s (length pre + 2 + length ?k) CHR '':'' = Inr (Some (length pre + 2 + length ?k))"
    "strchr_at s (q + length (jtext v)) CHR '','' = Inr (strchr s (q + length (jtext v)) CHR '','')"
    using le rb(1) key colon by (simp_all add: strchr_at_def)
  have "find_value_loop (Suc n) s name (length pre) =
      (if name = json_body k then ret (Some q)
       else opt_bind (Inr (strchr s (q + length (jtext v)) CHR '','')) (find_value_loop n s name))"
    by (simp only: find_value_loop.simps at nn if_False Let_def sa opt_bind_Some rb(2) key_end ws match
        val opt_run_Some r)
  also have "opt_bind (Inr (strchr s (q + length (jtext v)) CHR '','')) (find_value_loop n s name)
      = (case strchr s (q + length (jtext v)) CHR '','' of None \<Rightarrow> ret None
         | Some p \<Rightarrow> find_value_loop n s name p)"
    by (simp add: opt_bind_def)
  finally show ?thesis .
qed

text \<open>
  The value the code should find: the text position of the first member with the given key
  text, counted from the start of the members.
\<close>

fun member_value :: "string \<Rightarrow> (string \<times> jval) list \<Rightarrow> (nat \<times> jval) option" where
  "member_value name [] = None"
| "member_value name ((k, v) # ms) =
     (if name = json_body k then Some (length (uo_json_encode_utf8 (Some k)) + 2, v)
      else map_option (\<lambda>(i, w). (length (uo_json_encode_kvp k (jtext v)) + 2 + i, w)) (member_value name ms))"

lemma find_value_members:
  assumes "s = pre @ [c, CHR '' ''] @ members ms @ '' }''" and "ms \<noteq> []"
    and "c = CHR ''{'' \<or> c = CHR '',''" and "length ms \<le> n"
  shows "find_value_loop (Suc n) s name (length pre)
    = ret (map_option (\<lambda>(i, v). length pre + 2 + i) (member_value name ms))"
  using assms
proof (induction ms arbitrary: pre c n rule: members.induct)
  case (2 k v)
  have s: "s = pre @ [c, CHR '' ''] @ uo_json_encode_utf8 (Some k) @ '': '' @ jtext v @ '' }''"
    using "2.prems"(1) by (simp add: uo_json_encode_kvp_def)
  let ?q = "length pre + length (uo_json_encode_utf8 (Some k)) + 4"
  define P where "P = pre @ [c, CHR '' ''] @ uo_json_encode_utf8 (Some k) @ '': '' @ jtext v"
  have P: "P @ '' }'' = s" "length P = ?q + length (jtext v)" by (simp_all add: P_def s)
  have "strchr (P @ '' }'') (length P) CHR '','' = None" by (simp add: strchr_None)
  then have "strchr s (?q + length (jtext v)) CHR '','' = None" by (simp only: P)
  with find_value_step [OF s "2.prems"(3), of n name] show ?case by (simp add: ends_value_def)
next
  case (3 k v m ms)
  let ?ms = "m # ms"
  have s: "s = pre @ [c, CHR '' ''] @ uo_json_encode_utf8 (Some k) @ '': '' @ jtext v
      @ ('', '' @ members ?ms @ '' }'')"
    using "3.prems"(1) by (simp add: uo_json_encode_kvp_def)
  let ?q = "length pre + length (uo_json_encode_utf8 (Some k)) + 4"
  define pre' where "pre' = pre @ [c, CHR '' ''] @ uo_json_encode_kvp k (jtext v)"
  have s': "s = pre' @ [CHR '','', CHR '' ''] @ members ?ms @ '' }''"
    using "3.prems"(1) by (simp add: pre'_def)
  have lp: "length pre' = ?q + length (jtext v)" by (simp add: pre'_def uo_json_encode_kvp_def)
  have "strchr s (?q + length (jtext v)) CHR '','' = Some (length pre')"
    unfolding lp [symmetric] s' using strchr_here [of pre' "CHR '',''"] by simp
  moreover obtain n' where n: "n = Suc n'" using "3.prems"(4) by (cases n) auto
  moreover have "find_value_loop (Suc n') s name (length pre')
      = ret (map_option (\<lambda>(i, v). length pre' + 2 + i) (member_value name ?ms))"
    using "3.prems"(4) n by (intro "3.IH" [OF s']) simp_all
  ultimately have "find_value_loop (Suc n) s name (length pre) =
      (if name = json_body k then ret (Some ?q)
       else ret (map_option (\<lambda>(i, v). length pre' + 2 + i) (member_value name ?ms)))"
    using find_value_step [OF s "3.prems"(3), of n name] by (simp add: ends_value_def)
  then show ?case
    by (auto simp: pre'_def option.map_comp comp_def case_prod_beta ac_simps intro!: option.map_cong)
qed simp

lemma member_value_find:
  "map_option snd (member_value name ms) = map_option snd (find (\<lambda>(k, v). json_body k = name) ms)"
  by (induction name ms rule: member_value.induct) (auto simp: option.map_comp comp_def case_prod_beta)

lemma member_value_text:
  "member_value name ms = Some (i, v) \<Longrightarrow> prefix (jtext v) (drop i (members ms @ ys))"
proof (induction ms arbitrary: i rule: members.induct)
  case (2 k w)
  then show ?case by (auto simp: uo_json_encode_kvp_def split: if_splits)
next
  case (3 k w m ms)
  show ?case
  proof (cases "name = json_body k")
    case True
    with "3.prems" show ?thesis by (auto simp: uo_json_encode_kvp_def)
  next
    case False
    with "3.prems" obtain j where j: "member_value name (m # ms) = Some (j, v)"
      "i = length (uo_json_encode_kvp k (jtext w)) + 2 + j" by auto
    have "drop i (members ((k, w) # m # ms) @ ys) = drop j (members (m # ms) @ ys)"
      by (simp add: j(2))
    with "3.IH" [OF j(1)] show ?thesis by simp
  qed
qed simp

section \<open>Properties\<close>

text \<open>
  C15: decoding inverts encoding for every byte string: control characters, quotes and
  backslashes are escaped by \<^verbatim>\<open>uo_json_encode_utf8\<close> and restored by \<^verbatim>\<open>uo_json_decode_utf8\<close>,
  and bytes above 127 pass unchanged.
\<close>

theorem uo_json_decode_encode:
  "uo_json_decode_utf8 (uo_json_encode_utf8 (Some s) @ rest) (length (uo_json_encode_utf8 (Some s)))
     = Inr (Some s)"
proof -
  have e: "uo_json_encode_utf8 (Some s) = CHR 0x22 # json_body s @ [CHR 0x22]"
    by (simp add: uo_json_encode_utf8_def)
  show ?thesis by (simp add: uo_json_decode_utf8_def e decode_loop_body nth_append)
qed

text \<open>
  C20: on an object as the library writes it, \<^verbatim>\<open>uo_json_find_value\<close> returns, without reading
  out of bounds, the position of the value of the first member whose key text is the given
  name, and \<^verbatim>\<open>NULL\<close> when there is none, whatever quotes, braces, commas or escapes the keys
  and the string values hold.
\<close>

theorem uo_json_find_value_object:
  assumes "ms \<noteq> []"
  shows "case find (\<lambda>(k, v). json_body k = name) ms of
      None \<Rightarrow> uo_json_find_value (json_object ms) name = Some (Inr None)
    | Some (k, v) \<Rightarrow> \<exists>p. uo_json_find_value (json_object ms) name = Some (Inr (Some p))
                       \<and> prefix (jtext v) (drop p (json_object ms))"
proof -
  have obj: "json_object ms = [] @ [CHR ''{'', CHR '' ''] @ members ms @ '' }''"
    by (simp add: json_object_def)
  have "length ms \<le> length (members ms) + 1" for ms
    by (induction ms rule: members.induct) auto
  then have n: "length ms \<le> length (json_object ms)" by (simp add: json_object_def le_SucI)
  have "skip_while isspace (json_object ms) 0 = 0" "chr_at (json_object ms) 0 = CHR ''{''"
    by (simp_all add: skip_while.simps obj isspace_def)
  then have r: "uo_json_find_value (json_object ms) name
      = Some (Inr (map_option (\<lambda>(i, v). 2 + i) (member_value name ms)))"
    using find_value_members [OF obj assms _ n, of name] by (simp add: uo_json_find_value_def)
  show ?thesis
  proof (cases "member_value name ms")
    case None
    with member_value_find [of name ms] r show ?thesis by (auto split: option.splits)
  next
    case (Some iv)
    obtain i v where iv: "iv = (i, v)" by fastforce
    have "prefix (jtext v) (drop (2 + i) (json_object ms))"
      using member_value_text [of name ms i v "'' }''"] Some iv by (simp add: json_object_def)
    moreover obtain k where "find (\<lambda>(k, v). json_body k = name) ms = Some (k, v)"
      using member_value_find [of name ms] Some iv by (auto simp: map_option_case split: option.splits)
    ultimately show ?thesis using r Some iv by auto
  qed
qed

theorem uo_json_find_value_object_witness:
  "\<exists>p. uo_json_find_value (json_object [(''sub'', JStr [CHR 0x22, CHR ''}'', CHR '','']), (''exp'', JUint 17)]) ''exp''
       = Some (Inr (Some p))
     \<and> prefix ''17'' (drop p (json_object [(''sub'', JStr [CHR 0x22, CHR ''}'', CHR '','']), (''exp'', JUint 17)]))"
proof -
  have b: "json_body ''sub'' = ''sub''" "json_body ''exp'' = ''exp''"
    by (simp_all add: json_body_def json_encode_char_def iscntrl_def)
  have "decimal 17 = ''17''" by (simp add: decimal.simps char_of_def bit_0)
  then have t: "jtext (JUint 17) = ''17''" by (simp add: uo_json_encode_uint64_def)
  from uo_json_find_value_object [of "[(''sub'', JStr [CHR 0x22, CHR ''}'', CHR '','']), (''exp'', JUint 17)]" "''exp''"]
  show ?thesis by (simp add: b t del: jtext.simps)
qed





text \<open>
  The searches read out of bounds on some malformed text: here an object that ends right
  after a number is accepted as far as its terminator, and the next search starts behind it.
\<close>

lemma uo_json_find_end_overrun:
  "uo_json_find_end [CHR ''{'', CHR 0x22, CHR ''}'', CHR 0x22, CHR '':'', CHR ''1''] 0
     = Some (Inl OutOfBounds)"
  by code_simp

text \<open>A number directly followed by the closing brace is not accepted.\<close>

lemma uo_json_find_end_number_before_brace:
  "uo_json_find_end [CHR ''{'', CHR 0x22, CHR ''a'', CHR 0x22, CHR '':'', CHR ''1'', CHR ''}''] 0
     = Some (Inr None)"
  by code_simp

text \<open>
  The end of an object that is followed by a comma is taken to be the end of the enclosing
  text: the search for the next member runs past the closing brace.
\<close>

lemma uo_json_find_end_nested_object:
  "uo_json_find_end [CHR ''{'', CHR 0x22, CHR ''b'', CHR 0x22, CHR '':'', CHR ''1'', CHR '' '', CHR ''}'',
     CHR '','', CHR 0x22, CHR ''c'', CHR 0x22, CHR '':'', CHR ''2'', CHR '' '', CHR ''}''] 0
   = Some (Inr (Some 16))"
  by code_simp

end
