(* ===== verification/Jwt.thy ===== *)
theory Jwt
  imports Base64 Json
begin

text \<open>
  \<^verbatim>\<open>uo_jwt/src/uo_jwt.c\<close>: signed tokens over byte-addressed memory. The token is assembled in
  one buffer, and both of its parts are base64url-encoded in place. HMAC-SHA256 is OpenSSL's:
  a parameter from the key and the message to the digest, of which the code relies on the
  length, 32 bytes.
\<close>

definition bytes :: "string \<Rightarrow> byte list" where
  "bytes s = map of_char s"

definition dot :: byte where
  "dot = of_char CHR ''.''"

definition memchr :: "memory \<Rightarrow> nat \<Rightarrow> byte \<Rightarrow> nat \<Rightarrow> nat option" where
  "memchr m p c n = map_option (\<lambda>i. p + i) (find_idx (\<lambda>x. x = c) (mem_read m p n))"

text \<open>\<^verbatim>\<open>uo_mem_append_str_literal\<close>: copy a literal and return the end of the copy.\<close>

definition uo_mem_append_str_literal :: "memory \<Rightarrow> nat \<Rightarrow> string \<Rightarrow> memory \<times> nat" where
  "uo_mem_append_str_literal m p s = (mem_write m p (bytes s), p + length s)"

definition jwt_hs256_header :: string where
  "jwt_hs256_header =
     ''{ '' @ [CHR 0x22] @ ''alg'' @ [CHR 0x22] @ '': '' @ [CHR 0x22] @ ''HS256'' @ [CHR 0x22] @ '', ''
     @ [CHR 0x22] @ ''typ'' @ [CHR 0x22] @ '': '' @ [CHR 0x22] @ ''JWT'' @ [CHR 0x22] @ '' }''"

text \<open>\<open>lit\<close> is where the program's literal with the header text is stored.\<close>

definition uo_jwt_hs256_append_header :: "nat \<Rightarrow> memory \<Rightarrow> nat \<Rightarrow> memory \<times> nat" where
  "uo_jwt_hs256_append_header lit m dst =
     (let (m, p) = uo_base64url_encode m dst lit 32
      in uo_mem_append_str_literal m p ''.{ '')"

text \<open>\<^verbatim>\<open>uo_jwt_append_claim\<close>, given the text of the value.\<close>

definition uo_jwt_append_claim :: "memory \<Rightarrow> nat \<Rightarrow> string \<Rightarrow> string \<Rightarrow> memory \<times> nat" where
  "uo_jwt_append_claim m dst name val =
     uo_mem_append_str_literal m dst (uo_json_encode_kvp name val @ '', '')"

definition uo_jwt_hs256_append_signature ::
  "(byte list \<Rightarrow> byte list \<Rightarrow> byte list) \<Rightarrow> memory \<Rightarrow> nat \<Rightarrow> nat \<Rightarrow> byte list \<Rightarrow> memory \<times> nat" where
  "uo_jwt_hs256_append_signature HMAC m dst jwt_header key =
     (let p = dst - 2;
          (m, p) = uo_mem_append_str_literal m p '' }'';
          jwt_payload = jwt_header + 44;
          (m, p) = uo_base64url_encode m jwt_payload jwt_payload (p - jwt_payload);
          (m, p) = uo_mem_append_str_literal m p ''.'';
          m = mem_write m p (HMAC key (mem_read m jwt_header ((p - 1) - jwt_header)));
          (m, p) = uo_base64url_encode m p p 32
      in (m(p := 0), p))"

text \<open>
  \<open>hs256\<close> is the address of the local buffer. The length given to the second
  \<^verbatim>\<open>memchr\<close> is \<^verbatim>\<open>jwt_len - (jwt - payload)\<close>, which adds the length of the header instead of
  subtracting it.
\<close>

definition uo_jwt_verify ::
  "(byte list \<Rightarrow> byte list \<Rightarrow> byte list) \<Rightarrow> nat \<Rightarrow> memory \<Rightarrow> nat \<Rightarrow> nat \<Rightarrow> byte list \<Rightarrow> bool" where
  "uo_jwt_verify HMAC hs256 m jwt jwt_len key =
     (case memchr m jwt dot jwt_len of
        None \<Rightarrow> False
      | Some header_end \<Rightarrow>
          let payload = header_end + 1 in
          (case memchr m payload dot (jwt_len + (payload - jwt)) of
             None \<Rightarrow> False
           | Some payload_end \<Rightarrow>
               let signature = payload_end + 1 in
               if int (jwt + jwt_len) - int signature \<noteq> 43 then False
               else
                 let m = mem_write m hs256 (HMAC key (mem_read m jwt (payload_end - jwt)));
                     (m, p) = uo_base64url_encode m hs256 hs256 32
                 in mem_read m signature 43 = mem_read m hs256 43))"

definition uo_jwt_decode_payload ::
  "memory \<Rightarrow> nat option \<Rightarrow> nat \<Rightarrow> nat \<Rightarrow> memory \<times> nat option" where
  "uo_jwt_decode_payload m dst jwt jwt_len =
     (case memchr m jwt dot (jwt_len - 1) of
        None \<Rightarrow> (m, None)
      | Some header_end \<Rightarrow>
          let jwt_payload = header_end + 1 in
          (case memchr m jwt_payload dot (jwt_len - (jwt_payload - jwt)) of
             None \<Rightarrow> (m, None)
           | Some jwt_payload_end \<Rightarrow>
               let dst = (case dst of None \<Rightarrow> jwt_payload | Some d \<Rightarrow> d);
                   (m, fin) = uo_base64url_decode m dst jwt_payload (jwt_payload_end - jwt_payload)
               in (m(fin := 0), Some dst)))"

section \<open>The dot separates the parts\<close>

lemma dot_notin_btoa_url: "dot \<notin> set btoa_url"
  by (simp add: btoa_url_def dot_def)

lemma dot_notin_b64url: "dot \<notin> set (b64url bs)"
proof -
  have "btoa_url ! unat w \<noteq> dot" if "unat w < 64" for w :: byte
    using that dot_notin_btoa_url by (metis length_btoa(2) nth_mem)
  note * = this [OF sextets(1)] this [OF sextets(2)] this [OF sextets(3)] this [OF sextets(4)]
    this [OF sextets(5)] this [OF sextets(6)]
  have e3: "dot \<notin> set (enc3 btoa_url a b c)" for a b c
    unfolding enc3_def set_simps using * by (metis insertE empty_iff)
  have e2: "dot \<notin> set (enc2 btoa_url a b)" for a b
    unfolding enc2_def set_simps using * by (metis insertE empty_iff)
  have e1: "dot \<notin> set (enc1 btoa_url a)" for a
    unfolding enc1_def set_simps using * by (metis insertE empty_iff)
  show ?thesis
    by (induction bs rule: b64url.induct) (simp_all add: e1 e2 e3)
qed

lemma memchr_read:
  assumes "mem_read m p n = xs @ c # ys" and "c \<notin> set xs"
  shows "memchr m p c n = Some (p + length xs)"
  using assms find_idx_append_first [of xs "\<lambda>x. x = c" c ys] by (auto simp: memchr_def)

lemma length_b64url_32 [simp]: "length bs = 32 \<Longrightarrow> length (b64url bs) = 43"
  by (simp add: length_b64url)

lemma mem_read_1: "mem_read m p 1 = [m p]"
  by (simp add: mem_read_def)

text \<open>What the encoders leave of other parts of memory.\<close>

lemma mem_read_outside:
  "same_outside q k m m' \<Longrightarrow> p + n \<le> q \<or> q + k \<le> p \<Longrightarrow> mem_read m' p n = mem_read m p n"
  by (rule mem_read_cong) (auto simp: same_outside_def)

lemma mem_read_fun_upd_outside:
  "q < p \<or> p + n \<le> q \<Longrightarrow> mem_read (m(q := x)) p n = mem_read m p n"
  by (rule mem_read_cong) auto

lemma base64url_in_place:
  assumes "mem_read m p n = bs" and "n < 2 ^ 62"
  obtains m' where "uo_base64url_encode m p p n = (m', p + length (b64url bs))"
    "mem_read m' p (length (b64url bs)) = b64url bs" "same_outside p (length (b64url bs)) m m'"
proof -
  obtain m' fin where e: "uo_base64url_encode m p p n = (m', fin)" by fastforce
  have "encode_safe p p (length (b64url (mem_read m p n)))" by (simp add: encode_safe_def)
  from base64url_encode_correct [OF assms(2) this e] assms(1) that e show ?thesis by auto
qed

section \<open>Signing\<close>

text \<open>The parts of a token, as the code lays them out.\<close>

definition token :: "(byte list \<Rightarrow> byte list \<Rightarrow> byte list) \<Rightarrow> byte list \<Rightarrow> byte list \<Rightarrow> byte list \<Rightarrow> byte list" where
  "token HMAC key header payload =
     header @ [dot] @ b64url payload @ [dot] @ b64url (HMAC key (header @ [dot] @ b64url payload))"

lemma append_signature_correct:
  assumes HMAC: "\<And>k msg. length (HMAC k msg) = 32"
    and hdr: "mem_read m jwt 43 = H" "m (jwt + 43) = dot"
    and body: "mem_read m (jwt + 44) n = body" and n: "n + 2 < 2 ^ 62"
    and dst: "dst = jwt + 44 + n + 2"
  shows "\<exists>m' p. uo_jwt_hs256_append_signature HMAC m dst jwt key = (m', p)
      \<and> mem_read m' jwt (p - jwt) = token HMAC key H (body @ bytes '' }'')
      \<and> p = jwt + length (token HMAC key H (body @ bytes '' }'')) \<and> m' p = 0
      \<and> (\<forall>a. a < jwt \<or> p < a \<and> dst \<le> a \<longrightarrow> m' a = m a)"
proof -
  define pay where "pay = body @ bytes '' }''"
  have lb: "length body = n" using body by auto
  have lp: "length pay = n + 2" using lb by (simp add: pay_def bytes_def)
  define m1 where "m1 = mem_write m (jwt + 44 + n) (bytes '' }'')"
  have s1: "same_outside (jwt + 44 + n) 2 m m1"
    by (auto simp: same_outside_def m1_def mem_write_def bytes_def)
  have "mem_read m1 (jwt + 44) n = body" using mem_read_outside [OF s1, of "jwt + 44" n] body by simp
  moreover have "mem_read m1 (jwt + 44 + n) 2 = bytes '' }''"
    unfolding m1_def by (rule mem_read_write_same) (simp add: bytes_def)
  ultimately have pay1: "mem_read m1 (jwt + 44) (n + 2) = pay" by (simp only: mem_read_add pay_def)
  obtain m2 where m2: "uo_base64url_encode m1 (jwt + 44) (jwt + 44) (n + 2) = (m2, jwt + 44 + length (b64url pay))"
    "mem_read m2 (jwt + 44) (length (b64url pay)) = b64url pay"
    "same_outside (jwt + 44) (length (b64url pay)) m1 m2"
    using base64url_in_place [OF pay1 n] by blast
  define P where "P = b64url pay"
  define q where "q = jwt + 44 + length P"
  define m3 where "m3 = mem_write m2 q (bytes ''.'')"
  have m3: "m3 = m2(q := dot)" by (auto simp: m3_def mem_write_def bytes_def dot_def)
  have msg: "mem_read m3 jwt (q - jwt) = H @ [dot] @ P"
  proof -
    have "mem_read m3 jwt 43 = H"
      unfolding m3 by (subst mem_read_fun_upd_outside)
        (simp_all add: q_def mem_read_outside [OF m2(3)] mem_read_outside [OF s1] hdr)
    moreover have "m3 (jwt + 43) = dot"
      using hdr(2) same_outsideD [OF m2(3), of "jwt + 43"] same_outsideD [OF s1, of "jwt + 43"]
      by (simp add: m3 q_def)
    moreover have "mem_read m3 (jwt + 44) (length P) = P"
      unfolding m3 by (subst mem_read_fun_upd_outside) (simp_all add: q_def P_def m2(2))
    moreover have "q - jwt = 43 + (1 + length P)" "jwt + 43 + 1 = jwt + 44" by (simp_all add: q_def)
    ultimately show ?thesis by (simp only: mem_read_add mem_read_1 append_assoc)
  qed
  define S where "S = HMAC key (H @ [dot] @ P)"
  define m4 where "m4 = mem_write m3 (q + 1) S"
  have lS: "length S = 32" by (simp add: S_def HMAC)
  have s4: "same_outside (q + 1) 32 m3 m4" by (auto simp: same_outside_def m4_def mem_write_def lS)
  have S4: "mem_read m4 (q + 1) 32 = S" by (simp add: m4_def mem_read_write_same lS)
  obtain m5 where m5: "uo_base64url_encode m4 (q + 1) (q + 1) 32 = (m5, q + 1 + length (b64url S))"
    "mem_read m5 (q + 1) (length (b64url S)) = b64url S" "same_outside (q + 1) (length (b64url S)) m4 m5"
    using base64url_in_place [OF S4] by auto
  define p where "p = q + 1 + length (b64url S)"
  define m' where "m' = m5(p := 0)"
  have res: "uo_jwt_hs256_append_signature HMAC m dst jwt key = (m', p)"
  proof -
    have d: "dst - 2 = jwt + 44 + n" "jwt + 44 + n + 2 - (jwt + 44) = n + 2" "q + 1 - 1 - jwt = q - jwt"
      by (simp_all add: dst)
    have lits: "uo_mem_append_str_literal m (jwt + 44 + n) '' }'' = (m1, jwt + 44 + n + 2)"
      "uo_mem_append_str_literal m2 q ''.'' = (m3, q + 1)"
      by (simp_all add: uo_mem_append_str_literal_def m1_def m3_def)
    show ?thesis
      unfolding uo_jwt_hs256_append_signature_def Let_def d lits prod.case m2(1) P_def [symmetric]
        q_def [symmetric] msg S_def [symmetric] m4_def [symmetric] m5(1) p_def [symmetric] m'_def ..
  qed
  have whole: "mem_read m' jwt (p - jwt) = H @ [dot] @ P @ [dot] @ b64url S"
  proof -
    have "mem_read m' jwt (q - jwt) = H @ [dot] @ P"
      unfolding m'_def msg [symmetric]
      by (subst mem_read_fun_upd_outside)
        (simp_all add: p_def q_def mem_read_outside [OF m5(3)] mem_read_outside [OF s4])
    moreover have "m' q = dot"
      using same_outsideD [OF m5(3), of q] same_outsideD [OF s4, of q] by (simp add: m'_def p_def m3)
    moreover have "mem_read m' (q + 1) (length (b64url S)) = b64url S"
      unfolding m'_def using m5(2) by (subst mem_read_fun_upd_outside) (simp_all add: p_def)
    moreover have "p - jwt = (q - jwt) + (1 + length (b64url S))" "jwt + (q - jwt) = q"
      by (simp_all add: p_def q_def)
    ultimately show ?thesis by (simp only: mem_read_add mem_read_1 append_assoc)
  qed
  have tok: "H @ [dot] @ P @ [dot] @ b64url S = token HMAC key H pay" by (simp add: token_def P_def S_def)
  have "length H = 43" using hdr(1) by auto
  then have len: "p = jwt + length (token HMAC key H pay)" by (simp add: tok [symmetric] p_def q_def)
  have out: "m' a = m a" if "a < jwt \<or> p < a \<and> dst \<le> a" for a
  proof -
    from that have "a < jwt + 44 \<or> jwt + 44 + length P \<le> a" "a \<noteq> q" "a < q + 1 \<or> p \<le> a" "a \<noteq> p"
      "a < jwt + 44 + n \<or> jwt + 44 + n + 2 \<le> a"
      by (auto simp: p_def q_def dst)
    then show ?thesis
      using same_outsideD [OF m5(3), of a] same_outsideD [OF s4, of a] same_outsideD [OF m2(3), of a]
        same_outsideD [OF s1, of a] lS
      by (auto simp: m'_def m3 p_def P_def)
  qed
  show ?thesis
    using res whole [unfolded tok] len out unfolding pay_def [symmetric]
    by (intro exI [of _ m'] exI [of _ p]) (simp add: m'_def)
qed

section \<open>Verifying\<close>

lemma memchr_Some:
  "memchr m p c n = Some q \<longleftrightarrow> p \<le> q \<and> q < p + n \<and> m q = c \<and> c \<notin> set (mem_read m p (q - p))"
proof -
  have notin: "c \<notin> set (mem_read m p i) \<longleftrightarrow> (\<forall>j < i. m (p + j) \<noteq> c)" for i
    by (auto simp: mem_read_def)
  have "memchr m p c n = Some q \<longleftrightarrow> (\<exists>i. q = p + i \<and> i < n \<and> m (p + i) = c \<and> (\<forall>j < i. m (p + j) \<noteq> c))"
    by (auto simp: memchr_def find_idx_Some)
  also have "\<dots> \<longleftrightarrow> p \<le> q \<and> q < p + n \<and> m q = c \<and> c \<notin> set (mem_read m p (q - p))"
    unfolding notin by (auto intro!: exI [of _ "q - p"])
  finally show ?thesis .
qed

text \<open>The comparison at the end, when the three parts have been found.\<close>

lemma verify_compare:
  assumes HMAC: "\<And>k msg. length (HMAC k msg) = 32"
    and buf: "hs256 + 43 \<le> sig \<or> sig + 43 \<le> hs256"
  shows "(let m' = mem_write m hs256 (HMAC key msg); (m', p) = uo_base64url_encode m' hs256 hs256 32
          in mem_read m' sig 43 = mem_read m' hs256 43)
    \<longleftrightarrow> mem_read m sig 43 = b64url (HMAC key msg)"
proof -
  define m1 where "m1 = mem_write m hs256 (HMAC key msg)"
  have r: "mem_read m1 hs256 32 = HMAC key msg" by (simp add: m1_def mem_read_write_same HMAC)
  obtain m2 where m2: "uo_base64url_encode m1 hs256 hs256 32 = (m2, hs256 + length (b64url (HMAC key msg)))"
    "mem_read m2 hs256 (length (b64url (HMAC key msg))) = b64url (HMAC key msg)"
    "same_outside hs256 (length (b64url (HMAC key msg))) m1 m2"
    using base64url_in_place [OF r] by auto
  have l: "length (b64url (HMAC key msg)) = 43" by (simp add: HMAC)
  have "mem_read m2 sig 43 = mem_read m1 sig 43" using m2(3) buf by (intro mem_read_outside) (auto simp: l)
  also have "\<dots> = mem_read m sig 43"
    unfolding m1_def using buf by (intro mem_read_write_disjoint) (auto simp: HMAC)
  finally show ?thesis using m2(1,2) by (simp add: m1_def l)
qed

lemma mem_read_split_at:
  assumes "p \<le> q" and "q < p + n"
  shows "mem_read m p n = mem_read m p (q - p) @ [m q] @ mem_read m (q + 1) (p + n - (q + 1))"
proof -
  have "n = (q - p) + (1 + (p + n - (q + 1)))" "p + (q - p) = q" using assms by simp_all
  then show ?thesis by (metis mem_read_add mem_read_1)
qed

lemma verify_iff:
  assumes HMAC: "\<And>k msg. length (HMAC k msg) = 32"
    and buf: "hs256 + 43 \<le> jwt \<or> jwt + n \<le> hs256"
  shows "uo_jwt_verify HMAC hs256 m jwt n key \<longleftrightarrow>
    (\<exists>h p. mem_read m jwt n = h @ [dot] @ p @ [dot] @ b64url (HMAC key (h @ [dot] @ p))
        \<and> dot \<notin> set h \<and> dot \<notin> set p)"
proof
  assume "uo_jwt_verify HMAC hs256 m jwt n key"
  then obtain he pe where he: "memchr m jwt dot n = Some he"
    and pe: "memchr m (he + 1) dot (n + (he + 1 - jwt)) = Some pe"
    and len: "int (jwt + n) - int (pe + 1) = 43"
    and cmp: "(let m' = mem_write m hs256 (HMAC key (mem_read m jwt (pe - jwt)));
          (m', p) = uo_base64url_encode m' hs256 hs256 32
          in mem_read m' (pe + 1) 43 = mem_read m' hs256 43)"
    by (auto simp: uo_jwt_verify_def Let_def split: option.splits if_splits)
  note he' = he [unfolded memchr_Some] and pe' = pe [unfolded memchr_Some]
  have l: "jwt + n = pe + 1 + 43" using len by linarith
  define h p where "h = mem_read m jwt (he - jwt)" and "p = mem_read m (he + 1) (pe - (he + 1))"
  have hp: "mem_read m jwt (pe - jwt) = h @ [dot] @ p"
    using mem_read_split_at [of jwt he "pe - jwt" m] he' pe' by (simp add: h_def p_def)
  have "mem_read m jwt n = mem_read m jwt (pe - jwt) @ [m pe] @ mem_read m (pe + 1) 43"
    using mem_read_split_at [of jwt pe n m] he' pe' l by simp
  moreover have "hs256 + 43 \<le> pe + 1 \<or> pe + 1 + 43 \<le> hs256" using buf l he' pe' by auto
  from verify_compare [of HMAC, OF HMAC this] cmp
  have "mem_read m (pe + 1) 43 = b64url (HMAC key (h @ [dot] @ p))" by (simp only: hp)
  ultimately show "\<exists>h p. mem_read m jwt n = h @ [dot] @ p @ [dot] @ b64url (HMAC key (h @ [dot] @ p))
        \<and> dot \<notin> set h \<and> dot \<notin> set p"
    using he' pe' hp by (intro exI [of _ h] exI [of _ p]) (simp add: h_def p_def)
next
  assume "\<exists>h p. mem_read m jwt n = h @ [dot] @ p @ [dot] @ b64url (HMAC key (h @ [dot] @ p))
        \<and> dot \<notin> set h \<and> dot \<notin> set p"
  then obtain h p where eq: "mem_read m jwt n = h @ [dot] @ p @ [dot] @ b64url (HMAC key (h @ [dot] @ p))"
    and nd: "dot \<notin> set h" "dot \<notin> set p" by blast
  define he pe where "he = jwt + length h" and "pe = jwt + length h + 1 + length p"
  have n: "n = length h + 1 + length p + 1 + 43"
    using arg_cong [OF eq, of length] by (simp add: HMAC)
  have parts: "mem_read m jwt (length h) = h" "m he = dot" "mem_read m (he + 1) (length p) = p" "m pe = dot"
      "mem_read m (pe + 1) 43 = b64url (HMAC key (h @ [dot] @ p))" "mem_read m jwt (pe - jwt) = h @ [dot] @ p"
  proof -
    have "mem_read m jwt (length h + (1 + (length p + (1 + 43))))
        = h @ [dot] @ p @ [dot] @ b64url (HMAC key (h @ [dot] @ p))"
      using eq by (simp only: n add.assoc)
    then have "mem_read m jwt (length h) = h \<and> m he = dot \<and> mem_read m (he + 1) (length p) = p \<and> m pe = dot
        \<and> mem_read m (pe + 1) 43 = b64url (HMAC key (h @ [dot] @ p))"
      unfolding mem_read_add mem_read_1 by (simp add: append_eq_append_conv HMAC he_def pe_def add.assoc)
    moreover have "mem_read m jwt (pe - jwt) = mem_read m jwt (length h) @ [m he] @ mem_read m (he + 1) (length p)"
    proof -
      have "pe - jwt = length h + (1 + length p)" by (simp add: pe_def)
      then show ?thesis by (simp only: mem_read_add mem_read_1 he_def)
    qed
    ultimately show "mem_read m jwt (length h) = h" "m he = dot" "mem_read m (he + 1) (length p) = p" "m pe = dot"
      "mem_read m (pe + 1) 43 = b64url (HMAC key (h @ [dot] @ p))" "mem_read m jwt (pe - jwt) = h @ [dot] @ p"
      by simp_all
  qed
  have "memchr m jwt dot n = Some he"
    using parts nd by (simp add: memchr_Some he_def n)
  moreover have "memchr m (he + 1) dot (n + (he + 1 - jwt)) = Some pe"
    using parts nd by (simp add: memchr_Some he_def pe_def n)
  moreover have "int (jwt + n) - int (pe + 1) = 43" by (simp add: n pe_def)
  moreover have "hs256 + 43 \<le> pe + 1 \<or> pe + 1 + 43 \<le> hs256" using buf by (auto simp: n pe_def)
  ultimately show "uo_jwt_verify HMAC hs256 m jwt n key"
    using verify_compare [of HMAC, OF HMAC, of hs256 "pe + 1" m key "h @ [dot] @ p"] parts
    by (simp add: uo_jwt_verify_def Let_def)
qed

section \<open>Reading the payload\<close>

lemma decode_payload_token:
  assumes "mem_read m jwt n = h @ [dot] @ b64url pay @ [dot] @ sig" and "dot \<notin> set h" and "sig \<noteq> []"
  shows "\<exists>m'. uo_jwt_decode_payload m None jwt n = (m', Some (jwt + length h + 1))
      \<and> mem_read m' (jwt + length h + 1) (length pay) = pay \<and> m' (jwt + length h + 1 + length pay) = 0"
proof -
  define P q where "P = b64url pay" and "q = jwt + length h + 1"
  have n: "n = length h + 1 + length P + 1 + length sig"
    using arg_cong [OF assms(1), of length] by (simp add: P_def)
  have "mem_read m jwt (length h + (1 + (length P + (1 + length sig)))) = h @ [dot] @ P @ [dot] @ sig"
    using assms(1) by (simp add: n P_def add.assoc)
  then have parts: "mem_read m jwt (length h) = h" "m (jwt + length h) = dot" "mem_read m q (length P) = P"
      "m (q + length P) = dot"
    unfolding mem_read_add mem_read_1 by (simp_all add: append_eq_append_conv q_def add.assoc)
  have hd: "memchr m jwt dot (n - 1) = Some (jwt + length h)"
    using parts assms(2) by (simp add: memchr_Some n)
  have pl: "memchr m q dot (n - (q - jwt)) = Some (q + length P)"
    using parts assms(3) dot_notin_b64url [of pay]
    by (cases sig) (simp_all add: memchr_Some n q_def P_def)
  obtain m' fin where d: "uo_base64url_decode m q q (length P) = (m', fin)" by fastforce
  have "decode_safe q q (length P)" by (simp add: decode_safe_def)
  from base64url_decode_correct [OF parts(3) [unfolded P_def] this [unfolded P_def] d [unfolded P_def]]
  have dec: "fin = q + length pay" "mem_read m' q (length pay) = pay" by simp_all
  have "uo_jwt_decode_payload m None jwt n = (m'(fin := 0), Some q)"
    using hd pl d by (simp add: uo_jwt_decode_payload_def Let_def q_def)
  moreover have "mem_read (m'(fin := 0)) q (length pay) = pay"
    using dec by (subst mem_read_fun_upd_outside) simp_all
  ultimately show ?thesis using dec(1) by (auto simp: q_def)
qed

section \<open>Properties\<close>

text \<open>
  C4: a token accepts its own signature: after \<^verbatim>\<open>uo_jwt_hs256_append_signature\<close> has completed
  the claims in the buffer, the buffer holds header, payload and signature separated by dots
  and terminated, \<^verbatim>\<open>uo_jwt_verify\<close> accepts it with the same key, and
  \<^verbatim>\<open>uo_jwt_decode_payload\<close> gives back, in place, the claims as a closed object. The message
  authentication code is any function with digests of 32 bytes.
\<close>

theorem uo_jwt_sign_verify:
  assumes "\<forall>k msg. length (HMAC k msg) = 32"
    and "mem_read m jwt 43 = H" and "dot \<notin> set H" and "m (jwt + 43) = dot"
    and "mem_read m (jwt + 44) n = body" and "n + 2 < 2 ^ 62" and "dst = jwt + 44 + n + 2"
  shows "\<exists>m' p. uo_jwt_hs256_append_signature HMAC m dst jwt key = (m', p) \<and> m' p = 0
      \<and> mem_read m' jwt (p - jwt) = token HMAC key H (body @ bytes '' }'')
      \<and> (\<forall>hs256. hs256 + 43 \<le> jwt \<or> p \<le> hs256 \<longrightarrow> uo_jwt_verify HMAC hs256 m' jwt (p - jwt) key)
      \<and> (\<exists>m''. uo_jwt_decode_payload m' None jwt (p - jwt) = (m'', Some (jwt + 44))
           \<and> mem_read m'' (jwt + 44) (n + 2) = body @ bytes '' }'' \<and> m'' (jwt + 44 + (n + 2)) = 0)"
proof -
  have HMAC: "length (HMAC k msg) = 32" for k msg using assms(1) by blast
  let ?pay = "body @ bytes '' }''"
  obtain m' p where sig: "uo_jwt_hs256_append_signature HMAC m dst jwt key = (m', p)"
    "mem_read m' jwt (p - jwt) = token HMAC key H ?pay" "p = jwt + length (token HMAC key H ?pay)" "m' p = 0"
    using append_signature_correct [of HMAC, OF HMAC assms(2,4,5,6,7)] by blast
  have tok: "mem_read m' jwt (p - jwt)
      = H @ [dot] @ b64url ?pay @ [dot] @ b64url (HMAC key (H @ [dot] @ b64url ?pay))"
    using sig(2) by (simp add: token_def)
  have ver: "uo_jwt_verify HMAC hs256 m' jwt (p - jwt) key" if "hs256 + 43 \<le> jwt \<or> p \<le> hs256" for hs256
    using that sig(3) tok dot_notin_b64url assms(3) by (subst verify_iff [of HMAC, OF HMAC]) auto
  have l: "length H = 43" "length ?pay = n + 2" "jwt + 43 + 1 = jwt + 44" using assms(2,5) by (auto simp: bytes_def)
  have "length (b64url (HMAC key (H @ [dot] @ b64url ?pay))) = 43" by (simp add: HMAC)
  then have "b64url (HMAC key (H @ [dot] @ b64url ?pay)) \<noteq> []" by auto
  then have "\<exists>m''. uo_jwt_decode_payload m' None jwt (p - jwt) = (m'', Some (jwt + 44))
           \<and> mem_read m'' (jwt + 44) (n + 2) = ?pay \<and> m'' (jwt + 44 + (n + 2)) = 0"
    using decode_payload_token [OF tok assms(3)] by (simp only: l simp_thms)
  with sig ver show ?thesis by blast
qed

theorem uo_jwt_sign_verify_witness:
  "\<exists>m' p. uo_jwt_hs256_append_signature (\<lambda>k msg. replicate 32 7) ((\<lambda>_. 65)(43 := dot)) 50 0 [1, 2] = (m', p)
     \<and> m' p = 0 \<and> uo_jwt_verify (\<lambda>k msg. replicate 32 7) p m' 0 p [1, 2]"
proof -
  have "mem_read ((\<lambda>_. 65)(43 := dot)) 0 43 = replicate 43 65"
    "mem_read ((\<lambda>_. 65)(43 := dot)) (0 + 44) 4 = replicate 4 65"
    by (rule nth_equalityI; simp)+
  moreover have "dot \<notin> set (replicate 43 (65 :: byte))" by (simp add: dot_def)
  ultimately show ?thesis
    using uo_jwt_sign_verify [of "\<lambda>k msg. replicate 32 7" "(\<lambda>_. 65)(43 := dot)" 0 "replicate 43 65" 4
        "replicate 4 65" 50 "[1, 2]"]
    by fastforce
qed

text \<open>
  C12: \<^verbatim>\<open>uo_jwt_verify\<close> accepts exactly the tokens of two dot-free parts followed by the
  base64url text of the digest of these parts under the key: nothing else, of any length, is
  accepted.
\<close>

theorem uo_jwt_verify_exact:
  assumes "\<forall>k msg. length (HMAC k msg) = 32" and "hs256 + 43 \<le> jwt \<or> jwt + n \<le> hs256"
  shows "uo_jwt_verify HMAC hs256 m jwt n key \<longleftrightarrow>
    (\<exists>h p. mem_read m jwt n = h @ [dot] @ p @ [dot] @ b64url (HMAC key (h @ [dot] @ p))
        \<and> dot \<notin> set h \<and> dot \<notin> set p)"
  using assms by (intro verify_iff) auto

theorem uo_jwt_verify_exact_witness:
  "\<not> uo_jwt_verify (\<lambda>k msg. replicate 32 7) 100 (\<lambda>_. dot) 0 2 []"
proof -
  have l: "length (b64url (replicate 32 7)) = 43" by simp
  have "mem_read (\<lambda>_. dot) 0 2 \<noteq> h @ [dot] @ p @ [dot] @ b64url (replicate 32 7)" for h p
  proof
    assume "mem_read (\<lambda>_. dot) 0 2 = h @ [dot] @ p @ [dot] @ b64url (replicate 32 7)"
    from arg_cong [OF this, of length] show False using l by simp
  qed
  then show ?thesis
    using uo_jwt_verify_exact [of "\<lambda>k msg. replicate 32 7" 100 0 2 "\<lambda>_. dot" "[]"] by simp
qed

end
