(* ===== verification/Linklist.thy ===== *)
theory Linklist
  imports Prelude
begin

text \<open>
  \<^verbatim>\<open>uo_linklist/src/include/uo_linklist/uo_linklist.h\<close>: circular doubly linked lists whose
  links are embedded in other structs. The link fields of all objects form a heap from
  addresses to successors and predecessors; \<^term>\<open>None\<close> is \<^verbatim>\<open>NULL\<close>. The abstraction of a
  head is the list of the links that follow it.
\<close>

record 'n links =
  nxt :: "'n \<Rightarrow> 'n option"
  prv :: "'n \<Rightarrow> 'n option"

definition set_next :: "'n links \<Rightarrow> 'n \<Rightarrow> 'n option \<Rightarrow> 'n links" where
  "set_next h n x = h\<lparr> nxt := (nxt h)(n := x) \<rparr>"

definition set_prev :: "'n links \<Rightarrow> 'n \<Rightarrow> 'n option \<Rightarrow> 'n links" where
  "set_prev h n x = h\<lparr> prv := (prv h)(n := x) \<rparr>"

lemma links_simps [simp]:
  "nxt (set_next h n x) = (nxt h)(n := x)" "prv (set_next h n x) = prv h"
  "prv (set_prev h n x) = (prv h)(n := x)" "nxt (set_prev h n x) = nxt h"
  by (simp_all add: set_next_def set_prev_def)

definition deref :: "'a option \<Rightarrow> 'a cres" where
  "deref p = (case p of None \<Rightarrow> Inl NullDeref | Some x \<Rightarrow> Inr x)"

lemma deref_Some [simp]: "deref (Some x) = Inr x"
  by (simp add: deref_def)

section \<open>Operations\<close>

definition uo_linklist_next :: "'n links \<Rightarrow> 'n \<Rightarrow> 'n option" where
  "uo_linklist_next h link = nxt h link"

definition uo_linklist_prev :: "'n links \<Rightarrow> 'n \<Rightarrow> 'n option" where
  "uo_linklist_prev h link = prv h link"

definition uo_linklist_selflink :: "'n links \<Rightarrow> 'n \<Rightarrow> 'n links" where
  "uo_linklist_selflink h head = set_next (set_prev h head (Some head)) head (Some head)"

definition uo_linklist_reset :: "'n links \<Rightarrow> 'n \<Rightarrow> 'n links" where
  "uo_linklist_reset h link = set_next (set_prev h link None) link None"

definition uo_linklist_is_empty :: "'n links \<Rightarrow> 'n \<Rightarrow> bool" where
  "uo_linklist_is_empty h head \<longleftrightarrow> nxt h head = Some head"

definition uo_linklist_is_linked :: "'n links \<Rightarrow> 'n \<Rightarrow> bool" where
  "uo_linklist_is_linked h link \<longleftrightarrow> nxt h link \<noteq> None"

definition uo_linklist_link :: "'n links \<Rightarrow> 'n \<Rightarrow> 'n \<Rightarrow> 'n links cres" where
  "uo_linklist_link h pos link =
     (if uo_linklist_is_linked h link then Inl AssertFailed
      else
        let h = set_prev h link (prv h pos)
        in res_bind (deref (prv h link)) (\<lambda>p.
           let h = set_next h p (Some link);
               h = set_next h link (Some pos)
           in Inr (set_prev h pos (Some link))))"

definition uo_linklist_unlink :: "'n links \<Rightarrow> 'n \<Rightarrow> 'n links cres" where
  "uo_linklist_unlink h link =
     res_bind (deref (nxt h link)) (\<lambda>n.
       let h = set_prev h n (prv h link) in
       res_bind (deref (prv h link)) (\<lambda>p.
         Inr (uo_linklist_reset (set_next h p (nxt h link)) link)))"

section \<open>The list a head stands for\<close>

text \<open>
  \<open>chain h a ns b\<close>: from \<open>a\<close> the successors are \<open>ns\<close> and then \<open>b\<close>, and every predecessor
  points back.
\<close>

fun chain :: "'n links \<Rightarrow> 'n \<Rightarrow> 'n list \<Rightarrow> 'n \<Rightarrow> bool" where
  "chain h a [] b \<longleftrightarrow> nxt h a = Some b \<and> prv h b = Some a"
| "chain h a (n # ns) b \<longleftrightarrow> nxt h a = Some n \<and> prv h n = Some a \<and> chain h n ns b"

definition clist :: "'n links \<Rightarrow> 'n \<Rightarrow> 'n list \<Rightarrow> bool" where
  "clist h head ns \<longleftrightarrow> distinct (head # ns) \<and> chain h head ns head"

lemma chain_append:
  "chain h a (xs @ n # ys) b \<longleftrightarrow> chain h a xs n \<and> chain h n ys b"
  by (induction xs arbitrary: a) auto

lemma chain_cong:
  assumes "chain h a ns b"
    and "\<And>x. x \<in> set (a # ns) \<Longrightarrow> nxt h' x = nxt h x"
    and "\<And>x. x \<in> set (ns @ [b]) \<Longrightarrow> prv h' x = prv h x"
  shows "chain h' a ns b"
  using assms by (induction ns arbitrary: a) auto

lemma chain_prev_end: "chain h a ns b \<Longrightarrow> prv h b = Some (last (a # ns))"
  by (induction ns arbitrary: a) auto

lemma chain_next_start: "chain h a ns b \<Longrightarrow> nxt h a = Some (hd (ns @ [b]))"
  by (cases ns) auto

lemma chain_linked: "chain h a ns b \<Longrightarrow> x \<in> set (a # ns) \<Longrightarrow> nxt h x \<noteq> None"
  by (induction ns arbitrary: a) auto

text \<open>Walking \<open>n\<close> successors, as the clients iterate a list.\<close>

fun walk :: "'n links \<Rightarrow> 'n \<Rightarrow> nat \<Rightarrow> 'n list cres" where
  "walk h a 0 = Inr []"
| "walk h a (Suc n) =
     res_bind (deref (uo_linklist_next h a)) (\<lambda>x. res_bind (walk h x n) (\<lambda>xs. Inr (x # xs)))"

lemma walk_chain: "chain h a ns b \<Longrightarrow> walk h a (length ns) = Inr ns"
  by (induction ns arbitrary: a) (simp_all add: uo_linklist_next_def)

lemma chain_unique:
  "chain h a ns b \<Longrightarrow> chain h a ms b \<Longrightarrow> b \<notin> set ns \<Longrightarrow> b \<notin> set ms \<Longrightarrow> ns = ms"
proof (induction ns arbitrary: a ms)
  case Nil
  then show ?case by (cases ms) auto
next
  case (Cons n ns)
  then show ?case by (cases ms) auto
qed

lemma clist_unique: "clist h hd ns \<Longrightarrow> clist h hd ms \<Longrightarrow> ns = ms"
  by (auto simp: clist_def intro: chain_unique)

lemma clist_selflink: "clist (uo_linklist_selflink h head) head []"
  by (simp add: clist_def uo_linklist_selflink_def)

lemma clist_is_empty: "clist h head ns \<Longrightarrow> uo_linklist_is_empty h head \<longleftrightarrow> ns = []"
  by (cases ns) (auto simp: clist_def uo_linklist_is_empty_def)

lemma clist_linked: "clist h head ns \<Longrightarrow> n \<in> set ns \<Longrightarrow> uo_linklist_is_linked h n"
  using chain_linked by (fastforce simp: clist_def uo_linklist_is_linked_def)

text \<open>
  Linking before a position of a chain, and unlinking from it, as local changes: the
  chain around the place is rearranged and nothing outside it changes.
\<close>

lemma link_chain:
  assumes "chain h a xs pos" and "distinct (a # xs)" and "n \<notin> set (a # xs)" and "n \<noteq> pos"
    and "pos \<notin> set xs" and "\<not> uo_linklist_is_linked h n"
  shows "\<exists>h'. uo_linklist_link h pos n = Inr h' \<and> chain h' a (xs @ [n]) pos
           \<and> (\<forall>x. x \<notin> set (a # xs) \<and> x \<noteq> n \<longrightarrow> nxt h' x = nxt h x)
           \<and> (\<forall>x. x \<noteq> pos \<and> x \<noteq> n \<longrightarrow> prv h' x = prv h x)"
proof -
  define p where "p = last (a # xs)"
  have p: "prv h pos = Some p" using chain_prev_end [OF assms(1)] by (simp add: p_def)
  define h' where "h' = set_prev (set_next (set_next (set_prev h n (Some p)) p (Some n)) n (Some pos))
      pos (Some n)"
  have r: "uo_linklist_link h pos n = Inr h'"
    using assms(4,6) p by (simp add: uo_linklist_link_def Let_def h'_def)
  have "chain h' a (xs @ [n]) pos"
  proof (cases xs rule: rev_cases)
    case Nil
    with assms show ?thesis by (auto simp: h'_def p_def)
  next
    case (snoc ys y)
    then have y: "p = y" by (simp add: p_def)
    from assms(1) snoc have ch: "chain h a ys y" "nxt h y = Some pos"
      by (simp_all add: chain_append)
    have "chain h' a ys y"
      by (rule chain_cong [OF ch(1)]) (use assms snoc y in \<open>auto simp: h'_def\<close>)
    then show ?thesis using assms snoc y by (auto simp: chain_append h'_def)
  qed
  moreover have "p \<in> set (a # xs)" by (simp add: p_def)
  then have "\<forall>x. x \<notin> set (a # xs) \<and> x \<noteq> n \<longrightarrow> nxt h' x = nxt h x"
    by (auto simp: h'_def)
  moreover have "\<forall>x. x \<noteq> pos \<and> x \<noteq> n \<longrightarrow> prv h' x = prv h x" by (simp add: h'_def)
  ultimately show ?thesis using r by blast
qed

lemma clist_link_end:
  assumes "clist h head ns" and "n \<notin> set (head # ns)" and "\<not> uo_linklist_is_linked h n"
  shows "\<exists>h'. uo_linklist_link h head n = Inr h' \<and> clist h' head (ns @ [n])
           \<and> (\<forall>x. x \<notin> set (head # ns) \<and> x \<noteq> n \<longrightarrow> nxt h' x = nxt h x)"
  using link_chain [of h head ns head n] assms by (auto simp: clist_def)

lemma clist_link_before:
  assumes "clist h head (xs @ pos # ys)" and "n \<notin> set (head # xs @ pos # ys)"
    and "\<not> uo_linklist_is_linked h n"
  shows "\<exists>h'. uo_linklist_link h pos n = Inr h' \<and> clist h' head (xs @ n # pos # ys)"
proof -
  have ch: "chain h head xs pos" "chain h pos ys head"
    using assms(1) by (simp_all add: clist_def chain_append)
  obtain h' where h': "uo_linklist_link h pos n = Inr h'" "chain h' head (xs @ [n]) pos"
    "\<forall>x. x \<notin> set (head # xs) \<and> x \<noteq> n \<longrightarrow> nxt h' x = nxt h x"
    "\<forall>x. x \<noteq> pos \<and> x \<noteq> n \<longrightarrow> prv h' x = prv h x"
    using link_chain [OF ch(1), of n] assms by (auto simp: clist_def)
  have "chain h' pos ys head"
    by (rule chain_cong [OF ch(2)]) (use h' assms in \<open>auto simp: clist_def\<close>)
  then have "chain h' head (xs @ [n] @ pos # ys) head"
    using h'(2) chain_append [of h' head "xs @ [n]" pos ys head] by simp
  with assms h'(1) show ?thesis by (auto simp: clist_def)
qed

lemma clist_unlink:
  assumes "clist h head (xs @ n # ys)"
  shows "\<exists>h'. uo_linklist_unlink h n = Inr h' \<and> clist h' head (xs @ ys)
           \<and> \<not> uo_linklist_is_linked h' n
           \<and> (\<forall>x. x \<notin> set (head # xs @ n # ys) \<longrightarrow> nxt h' x = nxt h x)"
proof -
  have d: "distinct (head # xs @ n # ys)" and ch: "chain h head xs n" "chain h n ys head"
    using assms by (simp_all add: clist_def chain_append)
  define p s where "p = last (head # xs)" and "s = hd (ys @ [head])"
  have ps: "prv h n = Some p" "nxt h n = Some s"
    using chain_prev_end [OF ch(1)] chain_next_start [OF ch(2)] by (simp_all add: p_def s_def)
  have pin: "p \<in> set (head # xs)" unfolding p_def by (rule last_in_set) simp
  have sin: "s \<in> set (ys @ [head])" unfolding s_def by (rule hd_in_set) simp
  from pin sin d have neq: "n \<noteq> p" "n \<noteq> s" by auto
  define h' where "h' = uo_linklist_reset (set_next (set_prev h s (Some p)) p (Some s)) n"
  have r: "uo_linklist_unlink h n = Inr h'"
    using ps neq by (simp add: uo_linklist_unlink_def Let_def h'_def)
  have nx: "nxt h' = (nxt h)(p := Some s, n := None)" and pv: "prv h' = (prv h)(s := Some p, n := None)"
    by (simp_all add: h'_def uo_linklist_reset_def)
  have front: "chain h' head xs' p" if "xs = xs' @ [p]" for xs'
  proof -
    have "chain h head xs' p" using ch(1) that by (simp add: chain_append)
    then show ?thesis
      by (rule chain_cong) (use d sin that in \<open>auto simp: nx pv\<close>)
  qed
  have rear: "chain h' s ys' head" if "ys = s # ys'" for ys'
  proof -
    have "chain h s ys' head" using ch(2) that by simp
    then show ?thesis
      by (rule chain_cong) (use d pin that in \<open>auto simp: nx pv\<close>)
  qed
  have ps': "nxt h' p = Some s" "prv h' s = Some p" using neq by (simp_all add: nx pv)
  have "chain h' head (xs @ ys) head"
  proof (cases ys)
    case Nil
    then have s: "s = head" by (simp add: s_def)
    show ?thesis
    proof (cases xs rule: rev_cases)
      case Nil
      with \<open>ys = []\<close> ps' s show ?thesis by (simp add: p_def)
    next
      case (snoc xs' x)
      then have "x = p" by (simp add: p_def)
      with snoc \<open>ys = []\<close> front [of xs'] ps' s show ?thesis by (simp add: chain_append)
    qed
  next
    case (Cons y ys')
    then have y: "y = s" by (simp add: s_def)
    have "chain h' head xs s"
    proof (cases xs rule: rev_cases)
      case Nil
      with ps' show ?thesis by (simp add: p_def)
    next
      case (snoc xs' x)
      then have "x = p" by (simp add: p_def)
      with snoc front [of xs'] ps' show ?thesis by (simp add: chain_append)
    qed
    with Cons y rear [of ys'] show ?thesis by (simp add: chain_append)
  qed
  moreover have "\<not> uo_linklist_is_linked h' n" by (simp add: uo_linklist_is_linked_def nx)
  moreover have "\<forall>x. x \<notin> set (head # xs @ n # ys) \<longrightarrow> nxt h' x = nxt h x"
    using pin by (auto simp: nx)
  ultimately show ?thesis using r d by (auto simp: clist_def)
qed

text \<open>Taking the head itself out of its circle, as the hash table does when it resizes.\<close>

lemma unlink_head:
  assumes "clist h head ns"
  shows "\<exists>h'. uo_linklist_unlink h head = Inr h'
           \<and> (\<forall>x. x \<noteq> head \<and> x \<noteq> last (head # ns) \<longrightarrow> nxt h' x = nxt h x)"
proof -
  have ch: "chain h head ns head" using assms by (simp add: clist_def)
  show ?thesis
    using chain_prev_end [OF ch] chain_next_start [OF ch]
    by (auto simp: uo_linklist_unlink_def uo_linklist_reset_def Let_def)
qed

section \<open>What an operation leaves alone\<close>

text \<open>
  The heap holds many lists. Linking to a list and unlinking from it change the fields of
  the link and of the members of that list only.
\<close>

definition same_at :: "'n links \<Rightarrow> 'n links \<Rightarrow> 'n \<Rightarrow> bool" where
  "same_at h h' x \<longleftrightarrow> nxt h' x = nxt h x \<and> prv h' x = prv h x"

lemma same_at_refl [simp]: "same_at h h x"
  by (simp add: same_at_def)

lemma same_at_trans: "same_at h h' x \<Longrightarrow> same_at h' h'' x \<Longrightarrow> same_at h h'' x"
  by (simp add: same_at_def)

lemma same_at_linked:
  "same_at h h' x \<Longrightarrow> uo_linklist_is_linked h' x \<longleftrightarrow> uo_linklist_is_linked h x"
  by (simp add: same_at_def uo_linklist_is_linked_def)

lemma clist_cong:
  assumes "clist h head ns" and "\<And>x. x \<in> set (head # ns) \<Longrightarrow> same_at h h' x"
  shows "clist h' head ns"
proof -
  have "chain h' head ns head"
    by (rule chain_cong [of h]) (use assms in \<open>auto simp: clist_def same_at_def\<close>)
  with assms(1) show ?thesis by (simp add: clist_def)
qed

lemma clist_neighbours:
  assumes "clist h head ns" and "x \<in> set (head # ns)"
  shows "\<exists>a b. nxt h x = Some a \<and> prv h x = Some b \<and> a \<in> set (head # ns) \<and> b \<in> set (head # ns)"
proof (cases "x = head")
  case True
  have ch: "chain h head ns head" using assms(1) by (simp add: clist_def)
  have "hd (ns @ [head]) \<in> set (head # ns)" by (cases ns) simp_all
  moreover have "last (head # ns) \<in> set (head # ns)" by (rule last_in_set) simp
  ultimately show ?thesis using True chain_prev_end [OF ch] chain_next_start [OF ch] by blast
next
  case False
  then obtain xs ys where ns: "ns = xs @ x # ys" using assms(2) split_list by fastforce
  then have ch: "chain h head xs x" "chain h x ys head"
    using assms(1) by (simp_all add: clist_def chain_append)
  have "hd (ys @ [head]) \<in> set (head # ns)" by (cases ys) (simp_all add: ns)
  moreover have "last (head # xs) \<in> set (head # xs)" by (rule last_in_set) simp
  then have "last (head # xs) \<in> set (head # ns)" using ns by auto
  ultimately show ?thesis using chain_prev_end [OF ch(1)] chain_next_start [OF ch(2)] by blast
qed

lemma clist_next_prev:
  assumes "clist h head (xs @ n # ys)"
  shows "nxt h n = Some (hd (ys @ [head]))" "prv h n = Some (last (head # xs))"
  using assms chain_next_start chain_prev_end unfolding clist_def chain_append by fast+

lemma clist_ends:
  assumes "clist h head ns"
  shows "nxt h head = Some (hd (ns @ [head]))" "prv h head = Some (last (head # ns))"
  using assms chain_next_start chain_prev_end unfolding clist_def by fast+

lemma link_frame:
  assumes "uo_linklist_link h pos n = Inr h'" and "clist h head ns" and "pos \<in> set (head # ns)"
    and "x \<notin> set (n # head # ns)"
  shows "same_at h h' x"
proof -
  obtain b where b: "prv h pos = Some b" "b \<in> set (head # ns)"
    using clist_neighbours [OF assms(2,3)] by blast
  with assms(1,3,4) show ?thesis
    by (auto simp: uo_linklist_link_def Let_def same_at_def split: if_splits)
qed

lemma unlink_frame:
  assumes "uo_linklist_unlink h n = Inr h'" and "clist h head ns" and "n \<in> set (head # ns)"
    and "x \<notin> set (head # ns)"
  shows "same_at h h' x"
proof -
  obtain a b where ab: "nxt h n = Some a" "prv h n = Some b" "a \<in> set (head # ns)" "b \<in> set (head # ns)"
    using clist_neighbours [OF assms(2,3)] by blast
  with assms(3,4) have "x \<noteq> a" "x \<noteq> b" "x \<noteq> n" by auto
  with assms(1) ab show ?thesis
    by (auto simp: uo_linklist_unlink_def uo_linklist_reset_def Let_def same_at_def deref_def
        split: if_splits option.splits)
qed

section \<open>Properties\<close>

text \<open>
  C27: \<^verbatim>\<open>uo_linklist_link\<close> inserts an unlinked link directly before the given position, be
  it the head (the new link becomes the last) or a member of the list, and keeps the list a
  circular doubly linked one.
\<close>

theorem uo_linklist_link_inserts:
  assumes "clist h head (xs @ ys)" and "pos = hd (ys @ [head])" and "n \<notin> set (head # xs @ ys)"
    and "\<not> uo_linklist_is_linked h n"
  shows "\<exists>h'. uo_linklist_link h pos n = Inr h' \<and> clist h' head (xs @ n # ys)"
proof (cases ys)
  case Nil
  with assms clist_link_end [of h head xs n] show ?thesis by auto
next
  case (Cons y ys')
  with assms clist_link_before [of h head xs y ys' n] show ?thesis by auto
qed

theorem uo_linklist_link_inserts_witness:
  "\<exists>h'. uo_linklist_link (uo_linklist_selflink \<lparr> nxt = \<lambda>_. None, prv = \<lambda>_. None \<rparr> (0::nat)) 0 1 = Inr h'
     \<and> clist h' 0 [1]"
  using uo_linklist_link_inserts
    [of "uo_linklist_selflink \<lparr> nxt = \<lambda>_. None, prv = \<lambda>_. None \<rparr> (0::nat)" 0 "[]" "[]" 0 1]
  by (simp add: clist_def uo_linklist_is_linked_def uo_linklist_selflink_def)



end
