(* ===== verification/Stack.thy ===== *)
theory Stack
  imports Util
begin

text \<open>
  \<^verbatim>\<open>uo_stack/src/include/uo_stack/uo_stack.h\<close>: the growing array behind most components.
  The array is a list as long as its capacity whose slots are \<^term>\<open>None\<close> until they are
  stored to. Allocation is taken to succeed. The abstraction of a stack is the list of its
  items, bottom first.
\<close>

record 'a uo_stack =
  st_items :: "'a option list"
  st_count :: nat
  st_capacity :: nat

definition UO_STACK_MIN_CAPACITY :: nat where
  "UO_STACK_MIN_CAPACITY = 0x4"

definition next_power_of_two :: "64 word \<Rightarrow> 64 word" where
  "next_power_of_two n =
     (let n = n - 1;
          n = n OR drop_bit 1 n;
          n = n OR drop_bit 2 n;
          n = n OR drop_bit 4 n;
          n = n OR drop_bit 8 n;
          n = n OR drop_bit 16 n;
          n = n OR drop_bit 32 n
      in n + 1)"

text \<open>\<^verbatim>\<open>realloc\<close> keeps the common prefix; the slots it adds hold nothing yet.\<close>

definition realloc :: "'a option list \<Rightarrow> nat \<Rightarrow> 'a option list" where
  "realloc xs n = take n xs @ replicate (n - length xs) None"

definition load :: "'a option list \<Rightarrow> int \<Rightarrow> 'a cres" where
  "load xs i =
     (if i < 0 \<or> int (length xs) \<le> i then Inl OutOfBounds
      else case xs ! nat i of None \<Rightarrow> Inl Uninitialised | Some x \<Rightarrow> Inr x)"

text \<open>\<open>store xs i ys\<close> copies \<open>ys\<close> to the slots from \<open>i\<close> on.\<close>

definition store :: "'a option list \<Rightarrow> int \<Rightarrow> 'a option list \<Rightarrow> 'a option list cres" where
  "store xs i ys =
     (if i < 0 \<or> int (length xs) < i + int (length ys) then Inl OutOfBounds
      else Inr (take (nat i) xs @ ys @ drop (nat i + length ys) xs))"

section \<open>Operations\<close>

definition uo_stack_create_at :: "nat \<Rightarrow> 'a uo_stack" where
  "uo_stack_create_at initial_capacity =
     (let capacity = (if UO_STACK_MIN_CAPACITY \<le> initial_capacity
            then unat (next_power_of_two (of_nat initial_capacity))
            else UO_STACK_MIN_CAPACITY)
      in \<lparr> st_items = replicate capacity None, st_count = 0, st_capacity = capacity \<rparr>)"

definition uo_stack_count :: "'a uo_stack \<Rightarrow> nat" where
  "uo_stack_count stack = st_count stack"

text \<open>The reallocation of \<^verbatim>\<open>uo_stack_push\<close> and \<^verbatim>\<open>uo_stack_insert\<close> when the array is full.\<close>

definition grow_full :: "'a uo_stack \<Rightarrow> 'a uo_stack" where
  "grow_full stack =
     (if st_count stack = st_capacity stack
      then stack\<lparr> st_capacity := 2 * st_capacity stack,
                  st_items := realloc (st_items stack) (2 * st_capacity stack) \<rparr>
      else stack)"

text \<open>The reallocation of the array variants, to hold \<open>n\<close> items.\<close>

definition grow_to :: "'a uo_stack \<Rightarrow> nat \<Rightarrow> 'a uo_stack" where
  "grow_to stack n =
     (if st_capacity stack < n
      then let capacity = unat (next_power_of_two (of_nat n))
           in stack\<lparr> st_capacity := capacity, st_items := realloc (st_items stack) capacity \<rparr>
      else stack)"

definition uo_stack_push :: "'a uo_stack \<Rightarrow> 'a \<Rightarrow> 'a uo_stack cres" where
  "uo_stack_push stack item =
     (let count = st_count stack;
          stack = (grow_full stack)\<lparr> st_count := count + 1 \<rparr>
      in res_bind (store (st_items stack) (int count) [Some item]) (\<lambda>its.
         Inr (stack\<lparr> st_items := its \<rparr>)))"

definition uo_stack_push_arr :: "'a uo_stack \<Rightarrow> 'a list \<Rightarrow> 'a uo_stack cres" where
  "uo_stack_push_arr stack arr =
     (let stack_count = length arr + st_count stack;
          stack = grow_to stack stack_count
      in res_bind (store (st_items stack) (int (st_count stack)) (map Some arr)) (\<lambda>its.
         Inr (stack\<lparr> st_items := its, st_count := stack_count \<rparr>)))"

definition uo_stack_pop :: "'a uo_stack \<Rightarrow> ('a \<times> 'a uo_stack) cres" where
  "uo_stack_pop stack =
     (if st_count stack = 0 then Inl AssertFailed
      else
        let count = st_count stack - 1;
            stack = stack\<lparr> st_count := count \<rparr>
        in res_bind (load (st_items stack) (int count)) (\<lambda>item.
           if count = st_capacity stack div 8 \<and> UO_STACK_MIN_CAPACITY \<le> count
           then let capacity = st_capacity stack div 2 in
             Inr (item, stack\<lparr> st_capacity := capacity,
                                st_items := realloc (st_items stack) capacity \<rparr>)
           else Inr (item, stack)))"

definition uo_stack_peek :: "'a uo_stack \<Rightarrow> 'a cres" where
  "uo_stack_peek stack = load (st_items stack) (int (st_count stack) - 1)"

text \<open>A negative index counts from one past the last item.\<close>

definition stack_pos :: "'a uo_stack \<Rightarrow> int \<Rightarrow> int" where
  "stack_pos stack index = (if 0 \<le> index then index else int (st_count stack) + index)"

definition uo_stack_index :: "'a uo_stack \<Rightarrow> int \<Rightarrow> 'a cres" where
  "uo_stack_index stack index = load (st_items stack) (stack_pos stack index)"

text \<open>
  \<^verbatim>\<open>memmove\<close> of the items from \<open>index\<close> up to \<^verbatim>\<open>count\<close>, by \<open>d\<close> slots. A length below zero is
  a wrapped \<^verbatim>\<open>size_t\<close>, far beyond the array.
\<close>

definition shift_up :: "'a option list \<Rightarrow> int \<Rightarrow> nat \<Rightarrow> nat \<Rightarrow> 'a option list cres" where
  "shift_up xs index count d =
     (if index < 0 \<or> int count < index \<or> length xs < count then Inl OutOfBounds
      else store xs (index + int d) (drop (nat index) (take count xs)))"

definition uo_stack_insert :: "'a uo_stack \<Rightarrow> int \<Rightarrow> 'a \<Rightarrow> 'a uo_stack cres" where
  "uo_stack_insert stack index item =
     (let index = stack_pos stack index;
          count = st_count stack;
          stack = (grow_full stack)\<lparr> st_count := count + 1 \<rparr>
      in res_bind (shift_up (st_items stack) index count 1) (\<lambda>its.
         res_bind (store its index [Some item]) (\<lambda>its.
         Inr (stack\<lparr> st_items := its \<rparr>))))"

definition uo_stack_insert_arr :: "'a uo_stack \<Rightarrow> int \<Rightarrow> 'a list \<Rightarrow> 'a uo_stack cres" where
  "uo_stack_insert_arr stack index arr =
     (let index = stack_pos stack index;
          stack_count = length arr + st_count stack;
          stack = grow_to stack stack_count
      in res_bind (shift_up (st_items stack) index (st_count stack) (length arr)) (\<lambda>its.
         res_bind (store its index (map Some arr)) (\<lambda>its.
         Inr (stack\<lparr> st_items := its, st_count := stack_count \<rparr>))))"

section \<open>Invariant and abstraction\<close>

definition stack_inv :: "'a uo_stack \<Rightarrow> bool" where
  "stack_inv s \<longleftrightarrow>
     length (st_items s) = st_capacity s \<and> st_count s \<le> st_capacity s
     \<and> UO_STACK_MIN_CAPACITY \<le> st_capacity s \<and> (\<exists>k. st_capacity s = 2 ^ k)
     \<and> None \<notin> set (take (st_count s) (st_items s))"

definition stack_list :: "'a uo_stack \<Rightarrow> 'a list" where
  "stack_list s = map the (take (st_count s) (st_items s))"

text \<open>The two together: the first slots hold the items of a list.\<close>

definition stack_rel :: "'a uo_stack \<Rightarrow> 'a list \<Rightarrow> bool" where
  "stack_rel s xs \<longleftrightarrow> stack_inv s \<and> stack_list s = xs"

lemma map_Some_the: "None \<notin> set xs \<Longrightarrow> map (Some \<circ> the) xs = xs"
  by (induction xs) auto

lemma stack_rel_iff:
  "stack_rel s xs \<longleftrightarrow>
     st_count s = length xs \<and> length (st_items s) = st_capacity s \<and> length xs \<le> st_capacity s
     \<and> UO_STACK_MIN_CAPACITY \<le> st_capacity s \<and> (\<exists>k. st_capacity s = 2 ^ k)
     \<and> take (length xs) (st_items s) = map Some xs"
proof -
  have "None \<notin> set ys \<and> map the ys = xs \<longleftrightarrow> ys = map Some xs" for ys
  proof
    assume "None \<notin> set ys \<and> map the ys = xs"
    then show "ys = map Some xs" using map_Some_the [of ys] by (metis list.map_comp)
  qed (simp add: image_iff comp_def)
  note * = this [of "take (st_count s) (st_items s)"]
  have "stack_rel s xs \<longleftrightarrow> length (st_items s) = st_capacity s \<and> st_count s \<le> st_capacity s
     \<and> UO_STACK_MIN_CAPACITY \<le> st_capacity s \<and> (\<exists>k. st_capacity s = 2 ^ k)
     \<and> take (st_count s) (st_items s) = map Some xs"
    unfolding stack_rel_def stack_inv_def stack_list_def * [symmetric] by blast
  moreover have "st_count s = length xs"
    if "take (st_count s) (st_items s) = map Some xs" "st_count s \<le> length (st_items s)"
    using arg_cong [OF that(1), of length] that(2) by simp
  ultimately show ?thesis by metis
qed

lemma stack_relD:
  assumes "stack_rel s xs"
  shows "st_count s = length xs" "length (st_items s) = st_capacity s" "length xs \<le> st_capacity s"
    "take (length xs) (st_items s) = map Some xs"
  using assms by (auto simp: stack_rel_iff)

lemma stack_rel_items:
  assumes "stack_rel s xs"
  shows "\<exists>rest. st_items s = map Some xs @ rest"
  by (rule exI [of _ "drop (length xs) (st_items s)"])
     (metis append_take_drop_id stack_relD(4) [OF assms])

lemma stack_rel_update:
  assumes "stack_rel s xs" and "st_capacity s' = st_capacity s" and "st_count s' = length zs"
    and "st_items s' = map Some zs @ rest" and "length zs + length rest = st_capacity s"
  shows "stack_rel s' zs"
proof -
  have "length (st_items s') = st_capacity s'" "length zs \<le> st_capacity s'"
    "take (length zs) (st_items s') = map Some zs"
    using assms by simp_all
  with assms show ?thesis by (auto simp: stack_rel_iff)
qed

lemma next_power_of_two_eq: "next_power_of_two = uo_ceil_pow2"
  by (rule ext) (simp add: next_power_of_two_def uo_ceil_pow2_def)

lemma next_power_of_two_bound:
  assumes "4 \<le> n" and "n \<le> 2 ^ 63"
  shows "n \<le> unat (next_power_of_two (of_nat n))" "\<exists>k. unat (next_power_of_two (of_nat n)) = 2 ^ k"
proof -
  have "0 < n" using assms(1) by simp
  then obtain k where "unat (next_power_of_two (of_nat n)) = 2 ^ k" "n \<le> 2 ^ k"
    unfolding next_power_of_two_eq using assms(2) by (rule uo_ceil_pow2_least)
  then show "n \<le> unat (next_power_of_two (of_nat n))"
    "\<exists>k. unat (next_power_of_two (of_nat n)) = 2 ^ k" by auto
qed

lemma length_realloc [simp]: "length (realloc xs n) = n"
  by (simp add: realloc_def)

lemma take_realloc: "k \<le> n \<Longrightarrow> k \<le> length xs \<Longrightarrow> take k (realloc xs n) = take k xs"
  by (simp add: realloc_def min_def)

lemma stack_rel_create:
  "initial_capacity \<le> 2 ^ 63 \<Longrightarrow> stack_rel (uo_stack_create_at initial_capacity) []"
  using next_power_of_two_bound [of initial_capacity]
  by (auto simp: stack_rel_iff uo_stack_create_at_def UO_STACK_MIN_CAPACITY_def Let_def
      intro: exI [of _ 2])

lemma stack_rel_grow_full:
  assumes "stack_rel s xs"
  shows "stack_rel (grow_full s) xs" "length xs < st_capacity (grow_full s)"
proof -
  from assms obtain k where k: "st_capacity s = 2 ^ k" by (auto simp: stack_rel_iff)
  then have "2 * st_capacity s = 2 ^ Suc k" by simp
  then have "\<exists>k. 2 * st_capacity s = 2 ^ k" by blast
  with assms show "stack_rel (grow_full s) xs" "length xs < st_capacity (grow_full s)"
    by (auto simp: stack_rel_iff grow_full_def take_realloc UO_STACK_MIN_CAPACITY_def)
qed

lemma stack_rel_grow_to:
  assumes "stack_rel s xs" and "n \<le> 2 ^ 63"
  shows "stack_rel (grow_to s n) xs" "n \<le> st_capacity (grow_to s n)"
proof -
  have "4 \<le> st_capacity s" using assms(1) by (simp add: stack_rel_iff UO_STACK_MIN_CAPACITY_def)
  with assms next_power_of_two_bound [of n]
  show "stack_rel (grow_to s n) xs" "n \<le> st_capacity (grow_to s n)"
    by (auto simp: stack_rel_iff grow_to_def Let_def take_realloc UO_STACK_MIN_CAPACITY_def)
qed

text \<open>Storing a list of items after a gap-free prefix.\<close>

lemma store_items:
  assumes "st_items s = map Some xs @ rest" and "length xs + length ys \<le> length (st_items s)"
  shows "store (st_items s) (int (length xs)) (map Some ys)
           = Inr (map Some (xs @ ys) @ drop (length ys) rest)"
  using assms by (simp add: store_def)

lemma insert_items:
  assumes s: "st_items s = map Some xs @ rest" and fits: "length xs + length ys \<le> length (st_items s)"
    and i: "i \<le> length xs"
  shows "res_bind (shift_up (st_items s) (int i) (length xs) (length ys))
           (\<lambda>its. store its (int i) (map Some ys))
         = Inr (map Some (take i xs @ ys @ drop i xs) @ drop (length ys) rest)"
proof -
  define its where "its = take (i + length ys) (map Some xs @ rest) @ map Some (drop i xs)
      @ drop (length ys) rest"
  have "shift_up (st_items s) (int i) (length xs) (length ys) = Inr its"
    using fits i by (simp add: shift_up_def store_def s its_def drop_map nat_add_distrib)
  moreover have "take i its = map Some (take i xs)" using i by (simp add: its_def take_map)
  moreover have "drop (i + length ys) its = map Some (drop i xs) @ drop (length ys) rest"
    using fits i by (simp add: its_def s)
  moreover have "i + length ys \<le> length its" using fits i by (simp add: its_def s)
  ultimately show ?thesis by (simp add: store_def)
qed

section \<open>The operations on the abstraction\<close>

lemma stack_rel_push:
  assumes "stack_rel s xs"
  shows "\<exists>s'. uo_stack_push s x = Inr s' \<and> stack_rel s' (xs @ [x])"
proof -
  note g = stack_rel_grow_full [OF assms]
  obtain rest where r: "st_items (grow_full s) = map Some xs @ rest"
    using stack_rel_items [OF g(1)] by blast
  have "store (st_items (grow_full s)) (int (length xs)) (map Some [x])
      = Inr (map Some (xs @ [x]) @ drop (length [x]) rest)"
    using g by (intro store_items r) (simp add: stack_relD)
  with g assms r show ?thesis by (auto simp: uo_stack_push_def Let_def stack_rel_iff)
qed

lemma stack_rel_push_arr:
  assumes "stack_rel s xs" and "length xs + length ys \<le> 2 ^ 63"
  shows "\<exists>s'. uo_stack_push_arr s ys = Inr s' \<and> stack_rel s' (xs @ ys)"
proof -
  have n: "length ys + length xs \<le> 2 ^ 63" using assms(2) by simp
  define g where "g = grow_to s (length ys + length xs)"
  have g: "stack_rel g xs" "length ys + length xs \<le> st_capacity g"
    using stack_rel_grow_to [OF assms(1) n] by (simp_all add: g_def)
  obtain rest where r: "st_items g = map Some xs @ rest"
    using stack_rel_items [OF g(1)] by blast
  have "store (st_items g) (int (length xs)) (map Some ys)
      = Inr (map Some (xs @ ys) @ drop (length ys) rest)"
    using g by (intro store_items r) (simp add: stack_relD)
  with g assms(1) r show ?thesis
    by (auto simp: uo_stack_push_arr_def Let_def stack_rel_iff g_def [symmetric])
qed

lemma load_items:
  "st_items s = map Some xs @ rest \<Longrightarrow> i < length xs \<Longrightarrow> load (st_items s) (int i) = Inr (xs ! i)"
  by (simp add: load_def nth_append)

lemma stack_rel_pop:
  assumes "stack_rel s (xs @ [x])"
  shows "\<exists>s'. uo_stack_pop s = Inr (x, s') \<and> stack_rel s' xs"
proof -
  obtain rest where r: "st_items s = map Some (xs @ [x]) @ rest"
    using stack_rel_items [OF assms] by blast
  have l: "load (st_items s) (int (length xs)) = Inr x"
    using load_items [OF r, of "length xs"] by simp
  obtain k where k: "st_capacity s = 2 ^ k" using assms by (auto simp: stack_rel_iff)
  define shrink where "shrink \<longleftrightarrow> length xs = st_capacity s div 8 \<and> UO_STACK_MIN_CAPACITY \<le> length xs"
  show ?thesis
  proof (cases shrink)
    case False
    with assms l r show ?thesis by (auto simp: uo_stack_pop_def Let_def stack_rel_iff shrink_def)
  next
    case True
    then have b: "8 * length xs \<le> st_capacity s" "4 \<le> length xs"
      by (simp_all add: shrink_def UO_STACK_MIN_CAPACITY_def)
    then have "k \<noteq> 0" using k by (intro notI) simp
    then have "st_capacity s div 2 = 2 ^ (k - 1)" by (simp add: k power_diff)
    then have "\<exists>k. st_capacity s div 2 = 2 ^ k" by blast
    moreover have "take (length xs) (realloc (st_items s) (st_capacity s div 2)) = map Some xs"
      using assms b by (subst take_realloc) (auto simp: stack_rel_iff r)
    moreover have "4 \<le> st_capacity s div 2" "length xs \<le> st_capacity s div 2" using b by linarith+
    ultimately show ?thesis
      using True assms l
      by (simp add: uo_stack_pop_def Let_def stack_rel_iff shrink_def UO_STACK_MIN_CAPACITY_def)
  qed
qed

lemma stack_pos_Inr:
  assumes "stack_rel s xs"
  shows "0 \<le> index \<Longrightarrow> stack_pos s index = index"
    "index < 0 \<Longrightarrow> stack_pos s index = int (length xs) + index"
  using assms by (simp_all add: stack_pos_def stack_relD)

lemma stack_rel_insert:
  assumes "stack_rel s xs" and i: "stack_pos s index = int i" "i \<le> length xs"
  shows "\<exists>s'. uo_stack_insert s index x = Inr s' \<and> stack_rel s' (take i xs @ [x] @ drop i xs)"
proof -
  note g = stack_rel_grow_full [OF assms(1)]
  obtain rest where r: "st_items (grow_full s) = map Some xs @ rest"
    using stack_rel_items [OF g(1)] by blast
  have "res_bind (shift_up (st_items (grow_full s)) (int i) (length xs) (length [x]))
           (\<lambda>its. store its (int i) (map Some [x]))
         = Inr (map Some (take i xs @ [x] @ drop i xs) @ drop (length [x]) rest)"
    using g i by (intro insert_items r) (simp_all add: stack_relD)
  then obtain its where its: "shift_up (st_items (grow_full s)) (int i) (length xs) 1 = Inr its"
    "store its (int i) [Some x] = Inr (map Some (take i xs @ [x] @ drop i xs) @ drop 1 rest)"
    by (auto simp: res_bind_eq_Inr)
  let ?s' = "(grow_full s)\<lparr>st_count := length xs + 1,
      st_items := map Some (take i xs @ [x] @ drop i xs) @ drop 1 rest\<rparr>"
  have "length xs + length rest = st_capacity (grow_full s)" using g(1) r by (simp add: stack_rel_iff)
  then have "stack_rel ?s' (take i xs @ [x] @ drop i xs)"
    using g i by (intro stack_rel_update [OF g(1), where rest = "drop 1 rest"]) simp_all
  moreover have "uo_stack_insert s index x = Inr ?s'"
    using its i(1) stack_relD(1) [OF assms(1)] by (simp add: uo_stack_insert_def Let_def)
  ultimately show ?thesis by blast
qed

lemma stack_rel_insert_arr:
  assumes "stack_rel s xs" and i: "stack_pos s index = int i" "i \<le> length xs"
    and "length xs + length ys \<le> 2 ^ 63"
  shows "\<exists>s'. uo_stack_insert_arr s index ys = Inr s' \<and> stack_rel s' (take i xs @ ys @ drop i xs)"
proof -
  have n: "length ys + length xs \<le> 2 ^ 63" using assms(4) by simp
  define g where "g = grow_to s (length ys + length xs)"
  have g: "stack_rel g xs" "length ys + length xs \<le> st_capacity g"
    using stack_rel_grow_to [OF assms(1) n] by (simp_all add: g_def)
  obtain rest where r: "st_items g = map Some xs @ rest"
    using stack_rel_items [OF g(1)] by blast
  have "res_bind (shift_up (st_items g) (int i) (length xs) (length ys))
           (\<lambda>its. store its (int i) (map Some ys))
         = Inr (map Some (take i xs @ ys @ drop i xs) @ drop (length ys) rest)"
    using g i by (intro insert_items r) (simp_all add: stack_relD)
  then obtain its where its: "shift_up (st_items g) (int i) (length xs) (length ys) = Inr its"
    "store its (int i) (map Some ys) = Inr (map Some (take i xs @ ys @ drop i xs) @ drop (length ys) rest)"
    by (auto simp: res_bind_eq_Inr)
  let ?s' = "g\<lparr>st_items := map Some (take i xs @ ys @ drop i xs) @ drop (length ys) rest,
      st_count := length ys + length xs\<rparr>"
  have "length xs + length rest = st_capacity g" using g(1) r by (simp add: stack_rel_iff)
  then have "stack_rel ?s' (take i xs @ ys @ drop i xs)"
    using g i by (intro stack_rel_update [OF g(1), where rest = "drop (length ys) rest"]) simp_all
  moreover have "uo_stack_insert_arr s index ys = Inr ?s'"
    using its i(1) stack_relD(1) [OF assms(1)] stack_relD(1) [OF g(1)]
    by (simp add: uo_stack_insert_arr_def Let_def g_def [symmetric])
  ultimately show ?thesis by blast
qed

lemma stack_rel_index:
  assumes "stack_rel s xs" and "stack_pos s index = int i" and "i < length xs"
  shows "uo_stack_index s index = Inr (xs ! i)"
  using stack_rel_items [OF assms(1)] assms(2,3) load_items by (fastforce simp: uo_stack_index_def)

section \<open>The interface other components rely on\<close>

text \<open>
  What a client may assume of a stack: a relation to the list of its items, a push that
  appends and a pop that takes the last item off. The client here pushes a batch and pops
  it again.
\<close>

fun push_each :: "('s \<Rightarrow> 'a \<Rightarrow> 's cres) \<Rightarrow> 's \<Rightarrow> 'a list \<Rightarrow> 's cres" where
  "push_each psh s [] = Inr s"
| "push_each psh s (x # xs) = res_bind (psh s x) (\<lambda>s. push_each psh s xs)"

fun pop_each :: "('s \<Rightarrow> ('a \<times> 's) cres) \<Rightarrow> 's \<Rightarrow> nat \<Rightarrow> ('a list \<times> 's) cres" where
  "pop_each pp s 0 = Inr ([], s)"
| "pop_each pp s (Suc n) =
     res_bind (pp s) (\<lambda>(x, s). res_bind (pop_each pp s n) (\<lambda>(xs, s). Inr (x # xs, s)))"

locale item_stack =
  fixes rel :: "'s \<Rightarrow> 'a list \<Rightarrow> bool"
    and psh :: "'s \<Rightarrow> 'a \<Rightarrow> 's cres"
    and pp :: "'s \<Rightarrow> ('a \<times> 's) cres"
  assumes push_law: "rel s xs \<Longrightarrow> \<exists>s'. psh s x = Inr s' \<and> rel s' (xs @ [x])"
    and pop_law: "rel s (xs @ [x]) \<Longrightarrow> \<exists>s'. pp s = Inr (x, s') \<and> rel s' xs"
begin

lemma push_each_rel: "rel s xs \<Longrightarrow> \<exists>s'. push_each psh s ys = Inr s' \<and> rel s' (xs @ ys)"
proof (induction ys arbitrary: s xs)
  case (Cons y ys)
  obtain s' where "psh s y = Inr s'" "rel s' (xs @ [y])" using push_law [OF Cons.prems] by blast
  with Cons.IH [of s' "xs @ [y]"] show ?case by simp
qed simp

lemma pop_each_rel:
  "rel s (xs @ ys) \<Longrightarrow> \<exists>s'. pop_each pp s (length ys) = Inr (rev ys, s') \<and> rel s' xs"
proof (induction ys arbitrary: s rule: rev_induct)
  case (snoc y ys)
  then have "rel s ((xs @ ys) @ [y])" by simp
  then obtain s' where "pp s = Inr (y, s')" "rel s' (xs @ ys)" using pop_law by blast
  with snoc.IH [of s'] show ?case by auto
qed simp

lemma push_pop_each:
  assumes "rel s xs"
  shows "\<exists>s1 s2. push_each psh s ys = Inr s1 \<and> pop_each pp s1 (length ys) = Inr (rev ys, s2)
           \<and> rel s2 xs"
proof -
  obtain s1 where "push_each psh s ys = Inr s1" "rel s1 (xs @ ys)"
    using push_each_rel [OF assms] by blast
  with pop_each_rel [of s1 xs ys] show ?thesis by blast
qed

end

interpretation uo_stack: item_stack stack_rel uo_stack_push uo_stack_pop
  by unfold_locales (simp_all add: stack_rel_push stack_rel_pop)

section \<open>Properties\<close>

text \<open>
  C23: the stack is last-in first-out through every growth and every shrink of its array:
  pushing any items and popping as many returns them in reverse order, without an access
  outside the array, and restores the contents.
\<close>

theorem uo_stack_lifo:
  assumes "stack_rel s xs"
  shows "\<exists>s1 s2. push_each uo_stack_push s ys = Inr s1
           \<and> pop_each uo_stack_pop s1 (length ys) = Inr (rev ys, s2) \<and> stack_rel s2 xs"
  using assms by (rule uo_stack.push_pop_each)

theorem uo_stack_lifo_witness:
  "\<exists>s1 s2. push_each uo_stack_push (uo_stack_create_at 0) ''abcdefgh'' = Inr s1
     \<and> pop_each uo_stack_pop s1 (length ''abcdefgh'') = Inr (rev ''abcdefgh'', s2) \<and> stack_rel s2 []"
  by (rule uo_stack_lifo, rule stack_rel_create) simp

text \<open>
  \<^verbatim>\<open>uo_stack_insert_arr\<close> places the given items at the given position, moves the later
  ones up and keeps the invariant; a negative index counts from one past the last item, and
  an index outside the stack is refused by an out-of-bounds access, never silently.
\<close>

theorem uo_stack_insert_arr_correct:
  assumes "stack_rel s xs" and "length xs + length ys \<le> 2 ^ 63"
    and i_def: "i = (if 0 \<le> index then index else int (length xs) + index)"
  shows "if 0 \<le> i \<and> i \<le> int (length xs)
    then \<exists>s'. uo_stack_insert_arr s index ys = Inr s'
           \<and> stack_rel s' (take (nat i) xs @ ys @ drop (nat i) xs)
    else uo_stack_insert_arr s index ys = Inl OutOfBounds"
proof (cases "0 \<le> i \<and> i \<le> int (length xs)")
  case True
  have "stack_pos s index = int (nat i)" "nat i \<le> length xs"
    using True stack_pos_Inr [OF assms(1), of index] by (auto simp: i_def)
  from stack_rel_insert_arr [OF assms(1) this assms(2)] True show ?thesis by simp
next
  case False
  have "stack_pos s index = i" using stack_pos_Inr [OF assms(1), of index] by (simp add: i_def)
  moreover have "st_count (grow_to s n) = length xs" for n
    using stack_relD(1) [OF assms(1)] by (simp add: grow_to_def Let_def)
  ultimately show ?thesis using False by (auto simp: uo_stack_insert_arr_def Let_def shift_up_def)
qed

theorem uo_stack_insert_arr_correct_witness:
  "\<exists>s'. uo_stack_insert_arr \<lparr> st_items = [Some CHR ''a'', Some CHR ''b'', None, None], st_count = 2,
       st_capacity = 4 \<rparr> (- 1) ''xyz'' = Inr s' \<and> stack_rel s' ''axyzb''"
proof -
  have "(4::nat) = 2 ^ 2" by simp
  then have "\<exists>k. (4::nat) = 2 ^ k" by blast
  then have "stack_rel \<lparr> st_items = [Some CHR ''a'', Some CHR ''b'', None, None], st_count = 2,
       st_capacity = 4 \<rparr> ''ab''"
    by (simp add: stack_rel_iff UO_STACK_MIN_CAPACITY_def)
  from uo_stack_insert_arr_correct [OF this, of "''xyz''" 1 "- 1"] show ?thesis by simp
qed

text \<open>
  \<^verbatim>\<open>uo_stack_index\<close> and \<^verbatim>\<open>uo_stack_peek\<close> return the items of the abstract list: position
  \<open>i\<close> by \<open>i\<close> and by \<open>i - count\<close>, and the last one.
\<close>

theorem uo_stack_index_correct:
  assumes "stack_rel s xs" and "i < length xs"
  shows "uo_stack_index s (int i) = Inr (xs ! i)
       \<and> uo_stack_index s (int i - int (length xs)) = Inr (xs ! i)
       \<and> uo_stack_peek s = Inr (last xs)"
proof -
  have "stack_pos s (int i) = int i" "stack_pos s (int i - int (length xs)) = int i"
    using stack_pos_Inr [OF assms(1)] assms(2) by simp_all
  moreover have "uo_stack_peek s = Inr (last xs)"
  proof -
    obtain rest where r: "st_items s = map Some xs @ rest" using stack_rel_items [OF assms(1)] by blast
    have "int (st_count s) - 1 = int (length xs - 1)" "length xs - 1 < length xs"
      using assms(2) by (simp_all add: stack_relD(1) [OF assms(1)] of_nat_diff)
    then have "uo_stack_peek s = Inr (xs ! (length xs - 1))"
      using load_items [OF r] by (simp only: uo_stack_peek_def)
    moreover have "xs \<noteq> []" using assms(2) by auto
    ultimately show ?thesis by (simp add: last_conv_nth)
  qed
  ultimately show ?thesis using stack_rel_index [OF assms(1) _ assms(2)] by simp
qed

theorem uo_stack_index_correct_witness:
  "uo_stack_index \<lparr> st_items = [Some (7::nat), Some 8, None, None], st_count = 2, st_capacity = 4 \<rparr> (- 2)
     = Inr 7"
proof -
  have "(4::nat) = 2 ^ 2" by simp
  then have "\<exists>k. (4::nat) = 2 ^ k" by blast
  then have "stack_rel \<lparr> st_items = [Some (7::nat), Some 8, None, None], st_count = 2,
       st_capacity = 4 \<rparr> [7, 8]"
    by (simp add: stack_rel_iff UO_STACK_MIN_CAPACITY_def)
  from uo_stack_index_correct [OF this, of 0] show ?thesis by simp
qed

end
