(* ===== verification/Queue.thy ===== *)
theory Queue
  imports Stack
begin

text \<open>
  \<^verbatim>\<open>uo_queue/src/uo_queue.c\<close> and \<^verbatim>\<open>uo_cb/src/uo_cb_queue.c\<close>: bounded ring buffers guarded by
  two counting semaphores, with counters that are advanced atomically and reduced modulo the
  capacity. First the operations as one thread sees them, over counters of 64 bits that wrap
  around; then the interleavings of several threads, as a step relation whose steps are the
  semaphore operations, the atomic increments and the accesses to the array.
\<close>

section \<open>State and operations\<close>

record 'a uo_queue =
  q_items :: "'a option list"
  q_head :: "64 word"
  q_tail :: "64 word"
  q_capasity :: nat
  q_enqueue_sem :: nat
  q_dequeue_sem :: nat

definition uo_queue_create :: "nat \<Rightarrow> 'a uo_queue" where
  "uo_queue_create capasity =
     \<lparr> q_items = replicate capasity None, q_head = 0, q_tail = 0, q_capasity = capasity,
       q_enqueue_sem = capasity, q_dequeue_sem = 0 \<rparr>"

text \<open>
  A call that would wait for a semaphore is \<^term>\<open>None\<close>; a call that must not wait returns
  false, or \<^verbatim>\<open>NULL\<close>.
\<close>

definition uo_queue_enqueue :: "'a uo_queue \<Rightarrow> 'a \<Rightarrow> bool \<Rightarrow> (bool \<times> 'a uo_queue) option" where
  "uo_queue_enqueue queue item should_block =
     (if q_enqueue_sem queue = 0 then (if should_block then None else Some (False, queue))
      else
        let queue = queue\<lparr> q_enqueue_sem := q_enqueue_sem queue - 1 \<rparr>;
            head = q_head queue;
            queue = queue\<lparr> q_head := head + 1 \<rparr>;
            queue = queue\<lparr> q_items := (q_items queue)[unat head mod q_capasity queue := Some item] \<rparr>
        in Some (True, queue\<lparr> q_dequeue_sem := q_dequeue_sem queue + 1 \<rparr>))"

definition uo_queue_dequeue :: "'a uo_queue \<Rightarrow> bool \<Rightarrow> ('a option \<times> 'a uo_queue) option" where
  "uo_queue_dequeue queue should_block =
     (if q_dequeue_sem queue = 0 then (if should_block then None else Some (None, queue))
      else
        let queue = queue\<lparr> q_dequeue_sem := q_dequeue_sem queue - 1 \<rparr>;
            tl = q_tail queue;
            queue = queue\<lparr> q_tail := tl + 1 \<rparr>;
            item = q_items queue ! (unat tl mod q_capasity queue)
        in Some (item, queue\<lparr> q_enqueue_sem := q_enqueue_sem queue + 1 \<rparr>))"

text \<open>The queue of the callback library has a fixed capacity; its reader waits for a time.\<close>

definition UO_CB_QUEUE_CAPACITY :: nat where
  "UO_CB_QUEUE_CAPACITY = 0x100"

definition uo_cb_queue_init :: "'a uo_queue" where
  "uo_cb_queue_init = uo_queue_create UO_CB_QUEUE_CAPACITY"

definition uo_cb_queue_enqueue :: "'a uo_queue \<Rightarrow> 'a \<Rightarrow> 'a uo_queue option" where
  "uo_cb_queue_enqueue queue cb =
     (if q_enqueue_sem queue = 0 then None
      else
        let queue = queue\<lparr> q_enqueue_sem := q_enqueue_sem queue - 1 \<rparr>;
            head = q_head queue;
            queue = queue\<lparr> q_head := head + 1,
              q_items := (q_items queue)[unat head mod UO_CB_QUEUE_CAPACITY := Some cb] \<rparr>
        in Some (queue\<lparr> q_dequeue_sem := q_dequeue_sem queue + 1 \<rparr>))"

definition uo_cb_queue_try_dequeue :: "'a uo_queue \<Rightarrow> 'a option \<times> 'a uo_queue" where
  "uo_cb_queue_try_dequeue queue =
     (if q_dequeue_sem queue = 0 then (None, queue)
      else
        let queue = queue\<lparr> q_dequeue_sem := q_dequeue_sem queue - 1 \<rparr>;
            tl = q_tail queue;
            queue = queue\<lparr> q_tail := tl + 1 \<rparr>;
            cb = q_items queue ! (unat tl mod UO_CB_QUEUE_CAPACITY)
        in (cb, queue\<lparr> q_enqueue_sem := q_enqueue_sem queue + 1 \<rparr>))"

section \<open>Refinement to a bounded list\<close>

text \<open>
  The capacity is a power of two, as all uses in the library have it; then the slots keep
  their order also when the counters wrap around.
\<close>

definition queue_rel :: "'a uo_queue \<Rightarrow> 'a list \<Rightarrow> bool" where
  "queue_rel q xs \<longleftrightarrow>
     (\<exists>k < 64. q_capasity q = 2 ^ k) \<and> length (q_items q) = q_capasity q
     \<and> length xs \<le> q_capasity q
     \<and> q_enqueue_sem q = q_capasity q - length xs \<and> q_dequeue_sem q = length xs
     \<and> q_head q = q_tail q + of_nat (length xs)
     \<and> (\<forall>i < length xs. q_items q ! ((unat (q_tail q) + i) mod q_capasity q) = Some (xs ! i))"

lemma queue_slot:
  assumes "queue_rel q xs"
  shows "unat (q_head q) mod q_capasity q = (unat (q_tail q) + length xs) mod q_capasity q"
    and "unat (q_tail q + 1) mod q_capasity q = (unat (q_tail q) + 1) mod q_capasity q"
    and "0 < q_capasity q"
proof -
  obtain k where k: "k < 64" "q_capasity q = 2 ^ k" using assms by (auto simp: queue_rel_def)
  then show "unat (q_head q) mod q_capasity q = (unat (q_tail q) + length xs) mod q_capasity q"
    using assms unat_add_mod_pow2 [of k "q_tail q" "length xs"] by (simp add: queue_rel_def)
  show "unat (q_tail q + 1) mod q_capasity q = (unat (q_tail q) + 1) mod q_capasity q"
    using k unat_add_mod_pow2 [of k "q_tail q" 1] by simp
  show "0 < q_capasity q" by (simp add: k)
qed

lemma queue_rel_create: "k < 64 \<Longrightarrow> queue_rel (uo_queue_create (2 ^ k)) []"
  by (auto simp: queue_rel_def uo_queue_create_def)

text \<open>The state after a successful call, which both queues produce.\<close>

definition enqueued :: "'a uo_queue \<Rightarrow> 'a \<Rightarrow> 'a uo_queue" where
  "enqueued q x = q\<lparr> q_enqueue_sem := q_enqueue_sem q - 1, q_head := q_head q + 1,
     q_items := (q_items q)[unat (q_head q) mod q_capasity q := Some x],
     q_dequeue_sem := q_dequeue_sem q + 1 \<rparr>"

definition dequeued :: "'a uo_queue \<Rightarrow> 'a uo_queue" where
  "dequeued q = q\<lparr> q_dequeue_sem := q_dequeue_sem q - 1, q_tail := q_tail q + 1,
     q_enqueue_sem := q_enqueue_sem q + 1 \<rparr>"

lemma queue_rel_enqueued:
  assumes rel: "queue_rel q xs" and room: "length xs < q_capasity q"
  shows "queue_rel (enqueued q x) (xs @ [x])"
proof -
  let ?c = "q_capasity q" and ?t = "unat (q_tail q)"
  have items: "\<And>i. i < length xs \<Longrightarrow> q_items q ! ((?t + i) mod ?c) = Some (xs ! i)"
    and len: "length (q_items q) = ?c"
    using rel by (simp_all add: queue_rel_def)
  have slot: "unat (q_head q) mod ?c = (?t + length xs) mod ?c" "0 < ?c" using queue_slot [OF rel] by simp_all
  have "(q_items q)[unat (q_head q) mod ?c := Some x] ! ((?t + i) mod ?c) = Some ((xs @ [x]) ! i)"
    if "i < length (xs @ [x])" for i
  proof (cases "i = length xs")
    case True
    then show ?thesis using slot len by simp
  next
    case False
    with that have i: "i < length xs" by simp
    have "(?t + length xs) mod ?c \<noteq> (?t + i) mod ?c"
      using mod_add_inj [of ?t "length xs" ?c i] i room by auto
    then show ?thesis using items [OF i] i slot by (simp add: nth_append)
  qed
  with rel room show ?thesis by (auto simp: queue_rel_def enqueued_def)
qed

lemma queue_rel_dequeued:
  assumes rel: "queue_rel q (x # xs)"
  shows "queue_rel (dequeued q) xs" and "q_items q ! (unat (q_tail q) mod q_capasity q) = Some x"
proof -
  let ?c = "q_capasity q" and ?t = "unat (q_tail q)"
  obtain k where k: "k < 64" "?c = 2 ^ k" using rel by (auto simp: queue_rel_def)
  have "(unat (q_tail q + 1) + i) mod ?c = (?t + Suc i) mod ?c" for i
    using unat_add_mod_pow2 [of k "q_tail q + 1" i] unat_add_mod_pow2 [of k "q_tail q" "Suc i"] k
    by (simp add: algebra_simps)
  moreover have items: "\<And>i. i < length (x # xs) \<Longrightarrow> q_items q ! ((?t + i) mod ?c) = Some ((x # xs) ! i)"
    using rel by (simp add: queue_rel_def)
  ultimately have "q_items q ! ((unat (q_tail q + 1) + i) mod ?c) = Some (xs ! i)" if "i < length xs" for i
    using items [of "Suc i"] that by simp
  with rel show "queue_rel (dequeued q) xs"
    by (auto simp: queue_rel_def dequeued_def algebra_simps)
  show "q_items q ! (?t mod ?c) = Some x" using items [of 0] by simp
qed

lemma uo_queue_enqueue_rel:
  assumes "queue_rel q xs"
  shows "uo_queue_enqueue q x b =
    (if length xs < q_capasity q then Some (True, enqueued q x) else if b then None else Some (False, q))"
  using assms by (auto simp: queue_rel_def uo_queue_enqueue_def enqueued_def Let_def)

lemma uo_queue_dequeue_rel:
  assumes "queue_rel q xs"
  shows "uo_queue_dequeue q b =
    (case xs of [] \<Rightarrow> if b then None else Some (None, q) | x # _ \<Rightarrow> Some (Some x, dequeued q))"
proof (cases xs)
  case Nil
  with assms show ?thesis by (simp add: queue_rel_def uo_queue_dequeue_def)
next
  case (Cons y ys)
  with assms queue_rel_dequeued(2) [of q y ys] show ?thesis
    by (simp add: queue_rel_def uo_queue_dequeue_def dequeued_def Let_def)
qed

section \<open>The interface of a bounded queue\<close>

text \<open>A client that puts in a batch, and one that takes out a number of items.\<close>

fun enq_all :: "('q \<Rightarrow> 'a \<Rightarrow> 'q option) \<Rightarrow> 'q \<Rightarrow> 'a list \<Rightarrow> 'q option" where
  "enq_all en q [] = Some q"
| "enq_all en q (x # xs) = (case en q x of None \<Rightarrow> None | Some q \<Rightarrow> enq_all en q xs)"

fun deq_all :: "('q \<Rightarrow> ('a \<times> 'q) option) \<Rightarrow> 'q \<Rightarrow> nat \<Rightarrow> ('a list \<times> 'q) option" where
  "deq_all de q 0 = Some ([], q)"
| "deq_all de q (Suc n) = (case de q of None \<Rightarrow> None
     | Some (x, q) \<Rightarrow> map_option (\<lambda>(xs, q). (x # xs, q)) (deq_all de q n))"

locale bounded_queue =
  fixes rel :: "'q \<Rightarrow> 'a list \<Rightarrow> bool"
    and cap :: "'q \<Rightarrow> nat"
    and enq :: "'q \<Rightarrow> 'a \<Rightarrow> 'q option"
    and deq :: "'q \<Rightarrow> ('a \<times> 'q) option"
  assumes enq_law: "rel q xs \<Longrightarrow> length xs < cap q \<Longrightarrow>
      \<exists>q'. enq q x = Some q' \<and> rel q' (xs @ [x]) \<and> cap q' = cap q"
    and enq_full: "rel q xs \<Longrightarrow> cap q \<le> length xs \<Longrightarrow> enq q x = None"
    and deq_law: "rel q (x # xs) \<Longrightarrow> \<exists>q'. deq q = Some (x, q') \<and> rel q' xs \<and> cap q' = cap q"
    and deq_empty: "rel q [] \<Longrightarrow> deq q = None"
begin

lemma enq_all_rel:
  "rel q xs \<Longrightarrow> length xs + length ys \<le> cap q \<Longrightarrow>
   \<exists>q'. enq_all enq q ys = Some q' \<and> rel q' (xs @ ys) \<and> cap q' = cap q"
proof (induction ys arbitrary: q xs)
  case (Cons y ys)
  obtain q1 where q1: "enq q y = Some q1" "rel q1 (xs @ [y])" "cap q1 = cap q"
    using enq_law [OF Cons.prems(1), of y] Cons.prems(2) by auto
  from Cons.IH [OF q1(2)] Cons.prems(2) q1 show ?case by simp
qed auto

lemma deq_all_rel:
  "rel q (xs @ ys) \<Longrightarrow> \<exists>q'. deq_all deq q (length xs) = Some (xs, q') \<and> rel q' ys \<and> cap q' = cap q"
proof (induction xs arbitrary: q)
  case (Cons x xs)
  obtain q1 where q1: "deq q = Some (x, q1)" "rel q1 (xs @ ys)" "cap q1 = cap q"
    using deq_law [of q x "xs @ ys"] Cons.prems by auto
  from Cons.IH [OF q1(2)] q1 show ?case by auto
qed auto

lemma fifo:
  assumes "rel q xs" and "length xs + length ys \<le> cap q"
  shows "\<exists>q1 q2. enq_all enq q ys = Some q1 \<and> deq_all deq q1 (length xs + length ys) = Some (xs @ ys, q2) \<and> rel q2 []"
proof -
  obtain q1 where q1: "enq_all enq q ys = Some q1" "rel q1 (xs @ ys)" using enq_all_rel [OF assms] by blast
  with deq_all_rel [of q1 "xs @ ys" "[]"] show ?thesis by auto
qed

end

text \<open>A caller of \<^verbatim>\<open>uo_queue\<close> that does not wait.\<close>

definition try_enqueue :: "'a uo_queue \<Rightarrow> 'a \<Rightarrow> 'a uo_queue option" where
  "try_enqueue q x = (case uo_queue_enqueue q x False of Some (True, q) \<Rightarrow> Some q | _ \<Rightarrow> None)"

definition try_dequeue :: "'a uo_queue \<Rightarrow> ('a \<times> 'a uo_queue) option" where
  "try_dequeue q = (case uo_queue_dequeue q False of Some (Some x, q) \<Rightarrow> Some (x, q) | _ \<Rightarrow> None)"

interpretation uo_queue: bounded_queue queue_rel q_capasity try_enqueue try_dequeue
proof
  fix q :: "'a uo_queue" and xs x
  assume r: "queue_rel q xs"
  show "length xs < q_capasity q \<Longrightarrow>
      \<exists>q'. try_enqueue q x = Some q' \<and> queue_rel q' (xs @ [x]) \<and> q_capasity q' = q_capasity q"
    using queue_rel_enqueued [OF r] by (simp add: try_enqueue_def uo_queue_enqueue_rel [OF r] enqueued_def)
  show "q_capasity q \<le> length xs \<Longrightarrow> try_enqueue q x = None"
    by (simp add: try_enqueue_def uo_queue_enqueue_rel [OF r])
next
  fix q :: "'a uo_queue" and xs x
  assume r: "queue_rel q (x # xs)"
  show "\<exists>q'. try_dequeue q = Some (x, q') \<and> queue_rel q' xs \<and> q_capasity q' = q_capasity q"
    using queue_rel_dequeued [OF r] by (simp add: try_dequeue_def uo_queue_dequeue_rel [OF r] dequeued_def)
next
  fix q :: "'a uo_queue"
  assume r: "queue_rel q []"
  show "try_dequeue q = None" by (simp add: try_dequeue_def uo_queue_dequeue_rel [OF r])
qed

definition cb_queue_rel :: "'a uo_queue \<Rightarrow> 'a list \<Rightarrow> bool" where
  "cb_queue_rel q xs \<longleftrightarrow> queue_rel q xs \<and> q_capasity q = UO_CB_QUEUE_CAPACITY"

definition cb_take :: "'a uo_queue \<Rightarrow> ('a \<times> 'a uo_queue) option" where
  "cb_take q = (case uo_cb_queue_try_dequeue q of (Some x, q) \<Rightarrow> Some (x, q) | _ \<Rightarrow> None)"

lemma uo_cb_queue_enqueue_eq:
  assumes "cb_queue_rel q xs"
  shows "uo_cb_queue_enqueue q x = (if length xs < q_capasity q then Some (enqueued q x) else None)"
  using assms by (auto simp: cb_queue_rel_def queue_rel_def uo_cb_queue_enqueue_def enqueued_def Let_def)

lemma cb_take_eq:
  assumes "cb_queue_rel q xs"
  shows "cb_take q = (case xs of [] \<Rightarrow> None | x # _ \<Rightarrow> Some (x, dequeued q))"
proof (cases xs)
  case Nil
  with assms show ?thesis by (simp add: cb_queue_rel_def queue_rel_def cb_take_def uo_cb_queue_try_dequeue_def)
next
  case (Cons y ys)
  with assms have "queue_rel q (y # ys)" "q_capasity q = UO_CB_QUEUE_CAPACITY" by (simp_all add: cb_queue_rel_def)
  moreover from this have "q_dequeue_sem q \<noteq> 0" by (simp add: queue_rel_def)
  ultimately show ?thesis
    using queue_rel_dequeued(2) [of q y ys] Cons
    by (simp add: cb_take_def uo_cb_queue_try_dequeue_def dequeued_def Let_def)
qed

interpretation uo_cb_queue: bounded_queue cb_queue_rel q_capasity uo_cb_queue_enqueue cb_take
proof
  fix q :: "'a uo_queue" and xs x
  assume r: "cb_queue_rel q xs"
  show "length xs < q_capasity q \<Longrightarrow>
      \<exists>q'. uo_cb_queue_enqueue q x = Some q' \<and> cb_queue_rel q' (xs @ [x]) \<and> q_capasity q' = q_capasity q"
    using queue_rel_enqueued [of q xs x] r
    by (simp add: uo_cb_queue_enqueue_eq [OF r] cb_queue_rel_def enqueued_def)
  show "q_capasity q \<le> length xs \<Longrightarrow> uo_cb_queue_enqueue q x = None"
    by (simp add: uo_cb_queue_enqueue_eq [OF r])
next
  fix q :: "'a uo_queue" and xs x
  assume r: "cb_queue_rel q (x # xs)"
  show "\<exists>q'. cb_take q = Some (x, q') \<and> cb_queue_rel q' xs \<and> q_capasity q' = q_capasity q"
    using queue_rel_dequeued(1) [of q x xs] r by (simp add: cb_take_eq [OF r] cb_queue_rel_def dequeued_def)
next
  fix q :: "'a uo_queue"
  assume r: "cb_queue_rel q []"
  show "cb_take q = None" by (simp add: cb_take_eq [OF r])
qed

section \<open>Interleavings\<close>

text \<open>
  The program counter of a thread inside one of the two operations. The shared state adds two
  logs: the items in the order in which they were stored, and what the readers loaded.
\<close>

datatype 'a pc = Ready | EnqWaited 'a | EnqSlot 'a nat | EnqStored | DeqWaited | DeqSlot nat | DeqLoaded

record 'a shared =
  sh_items :: "'a option list"
  sh_head :: nat
  sh_tail :: nat
  sh_enqueue_sem :: nat
  sh_dequeue_sem :: nat
  sh_pc :: "nat \<Rightarrow> 'a pc"
  sh_stored :: "'a list"
  sh_loaded :: "'a option list"

definition shared_init :: "nat \<Rightarrow> 'a shared" where
  "shared_init cap =
     \<lparr> sh_items = replicate cap None, sh_head = 0, sh_tail = 0, sh_enqueue_sem = cap, sh_dequeue_sem = 0,
       sh_pc = \<lambda>_. Ready, sh_stored = [], sh_loaded = [] \<rparr>"

text \<open>\<open>pr\<close> and \<open>co\<close> tell which threads call enqueue and dequeue.\<close>

inductive queue_step :: "(nat \<Rightarrow> bool) \<Rightarrow> (nat \<Rightarrow> bool) \<Rightarrow> 'a shared \<Rightarrow> 'a shared \<Rightarrow> bool" for pr co where
  enq_wait: "pr t \<Longrightarrow> sh_pc s t = Ready \<Longrightarrow> 0 < sh_enqueue_sem s \<Longrightarrow>
    queue_step pr co s (s\<lparr> sh_enqueue_sem := sh_enqueue_sem s - 1, sh_pc := (sh_pc s)(t := EnqWaited x) \<rparr>)"
| enq_slot: "sh_pc s t = EnqWaited x \<Longrightarrow>
    queue_step pr co s (s\<lparr> sh_head := sh_head s + 1, sh_pc := (sh_pc s)(t := EnqSlot x (sh_head s)) \<rparr>)"
| enq_store: "sh_pc s t = EnqSlot x h \<Longrightarrow>
    queue_step pr co s (s\<lparr> sh_items := (sh_items s)[h mod length (sh_items s) := Some x],
      sh_stored := sh_stored s @ [x], sh_pc := (sh_pc s)(t := EnqStored) \<rparr>)"
| enq_post: "sh_pc s t = EnqStored \<Longrightarrow>
    queue_step pr co s (s\<lparr> sh_dequeue_sem := sh_dequeue_sem s + 1, sh_pc := (sh_pc s)(t := Ready) \<rparr>)"
| deq_wait: "co t \<Longrightarrow> sh_pc s t = Ready \<Longrightarrow> 0 < sh_dequeue_sem s \<Longrightarrow>
    queue_step pr co s (s\<lparr> sh_dequeue_sem := sh_dequeue_sem s - 1, sh_pc := (sh_pc s)(t := DeqWaited) \<rparr>)"
| deq_slot: "sh_pc s t = DeqWaited \<Longrightarrow>
    queue_step pr co s (s\<lparr> sh_tail := sh_tail s + 1, sh_pc := (sh_pc s)(t := DeqSlot (sh_tail s)) \<rparr>)"
| deq_load: "sh_pc s t = DeqSlot i \<Longrightarrow>
    queue_step pr co s (s\<lparr> sh_loaded := sh_loaded s @ [sh_items s ! (i mod length (sh_items s))],
      sh_pc := (sh_pc s)(t := DeqLoaded) \<rparr>)"
| deq_post: "sh_pc s t = DeqLoaded \<Longrightarrow>
    queue_step pr co s (s\<lparr> sh_enqueue_sem := sh_enqueue_sem s + 1, sh_pc := (sh_pc s)(t := Ready) \<rparr>)"

inductive queue_reachable :: "(nat \<Rightarrow> bool) \<Rightarrow> (nat \<Rightarrow> bool) \<Rightarrow> nat \<Rightarrow> 'a shared \<Rightarrow> bool" for pr co cap where
  start: "queue_reachable pr co cap (shared_init cap)"
| step: "queue_reachable pr co cap s \<Longrightarrow> queue_step pr co s s' \<Longrightarrow> queue_reachable pr co cap s'"

inductive_cases queue_stepE: "queue_step pr co s s'"

text \<open>
  One producer, thread 0, and one consumer, thread 1. The two semaphores count exactly the
  free and the filled slots that no thread is working on.
\<close>

definition enq_permits :: "'a pc \<Rightarrow> nat" where
  "enq_permits p = (case p of EnqWaited _ \<Rightarrow> 1 | EnqSlot _ _ \<Rightarrow> 1 | DeqLoaded \<Rightarrow> 1 | _ \<Rightarrow> 0)"

definition deq_permits :: "'a pc \<Rightarrow> nat" where
  "deq_permits p = (case p of EnqStored \<Rightarrow> 1 | DeqWaited \<Rightarrow> 1 | DeqSlot _ \<Rightarrow> 1 | _ \<Rightarrow> 0)"

fun producer_at :: "'a pc \<Rightarrow> nat \<Rightarrow> nat \<Rightarrow> bool" where
  "producer_at (EnqSlot x h) hh n \<longleftrightarrow> h = n \<and> hh = n + 1"
| "producer_at Ready hh n \<longleftrightarrow> hh = n"
| "producer_at (EnqWaited x) hh n \<longleftrightarrow> hh = n"
| "producer_at EnqStored hh n \<longleftrightarrow> hh = n"
| "producer_at _ hh n \<longleftrightarrow> False"

fun consumer_at :: "'a pc \<Rightarrow> nat \<Rightarrow> nat \<Rightarrow> bool" where
  "consumer_at (DeqSlot i) tt n \<longleftrightarrow> i = n \<and> tt = n + 1"
| "consumer_at Ready tt n \<longleftrightarrow> tt = n"
| "consumer_at DeqWaited tt n \<longleftrightarrow> tt = n"
| "consumer_at DeqLoaded tt n \<longleftrightarrow> tt = n"
| "consumer_at _ tt n \<longleftrightarrow> False"

definition spsc_inv :: "nat \<Rightarrow> 'a shared \<Rightarrow> bool" where
  "spsc_inv cap s \<longleftrightarrow>
     length (sh_items s) = cap \<and> length (sh_loaded s) \<le> length (sh_stored s)
     \<and> sh_loaded s = map Some (take (length (sh_loaded s)) (sh_stored s))
     \<and> (\<forall>i. length (sh_loaded s) \<le> i \<and> i < length (sh_stored s)
           \<longrightarrow> sh_items s ! (i mod cap) = Some (sh_stored s ! i))
     \<and> sh_enqueue_sem s + enq_permits (sh_pc s 0) + enq_permits (sh_pc s 1)
         + length (sh_stored s) = cap + length (sh_loaded s)
     \<and> sh_dequeue_sem s + deq_permits (sh_pc s 0) + deq_permits (sh_pc s 1) + length (sh_loaded s)
         = length (sh_stored s)
     \<and> (\<forall>t. 1 < t \<longrightarrow> sh_pc s t = Ready)
     \<and> producer_at (sh_pc s 0) (sh_head s) (length (sh_stored s))
     \<and> consumer_at (sh_pc s 1) (sh_tail s) (length (sh_loaded s))"

lemma spsc_inv_init: "spsc_inv cap (shared_init cap)"
  by (simp add: spsc_inv_def shared_init_def enq_permits_def deq_permits_def)

lemmas permits_simps = enq_permits_def deq_permits_def

lemma spsc_thread:
  assumes "spsc_inv cap s"
  shows "sh_pc s t = EnqWaited x \<Longrightarrow> t = 0" "sh_pc s t = EnqSlot x h \<Longrightarrow> t = 0" "sh_pc s t = EnqStored \<Longrightarrow> t = 0"
    "sh_pc s t = DeqWaited \<Longrightarrow> t = 1" "sh_pc s t = DeqSlot i \<Longrightarrow> t = 1" "sh_pc s t = DeqLoaded \<Longrightarrow> t = 1"
proof -
  have "\<forall>t > 1. sh_pc s t = Ready" using assms by (simp add: spsc_inv_def)
  then have "t = 0 \<or> t = 1 \<or> sh_pc s t = Ready" by (metis less_one linorder_neqE_nat)
  then show "sh_pc s t = EnqWaited x \<Longrightarrow> t = 0" "sh_pc s t = EnqSlot x h \<Longrightarrow> t = 0" "sh_pc s t = EnqStored \<Longrightarrow> t = 0"
    "sh_pc s t = DeqWaited \<Longrightarrow> t = 1" "sh_pc s t = DeqSlot i \<Longrightarrow> t = 1" "sh_pc s t = DeqLoaded \<Longrightarrow> t = 1"
    using assms by (auto simp: spsc_inv_def)
qed

text \<open>The store: the slot is not one of those that still hold unread items.\<close>

lemma spsc_store:
  assumes inv: "spsc_inv cap s" and pc: "sh_pc s 0 = EnqSlot x h"
  shows "spsc_inv cap (s\<lparr> sh_items := (sh_items s)[h mod length (sh_items s) := Some x],
      sh_stored := sh_stored s @ [x], sh_pc := (sh_pc s)(0 := EnqStored) \<rparr>)"
proof -
  let ?n = "length (sh_stored s)" and ?l = "length (sh_loaded s)"
  have h: "h = ?n" and len: "length (sh_items s) = cap" and le: "?l \<le> ?n"
    and cnt: "sh_enqueue_sem s + 1 + enq_permits (sh_pc s 1) + ?n = cap + ?l"
    and items: "\<And>i. ?l \<le> i \<Longrightarrow> i < ?n \<Longrightarrow> sh_items s ! (i mod cap) = Some (sh_stored s ! i)"
    using inv pc by (simp_all add: spsc_inv_def permits_simps)
  have "(sh_items s)[h mod cap := Some x] ! (i mod cap) = Some ((sh_stored s @ [x]) ! i)"
    if "?l \<le> i" "i < Suc ?n" for i
  proof (cases "i = ?n")
    case True
    moreover have "0 < cap" using cnt le by linarith
    ultimately show ?thesis using h len by simp
  next
    case False
    with that have i: "i < ?n" by simp
    have "?n - ?l < cap" "i - ?l < cap" using cnt i le by linarith+
    then have "h mod cap \<noteq> i mod cap"
      using mod_add_inj [of ?l "?n - ?l" cap "i - ?l"] that i h le cnt by auto
    then show ?thesis using items [OF that(1) i] i by (simp add: nth_append)
  qed
  then show ?thesis using inv pc h len
    by (auto simp: spsc_inv_def permits_simps le)
qed

lemma spsc_load:
  assumes inv: "spsc_inv cap s" and pc: "sh_pc s 1 = DeqSlot i"
  shows "spsc_inv cap (s\<lparr> sh_loaded := sh_loaded s @ [sh_items s ! (i mod length (sh_items s))],
      sh_pc := (sh_pc s)(1 := DeqLoaded) \<rparr>)"
proof -
  let ?n = "length (sh_stored s)" and ?l = "length (sh_loaded s)"
  have i: "i = ?l" and len: "length (sh_items s) = cap"
    and lt: "sh_dequeue_sem s + deq_permits (sh_pc s 0) + 1 + ?l = ?n"
    and items: "\<And>i. ?l \<le> i \<Longrightarrow> i < ?n \<Longrightarrow> sh_items s ! (i mod cap) = Some (sh_stored s ! i)"
    and ld: "sh_loaded s = map Some (take ?l (sh_stored s))"
    using inv pc by (simp_all add: spsc_inv_def permits_simps)
  have "?l < ?n" using lt by simp
  then have "sh_items s ! (i mod cap) = Some (sh_stored s ! ?l)" using items [of ?l] i by simp
  moreover have "sh_loaded s @ [Some (sh_stored s ! ?l)] = map Some (take (Suc ?l) (sh_stored s))"
    using ld \<open>?l < ?n\<close> by (simp add: take_Suc_conv_app_nth)
  ultimately show ?thesis using inv pc i len \<open>?l < ?n\<close>
    by (auto simp: spsc_inv_def permits_simps)
qed

lemma spsc_step:
  assumes step: "queue_step (\<lambda>t. t = 0) (\<lambda>t. t = 1) s s'" and inv: "spsc_inv cap s"
  shows "spsc_inv cap s'"
  using step
proof (cases rule: queue_step.cases)
  case (enq_wait t x)
  with inv show ?thesis by (auto simp: spsc_inv_def permits_simps)
next
  case (enq_slot t x)
  with inv spsc_thread(1) [OF inv enq_slot(2)] show ?thesis by (auto simp: spsc_inv_def permits_simps)
next
  case (enq_store t x h)
  with spsc_thread(2) [OF inv enq_store(2)] spsc_store [OF inv] show ?thesis by simp
next
  case (enq_post t)
  with inv spsc_thread(3) [OF inv enq_post(2)] show ?thesis by (auto simp: spsc_inv_def permits_simps)
next
  case (deq_wait t)
  with inv show ?thesis by (auto simp: spsc_inv_def permits_simps)
next
  case (deq_slot t)
  with inv spsc_thread(4) [OF inv deq_slot(2)] show ?thesis by (auto simp: spsc_inv_def permits_simps)
next
  case (deq_load t i)
  with spsc_thread(5) [OF inv deq_load(2)] spsc_load [OF inv] show ?thesis by simp
next
  case (deq_post t)
  with inv spsc_thread(6) [OF inv deq_post(2)] show ?thesis by (auto simp: spsc_inv_def permits_simps)
qed

lemma spsc_reachable:
  "queue_reachable (\<lambda>t. t = 0) (\<lambda>t. t = 1) cap s \<Longrightarrow> spsc_inv cap s"
  by (induction rule: queue_reachable.induct) (auto intro: spsc_inv_init spsc_step)

section \<open>Properties\<close>

text \<open>
  C24: one thread sees a first-in first-out queue: items put in until the capacity is reached
  come out in the same order, through any number of wrap-arounds of the 64-bit counters; a
  full queue refuses an item and an empty one gives none.
\<close>

theorem uo_queue_fifo:
  assumes "queue_rel q xs" and "length xs + length ys \<le> q_capasity q"
  shows "\<exists>q1 q2. enq_all try_enqueue q ys = Some q1
           \<and> deq_all try_dequeue q1 (length xs + length ys) = Some (xs @ ys, q2)
           \<and> try_dequeue q2 = None
           \<and> (length xs + length ys = q_capasity q \<longrightarrow> (\<forall>z. try_enqueue q1 z = None))"
proof -
  obtain q1 where q1: "enq_all try_enqueue q ys = Some q1" "queue_rel q1 (xs @ ys)" "q_capasity q1 = q_capasity q"
    using uo_queue.enq_all_rel [OF assms] by blast
  obtain q2 where q2: "deq_all try_dequeue q1 (length xs + length ys) = Some (xs @ ys, q2)" "queue_rel q2 []"
    using uo_queue.deq_all_rel [of q1 "xs @ ys" "[]"] q1(2) by auto
  with q1 uo_queue.deq_empty uo_queue.enq_full [OF q1(2)] show ?thesis by auto
qed

theorem uo_queue_fifo_witness:
  "\<exists>q1 q2. enq_all try_enqueue ((uo_queue_create 16)\<lparr> q_head := - 1, q_tail := - 1 \<rparr>) ''abc'' = Some q1
     \<and> deq_all try_dequeue q1 3 = Some (''abc'', q2) \<and> try_dequeue q2 = None"
proof -
  have "(16::nat) = 2 ^ 4" by simp
  then have "\<exists>k < 64. (16::nat) = 2 ^ k" by (intro exI [of _ 4]) simp
  then have "queue_rel ((uo_queue_create 16)\<lparr> q_head := - 1, q_tail := - 1 \<rparr> :: char uo_queue) []"
    by (simp add: queue_rel_def uo_queue_create_def)
  from uo_queue_fifo [OF this, of "''abc''"] show ?thesis
    by (simp add: uo_queue_create_def eval_nat_numeral)
qed


lemma queue_run_one:
  "queue_reachable (\<lambda>t. t = 0) (\<lambda>t. t = 1) 4 ((shared_init 4)\<lparr> sh_enqueue_sem := 3,
     sh_pc := (\<lambda>_. Ready)(0 := EnqWaited x) \<rparr>)"
  using queue_reachable.step [OF queue_reachable.start queue_step.enq_wait [of "\<lambda>t. t = 0" 0 "shared_init 4" "\<lambda>t. t = 1" x]]
  by (simp add: shared_init_def)


text \<open>
  With two producing threads the consumer can read a slot before it is written: the
  second producer stores and posts while the first has only reserved the earlier slot, and
  the consumer takes the earlier slot.
\<close>

theorem uo_queue_two_producers_race:
  "\<exists>s. queue_reachable (\<lambda>t. t < 2) (\<lambda>t. t = 2) 2 s \<and> sh_stored s = [y] \<and> sh_loaded s = [None]"
proof -
  let ?R = "queue_reachable (\<lambda>t. t < 2) (\<lambda>t. t = 2) 2"
  define s where "s pcs en de h tl its st ld = \<lparr> sh_items = its, sh_head = h, sh_tail = tl, sh_enqueue_sem = en,
    sh_dequeue_sem = de, sh_pc = pcs, sh_stored = st, sh_loaded = ld \<rparr>"
    for pcs :: "nat \<Rightarrow> 'a pc" and en de h tl :: nat and its st ld
  note st = queue_reachable.step
  have "?R (s (\<lambda>_. Ready) 2 0 0 0 [None, None] [] [])"
    using queue_reachable.start [of "\<lambda>t. t < 2" "\<lambda>t. t = 2" 2] by (simp add: shared_init_def s_def numeral_2_eq_2)
  from st [OF this queue_step.enq_wait [where t = 0 and x = y]]
  have "?R (s ((\<lambda>_. Ready)(0 := EnqWaited y)) 1 0 0 0 [None, None] [] [])" by (simp add: s_def)
  from st [OF this queue_step.enq_slot [where t = 0]]
  have "?R (s ((\<lambda>_. Ready)(0 := EnqSlot y 0)) 1 0 1 0 [None, None] [] [])" by (simp add: s_def)
  from st [OF this queue_step.enq_wait [where t = 1 and x = y]]
  have "?R (s ((\<lambda>_. Ready)(0 := EnqSlot y 0, 1 := EnqWaited y)) 0 0 1 0 [None, None] [] [])"
    by (simp add: s_def)
  from st [OF this queue_step.enq_slot [where t = 1]]
  have "?R (s ((\<lambda>_. Ready)(0 := EnqSlot y 0, 1 := EnqSlot y 1)) 0 0 2 0 [None, None] [] [])"
    by (simp add: s_def numeral_2_eq_2)
  from st [OF this queue_step.enq_store [where t = 1]]
  have "?R (s ((\<lambda>_. Ready)(0 := EnqSlot y 0, 1 := EnqStored)) 0 0 2 0 [None, Some y] [y] [])"
    by (simp add: s_def)
  from st [OF this queue_step.enq_post [where t = 1]]
  have "?R (s ((\<lambda>_. Ready)(0 := EnqSlot y 0, 1 := Ready)) 0 1 2 0 [None, Some y] [y] [])"
    by (simp add: s_def)
  from st [OF this queue_step.deq_wait [where t = 2]]
  have "?R (s ((\<lambda>_. Ready)(0 := EnqSlot y 0, 1 := Ready, 2 := DeqWaited)) 0 0 2 0 [None, Some y] [y] [])"
    by (simp add: s_def)
  from st [OF this queue_step.deq_slot [where t = 2]]
  have "?R (s ((\<lambda>_. Ready)(0 := EnqSlot y 0, 1 := Ready, 2 := DeqSlot 0)) 0 0 2 1 [None, Some y] [y] [])"
    by (simp add: s_def)
  from st [OF this queue_step.deq_load [where t = 2]]
  have "?R (s ((\<lambda>_. Ready)(0 := EnqSlot y 0, 1 := Ready, 2 := DeqLoaded)) 0 0 2 1 [None, Some y] [y] [None])"
    by (simp add: s_def)
  then show ?thesis by (intro exI) (auto simp: s_def)
qed

end
