(* ===== verification/Linkpool.thy ===== *)
theory Linkpool
  imports Linklist Queue "HOL-Library.Multiset"
begin

text \<open>
  \<^verbatim>\<open>uo_linkpool/src/include/uo_linkpool/uo_linkpool.h\<close>: pools of linked items, one free list
  per thread, filled from blocks of \<^verbatim>\<open>calloc\<close>. The macros of the header are instantiated for
  a type of items; here a pool is a value with the head of its free list, and \<open>mk\<close> gives the
  address of the \<open>i\<close>th item that was ever allocated for the pool, so that \<^verbatim>\<open>items + i\<close> of a
  block that starts at \<open>b\<close> is \<open>mk (b + i)\<close>. The links of all pools are in one heap.
\<close>

record 'n linkpool =
  lp_queue :: "nat uo_stack uo_queue option"
  lp_stack :: "nat uo_stack option"
  lp_head :: 'n
  lp_next :: nat

definition UO__LINKPOOL_DEFAULT_GROW :: nat where
  "UO__LINKPOOL_DEFAULT_GROW = 0x20"

section \<open>Operations\<close>

definition uo_linkpool_is_init :: "'n linkpool \<Rightarrow> bool" where
  "uo_linkpool_is_init pool \<longleftrightarrow> lp_queue pool \<noteq> None"

definition uo_linkpool_is_thrd_init :: "'n links \<Rightarrow> 'n linkpool \<Rightarrow> bool" where
  "uo_linkpool_is_thrd_init h pool \<longleftrightarrow> uo_linklist_is_linked h (lp_head pool)"

definition uo_linkpool_is_empty :: "'n links \<Rightarrow> 'n linkpool \<Rightarrow> bool" where
  "uo_linkpool_is_empty h pool \<longleftrightarrow> uo_linklist_is_empty h (lp_head pool)"

definition uo_linkpool_return :: "'n links \<Rightarrow> 'n linkpool \<Rightarrow> 'n \<Rightarrow> 'n links cres" where
  "uo_linkpool_return h pool link = uo_linklist_link h (lp_head pool) link"

definition uo_linkpool_init :: "'n linkpool \<Rightarrow> bool \<times> 'n linkpool" where
  "uo_linkpool_init pool =
     (if uo_linkpool_is_init pool then (True, pool)
      else (True, pool\<lparr> lp_queue := Some (uo_queue_create 0x10) \<rparr>))"

text \<open>
  The stacks of blocks that other threads left behind are taken over; the call does not wait
  for one.
\<close>

definition uo_linkpool_thrd_init :: "'n links \<Rightarrow> 'n linkpool \<Rightarrow> (bool \<times> 'n links \<times> 'n linkpool) run" where
  "uo_linkpool_thrd_init h pool =
     (if uo_linkpool_is_thrd_init h pool then Some (Inr (True, h, pool))
      else case lp_queue pool of
        None \<Rightarrow> Some (Inl NullDeref)
      | Some queue \<Rightarrow>
          (case uo_queue_dequeue queue False of
             None \<Rightarrow> None
           | Some (st, queue) \<Rightarrow>
               let stack = (case st of Some stack \<Rightarrow> stack | None \<Rightarrow> uo_stack_create_at 0)
               in Some (Inr (True, uo_linklist_selflink h (lp_head pool),
                    pool\<lparr> lp_queue := Some queue, lp_stack := Some stack \<rparr>))))"

text \<open>A thread that leaves waits until the queue has room for its stack.\<close>

definition uo_linkpool_thrd_quit :: "'n links \<Rightarrow> 'n linkpool \<Rightarrow> ('n links \<times> 'n linkpool) run" where
  "uo_linkpool_thrd_quit h pool =
     (if \<not> uo_linkpool_is_thrd_init h pool then Some (Inr (h, pool))
      else case (lp_queue pool, lp_stack pool) of
        (Some queue, Some stack) \<Rightarrow>
          (case uo_queue_enqueue queue stack True of
             None \<Rightarrow> None
           | Some (_, queue) \<Rightarrow>
               Some (Inr (uo_linklist_reset h (lp_head pool), pool\<lparr> lp_queue := Some queue \<rparr>)))
      | _ \<Rightarrow> Some (Inl NullDeref))"

text \<open>\<^verbatim>\<open>quit\<close> empties every stack of the queue; it yields the blocks that it frees.\<close>

fun pop_blocks :: "nat \<Rightarrow> nat uo_stack \<Rightarrow> nat list cres" where
  "pop_blocks 0 stack = Inr []"
| "pop_blocks (Suc n) stack =
     res_bind (uo_stack_pop stack) (\<lambda>(b, stack).
     res_bind (pop_blocks n stack) (\<lambda>bs. Inr (b # bs)))"

function quit_loop :: "nat uo_stack uo_queue \<Rightarrow> nat list cres" where
  "quit_loop queue =
     (case uo_queue_dequeue queue False of
        Some (Some stack, queue') \<Rightarrow>
          res_bind (pop_blocks (uo_stack_count stack) stack) (\<lambda>bs.
          res_bind (quit_loop queue') (\<lambda>cs. Inr (bs @ cs)))
      | _ \<Rightarrow> Inr [])"
  by auto
termination
  by (relation "measure q_dequeue_sem") (auto simp: uo_queue_dequeue_def Let_def split: if_splits)

declare quit_loop.simps [simp del]

definition uo_linkpool_quit :: "'n linkpool \<Rightarrow> nat list cres" where
  "uo_linkpool_quit pool = (case lp_queue pool of None \<Rightarrow> Inr [] | Some queue \<Rightarrow> quit_loop queue)"

text \<open>\<^verbatim>\<open>calloc\<close> returns a block that nothing refers to, filled with zeros.\<close>

definition calloc_links :: "'n links \<Rightarrow> (nat \<Rightarrow> 'n) \<Rightarrow> nat \<Rightarrow> nat \<Rightarrow> 'n links" where
  "calloc_links h mk base cnt = fold (\<lambda>i h. uo_linklist_reset h (mk i)) [base..<base + cnt] h"

fun link_all :: "'n links \<Rightarrow> 'n \<Rightarrow> 'n list \<Rightarrow> 'n links cres" where
  "link_all h head [] = Inr h"
| "link_all h head (n # ns) = res_bind (uo_linklist_link h head n) (\<lambda>h. link_all h head ns)"

text \<open>
  The \<^verbatim>\<open>assert\<close> at the start of \<^verbatim>\<open>grow\<close> tests the address of a function, which is never \<^verbatim>\<open>NULL\<close>,
  so it always passes.
\<close>

definition uo_linkpool_grow ::
  "(nat \<Rightarrow> 'n) \<Rightarrow> 'n links \<Rightarrow> 'n linkpool \<Rightarrow> nat \<Rightarrow> ('n links \<times> 'n linkpool) cres" where
  "uo_linkpool_grow mk h pool cnt =
     (let items = lp_next pool;
          h = calloc_links h mk items cnt
      in case lp_stack pool of
        None \<Rightarrow> Inl NullDeref
      | Some stack \<Rightarrow>
          res_bind (uo_stack_push stack items) (\<lambda>stack.
          res_bind (link_all h (lp_head pool) (map mk [items..<items + cnt])) (\<lambda>h.
          Inr (h, pool\<lparr> lp_stack := Some stack, lp_next := items + cnt \<rparr>))))"

text \<open>
  The condition of \<^verbatim>\<open>rent\<close> names \<^verbatim>\<open>is_empty\<close> without calling it: it is the address of the
  function, which is true. Every call grows the pool.
\<close>

definition uo_linkpool_rent ::
  "(nat \<Rightarrow> 'n) \<Rightarrow> 'n links \<Rightarrow> 'n linkpool \<Rightarrow> ('n \<times> 'n links \<times> 'n linkpool) cres" where
  "uo_linkpool_rent mk h pool =
     res_bind (uo_linkpool_grow mk h pool UO__LINKPOOL_DEFAULT_GROW) (\<lambda>(h, pool).
     res_bind (deref (prv h (lp_head pool))) (\<lambda>link.
     res_bind (uo_linklist_unlink h link) (\<lambda>h.
     Inr (link, h, pool))))"

section \<open>Ownership\<close>

text \<open>
  \<open>pool_inv mk h pool free rented\<close>: the allocated items are divided into the free list, in
  its order, and the items that clients hold.
\<close>

definition pool_inv :: "(nat \<Rightarrow> 'n) \<Rightarrow> 'n links \<Rightarrow> 'n linkpool \<Rightarrow> 'n list \<Rightarrow> 'n set \<Rightarrow> bool" where
  "pool_inv mk h pool free rented \<longleftrightarrow>
     inj mk \<and> lp_head pool \<notin> range mk \<and> clist h (lp_head pool) free
     \<and> set free \<inter> rented = {} \<and> set free \<union> rented = mk ` {..<lp_next pool}
     \<and> (\<exists>stack bs. lp_stack pool = Some stack \<and> stack_rel stack bs)"

lemma calloc_links_eq:
  "nxt (calloc_links h mk b n) = (\<lambda>x. if x \<in> mk ` {b..<b + n} then None else nxt h x)
   \<and> prv (calloc_links h mk b n) = (\<lambda>x. if x \<in> mk ` {b..<b + n} then None else prv h x)"
proof (induction n)
  case 0
  then show ?case by (simp add: calloc_links_def)
next
  case (Suc n)
  have "calloc_links h mk b (Suc n) = uo_linklist_reset (calloc_links h mk b n) (mk (b + n))"
    by (simp add: calloc_links_def)
  with Suc show ?case
    by (auto simp: uo_linklist_reset_def fun_eq_iff less_Suc_eq)
qed

lemma link_all_clist:
  assumes "clist h head ns" and "distinct (head # ns @ ms)" and "\<And>m. m \<in> set ms \<Longrightarrow> \<not> uo_linklist_is_linked h m"
  shows "\<exists>h'. link_all h head ms = Inr h' \<and> clist h' head (ns @ ms)
           \<and> (\<forall>x. x \<notin> set (head # ns @ ms) \<longrightarrow> same_at h h' x)"
  using assms
proof (induction ms arbitrary: h ns)
  case Nil
  then show ?case by simp
next
  case (Cons m ms)
  obtain h1 where h1: "uo_linklist_link h head m = Inr h1" "clist h1 head (ns @ [m])"
    using clist_link_end [of h head ns m] Cons.prems by auto
  have fr: "same_at h h1 x" if "x \<notin> set (m # head # ns)" for x
    using link_frame [OF h1(1) Cons.prems(1) _ that] by simp
  have "\<not> uo_linklist_is_linked h1 m'" if "m' \<in> set ms" for m'
    using Cons.prems(2) Cons.prems(3) [of m'] same_at_linked [OF fr, of m'] that by auto
  then obtain h' where "link_all h1 head ms = Inr h'" "clist h' head (ns @ m # ms)"
    "\<forall>x. x \<notin> set (head # ns @ m # ms) \<longrightarrow> same_at h1 h' x"
    using Cons.IH [OF h1(2)] Cons.prems(2) by auto
  with h1(1) fr show ?case by (auto intro: same_at_trans)
qed

text \<open>The items of a new block.\<close>

lemma pool_new:
  assumes inv: "pool_inv mk h pool free rented" and new: "new = map mk [lp_next pool..<lp_next pool + cnt]"
  shows "distinct (lp_head pool # free @ new)"
    and "set (free @ new) \<inter> rented = {}"
    and "set (free @ new) \<union> rented = mk ` {..<lp_next pool + cnt}"
    and "lp_head pool \<notin> set new" "set free \<inter> set new = {}" "set new = mk ` {lp_next pool..<lp_next pool + cnt}"
proof -
  let ?b = "lp_next pool"
  have inj: "inj mk" and hd: "lp_head pool \<notin> mk ` A" and cl: "clist h (lp_head pool) free"
    and cover: "set free \<union> rented = mk ` {..<?b}" "set free \<inter> rented = {}" for A
    using inv by (auto simp: pool_inv_def)
  show setnew: "set new = mk ` {?b..<?b + cnt}" by (auto simp: new)
  have disj: "set new \<inter> mk ` {..<?b} = {}" using inj by (auto simp: setnew dest: injD)
  then show fn: "set free \<inter> set new = {}" using cover by blast
  show hn: "lp_head pool \<notin> set new" unfolding setnew by (rule hd)
  have "distinct new" using inj by (simp add: new distinct_map inj_on_def)
  then show "distinct (lp_head pool # free @ new)" using cl fn hn by (simp add: clist_def)
  have "set new \<inter> rented = {}" using disj cover by blast
  then show "set (free @ new) \<inter> rented = {}" using cover(2) by auto
  have "{..<?b + cnt} = {..<?b} \<union> {?b..<?b + cnt}" by auto
  then have "mk ` {..<?b + cnt} = mk ` {..<?b} \<union> set new" by (simp only: image_Un setnew)
  with cover show "set (free @ new) \<union> rented = mk ` {..<?b + cnt}" by auto
qed

lemma pool_inv_grow:
  assumes inv: "pool_inv mk h pool free rented"
    and new: "new = map mk [lp_next pool..<lp_next pool + cnt]"
  shows "\<exists>h' pool'. uo_linkpool_grow mk h pool cnt = Inr (h', pool')
           \<and> pool_inv mk h' pool' (free @ new) rented
           \<and> lp_head pool' = lp_head pool \<and> lp_queue pool' = lp_queue pool
           \<and> lp_next pool' = lp_next pool + cnt
           \<and> (\<forall>x. x \<noteq> lp_head pool \<longrightarrow> x \<notin> range mk - rented \<longrightarrow> same_at h h' x)"
proof -
  let ?b = "lp_next pool"
  define hc where "hc = calloc_links h mk ?b cnt"
  note n = pool_new [OF inv new]
  obtain stack bs where st: "lp_stack pool = Some stack" "stack_rel stack bs"
    using inv by (auto simp: pool_inv_def)
  obtain stack' where st': "uo_stack_push stack ?b = Inr stack'" "stack_rel stack' (bs @ [?b])"
    using stack_rel_push [OF st(2)] by blast
  have eqc: "same_at h hc x" if "x \<notin> set new" for x
    using calloc_links_eq [of h mk ?b cnt] that by (simp add: same_at_def hc_def n(6))
  have "clist hc (lp_head pool) free"
    by (rule clist_cong [of h]) (use inv n(4,5) in \<open>auto simp: pool_inv_def intro!: eqc\<close>)
  moreover have "\<not> uo_linklist_is_linked hc m" if "m \<in> set new" for m
    using calloc_links_eq [of h mk ?b cnt] that
    by (simp add: uo_linklist_is_linked_def hc_def n(6))
  ultimately obtain h' where h': "link_all hc (lp_head pool) new = Inr h'"
      "clist h' (lp_head pool) (free @ new)"
      "\<forall>x. x \<notin> set (lp_head pool # free @ new) \<longrightarrow> same_at hc h' x"
    using link_all_clist [of hc "lp_head pool" free new] n(1) by auto
  define pool' where "pool' = pool\<lparr> lp_stack := Some stack', lp_next := ?b + cnt \<rparr>"
  have "pool_inv mk h' pool' (free @ new) rented"
    using inv n(2,3) h'(2) st'(2) by (auto simp: pool_inv_def pool'_def)
  moreover have "same_at h h' x" if "x \<noteq> lp_head pool" "x \<notin> range mk - rented" for x
  proof -
    have "set (free @ new) \<subseteq> range mk - rented" using n(2,3) by blast
    with that have "x \<notin> set (lp_head pool # free @ new)" by auto
    then show ?thesis using h'(3) eqc [of x] by (auto intro: same_at_trans)
  qed
  moreover have "uo_linkpool_grow mk h pool cnt = Inr (h', pool')"
    using st(1) st'(1) h'(1) by (simp add: uo_linkpool_grow_def Let_def hc_def new pool'_def)
  ultimately show ?thesis by (auto simp: pool'_def)
qed

lemma pool_inv_rent:
  assumes inv: "pool_inv mk h pool free rented"
  shows "\<exists>link h' pool'. uo_linkpool_rent mk h pool = Inr (link, h', pool')
           \<and> link = mk (lp_next pool + 31) \<and> link \<notin> rented
           \<and> pool_inv mk h' pool' (free @ map mk [lp_next pool..<lp_next pool + 31]) (insert link rented)
           \<and> \<not> uo_linklist_is_linked h' link
           \<and> lp_head pool' = lp_head pool \<and> lp_queue pool' = lp_queue pool
           \<and> lp_next pool' = lp_next pool + 32
           \<and> (\<forall>x. x \<noteq> lp_head pool \<longrightarrow> x \<notin> range mk - rented \<longrightarrow> same_at h h' x)"
proof -
  let ?b = "lp_next pool"
  define rest where "rest = free @ map mk [?b..<?b + 31]"
  define link where "link = mk (?b + 31)"
  have "map mk [?b..<?b + 32] = map mk [?b..<?b + 31] @ [link]"
  proof -
    have "?b + 32 = Suc (?b + 31)" by simp
    then have "[?b..<?b + 32] = [?b..<?b + 31] @ [?b + 31]" by (simp only: upt_Suc_append le_add1)
    then show ?thesis by (simp only: link_def map_append list.map)
  qed
  then obtain h1 pool' where g: "uo_linkpool_grow mk h pool 32 = Inr (h1, pool')"
      "pool_inv mk h1 pool' (rest @ [link]) rented" "lp_head pool' = lp_head pool"
      "lp_queue pool' = lp_queue pool" "lp_next pool' = ?b + 32"
      "\<forall>x. x \<noteq> lp_head pool \<longrightarrow> x \<notin> range mk - rented \<longrightarrow> same_at h h1 x"
    using pool_inv_grow [OF inv refl, of 32] by (auto simp: rest_def)
  have cl: "clist h1 (lp_head pool') (rest @ [link])" using g(2) by (simp add: pool_inv_def)
  then have pv: "prv h1 (lp_head pool') = Some link"
    using chain_prev_end [of h1 "lp_head pool'" "rest @ [link]" "lp_head pool'"] by (simp add: clist_def)
  obtain h2 where u: "uo_linklist_unlink h1 link = Inr h2" "clist h2 (lp_head pool') rest"
      "\<not> uo_linklist_is_linked h2 link"
    using clist_unlink [of h1 "lp_head pool'" rest link "[]"] cl by auto
  have "same_at h h2 x" if "x \<noteq> lp_head pool" "x \<notin> range mk - rented" for x
  proof -
    have "set (rest @ [link]) \<subseteq> range mk - rented" using g(2) unfolding pool_inv_def by blast
    with that g(3) have "same_at h1 h2 x" by (intro unlink_frame [OF u(1) cl]) auto
    then show ?thesis using g(6) that by (blast intro: same_at_trans)
  qed
  moreover have "pool_inv mk h2 pool' rest (insert link rented)" "link \<notin> rented"
    using g(2) u(2) cl by (auto simp: pool_inv_def clist_def)
  moreover have "uo_linkpool_rent mk h pool = Inr (link, h2, pool')"
    using g(1) pv u(1) by (simp add: uo_linkpool_rent_def UO__LINKPOOL_DEFAULT_GROW_def)
  ultimately show ?thesis using g(3-5) u(3) by (auto simp: rest_def link_def)
qed

lemma pool_inv_return:
  assumes inv: "pool_inv mk h pool free rented" and "link \<in> rented" and "\<not> uo_linklist_is_linked h link"
  shows "\<exists>h'. uo_linkpool_return h pool link = Inr h'
           \<and> pool_inv mk h' pool (free @ [link]) (rented - {link})
           \<and> (\<forall>x. x \<noteq> lp_head pool \<longrightarrow> x \<notin> range mk - (rented - {link}) \<longrightarrow> same_at h h' x)"
proof -
  have cl: "clist h (lp_head pool) free" using inv by (simp add: pool_inv_def)
  have sub: "set (link # free) \<subseteq> range mk - (rented - {link})" "link \<noteq> lp_head pool" "link \<notin> set free"
  proof -
    have "set free \<union> rented \<subseteq> range mk" using inv by (auto simp: pool_inv_def)
    then show "set (link # free) \<subseteq> range mk - (rented - {link})" "link \<noteq> lp_head pool" "link \<notin> set free"
      using inv assms(2) by (auto simp: pool_inv_def)
  qed
  obtain h' where l: "uo_linklist_link h (lp_head pool) link = Inr h'"
      "clist h' (lp_head pool) (free @ [link])"
    using clist_link_end [OF cl, of link] sub assms(3) by auto
  have "same_at h h' x" if "x \<noteq> lp_head pool" "x \<notin> range mk - (rented - {link})" for x
    by (rule link_frame [OF l(1) cl]) (use that sub in auto)
  moreover have "pool_inv mk h' pool (free @ [link]) (rented - {link})"
    using inv l(2) assms(2) by (auto simp: pool_inv_def)
  ultimately show ?thesis using l(1) by (auto simp: uo_linkpool_return_def)
qed

section \<open>The contract of a pool\<close>

text \<open>Taking several items, and giving several back.\<close>

fun rent_n :: "('h \<Rightarrow> 'p \<Rightarrow> ('n \<times> 'h \<times> 'p) cres) \<Rightarrow> 'h \<Rightarrow> 'p \<Rightarrow> nat \<Rightarrow> ('n list \<times> 'h \<times> 'p) cres" where
  "rent_n rent h p 0 = Inr ([], h, p)"
| "rent_n rent h p (Suc n) =
     res_bind (rent h p) (\<lambda>(l, h, p).
     res_bind (rent_n rent h p n) (\<lambda>(ls, h, p). Inr (l # ls, h, p)))"

fun return_all :: "('h \<Rightarrow> 'p \<Rightarrow> 'n \<Rightarrow> 'h cres) \<Rightarrow> 'h \<Rightarrow> 'p \<Rightarrow> 'n list \<Rightarrow> 'h cres" where
  "return_all ret h p [] = Inr h"
| "return_all ret h p (l # ls) = res_bind (ret h p l) (\<lambda>h. return_all ret h p ls)"

text \<open>
  A pool over a heap: what clients hold is a set; a new item is not among it and is idle (in
  no list), and an idle item can be given back. Neither touches what is held and idle.
\<close>

locale link_pool =
  fixes owns :: "'h \<Rightarrow> 'p \<Rightarrow> 'n set \<Rightarrow> bool"
    and rent :: "'h \<Rightarrow> 'p \<Rightarrow> ('n \<times> 'h \<times> 'p) cres"
    and ret :: "'h \<Rightarrow> 'p \<Rightarrow> 'n \<Rightarrow> 'h cres"
    and idle :: "'h \<Rightarrow> 'n \<Rightarrow> bool"
  assumes rent_law: "owns h p R \<Longrightarrow> \<exists>l h' p'. rent h p = Inr (l, h', p') \<and> l \<notin> R
      \<and> owns h' p' (insert l R) \<and> idle h' l \<and> (\<forall>x \<in> R. idle h x \<longrightarrow> idle h' x)"
    and return_law: "owns h p R \<Longrightarrow> l \<in> R \<Longrightarrow> idle h l \<Longrightarrow> \<exists>h'. ret h p l = Inr h'
      \<and> owns h' p (R - {l}) \<and> (\<forall>x \<in> R - {l}. idle h x \<longrightarrow> idle h' x)"
begin

lemma rent_n_distinct:
  assumes "owns h p R"
  shows "\<exists>ls h' p'. rent_n rent h p n = Inr (ls, h', p') \<and> length ls = n \<and> distinct ls
           \<and> set ls \<inter> R = {} \<and> owns h' p' (R \<union> set ls) \<and> (\<forall>l \<in> set ls. idle h' l)
           \<and> (\<forall>x \<in> R. idle h x \<longrightarrow> idle h' x)"
  using assms
proof (induction n arbitrary: h p R)
  case (Suc n)
  obtain l h1 p1 where l: "rent h p = Inr (l, h1, p1)" "l \<notin> R" "owns h1 p1 (insert l R)" "idle h1 l"
    "\<forall>x \<in> R. idle h x \<longrightarrow> idle h1 x" using rent_law [OF Suc.prems] by blast
  obtain ls h2 p2 where "rent_n rent h1 p1 n = Inr (ls, h2, p2)" "length ls = n" "distinct ls"
    "set ls \<inter> insert l R = {}" "owns h2 p2 (insert l R \<union> set ls)" "\<forall>l \<in> set ls. idle h2 l"
    "\<forall>x \<in> insert l R. idle h1 x \<longrightarrow> idle h2 x" using Suc.IH [OF l(3)] by blast
  with l show ?case by (intro exI [of _ "l # ls"] exI [of _ h2] exI [of _ p2]) auto
qed simp

lemma return_all_owns:
  assumes "owns h p R" and "distinct ls" and "set ls \<subseteq> R" and "\<forall>l \<in> set ls. idle h l"
  shows "\<exists>h'. return_all ret h p ls = Inr h' \<and> owns h' p (R - set ls)"
  using assms
proof (induction ls arbitrary: h R)
  case (Cons l ls)
  obtain h1 where h1: "ret h p l = Inr h1" "owns h1 p (R - {l})" "\<forall>x \<in> R - {l}. idle h x \<longrightarrow> idle h1 x"
    using return_law [of h p R l] Cons.prems by auto
  have "\<forall>x \<in> set ls. idle h1 x" using Cons.prems h1(3) by auto
  then obtain h2 where "return_all ret h1 p ls = Inr h2" "owns h2 p (R - {l} - set ls)"
    using Cons.IH [OF h1(2)] Cons.prems by auto
  moreover have "R - {l} - set ls = R - set (l # ls)" by auto
  ultimately show ?case using h1(1) by auto
qed simp

end

definition pool_owns :: "(nat \<Rightarrow> 'n) \<Rightarrow> 'n links \<Rightarrow> 'n linkpool \<Rightarrow> 'n set \<Rightarrow> bool" where
  "pool_owns mk h pool R \<longleftrightarrow> (\<exists>free. pool_inv mk h pool free R)"

definition link_idle :: "'n links \<Rightarrow> 'n \<Rightarrow> bool" where
  "link_idle h link \<longleftrightarrow> \<not> uo_linklist_is_linked h link"

lemma held_idle:
  assumes "pool_inv mk h pool free R" and "x \<in> R - S" and "link_idle h x"
    and "\<forall>x. x \<noteq> lp_head pool \<longrightarrow> x \<notin> range mk - (R - S) \<longrightarrow> same_at h h' x"
  shows "link_idle h' x"
proof -
  have "x \<in> range mk" "lp_head pool \<notin> range mk" using assms(1,2) by (auto simp: pool_inv_def)
  then have "x \<noteq> lp_head pool" by metis
  then have "same_at h h' x" using assms(2,4) by blast
  then show ?thesis using assms(3) by (simp add: link_idle_def same_at_linked)
qed

interpretation uo_linkpool: link_pool "pool_owns mk" "uo_linkpool_rent mk" uo_linkpool_return link_idle
  for mk :: "nat \<Rightarrow> 'n"
proof unfold_locales
  fix h :: "'n links" and p R
  assume "pool_owns mk h p R"
  then obtain free where inv: "pool_inv mk h p free R" by (auto simp: pool_owns_def)
  obtain l h' p' where r: "uo_linkpool_rent mk h p = Inr (l, h', p')" "l \<notin> R"
    "pool_inv mk h' p' (free @ map mk [lp_next p..<lp_next p + 31]) (insert l R)"
    "\<not> uo_linklist_is_linked h' l"
    "\<forall>x. x \<noteq> lp_head p \<longrightarrow> x \<notin> range mk - R \<longrightarrow> same_at h h' x"
    using pool_inv_rent [OF inv] by auto
  then have "\<forall>x \<in> R. link_idle h x \<longrightarrow> link_idle h' x"
    using held_idle [OF inv, of _ "{}" h'] by auto
  with r show "\<exists>l h' p'. uo_linkpool_rent mk h p = Inr (l, h', p') \<and> l \<notin> R
      \<and> pool_owns mk h' p' (insert l R) \<and> link_idle h' l \<and> (\<forall>x \<in> R. link_idle h x \<longrightarrow> link_idle h' x)"
    by (auto simp: pool_owns_def link_idle_def)
next
  fix h :: "'n links" and p R l
  assume "pool_owns mk h p R" and l: "l \<in> R" "link_idle h l"
  then obtain free where inv: "pool_inv mk h p free R" by (auto simp: pool_owns_def)
  obtain h' where r: "uo_linkpool_return h p l = Inr h'" "pool_inv mk h' p (free @ [l]) (R - {l})"
    "\<forall>x. x \<noteq> lp_head p \<longrightarrow> x \<notin> range mk - (R - {l}) \<longrightarrow> same_at h h' x"
    using pool_inv_return [OF inv l(1)] l(2) by (auto simp: link_idle_def)
  then have "\<forall>x \<in> R - {l}. link_idle h x \<longrightarrow> link_idle h' x"
    using held_idle [OF inv, of _ "{l}" h'] by blast
  with r show "\<exists>h'. uo_linkpool_return h p l = Inr h' \<and> pool_owns mk h' p (R - {l})
      \<and> (\<forall>x \<in> R - {l}. link_idle h x \<longrightarrow> link_idle h' x)"
    by (auto simp: pool_owns_def)
qed

text \<open>
  The same with what a call leaves alone: everything but the head of the free list and the
  items of the pool that nobody holds.
\<close>

definition pool_frame :: "(nat \<Rightarrow> 'n) \<Rightarrow> 'n linkpool \<Rightarrow> 'n set \<Rightarrow> 'n links \<Rightarrow> 'n links \<Rightarrow> bool" where
  "pool_frame mk pool R h h' \<longleftrightarrow>
     (\<forall>x. x \<noteq> lp_head pool \<longrightarrow> x \<notin> range mk - R \<longrightarrow> same_at h h' x)"

lemma pool_owns_rent:
  assumes "pool_owns mk h pool R"
  shows "\<exists>l h' pool'. uo_linkpool_rent mk h pool = Inr (l, h', pool') \<and> l \<notin> R \<and> l \<in> range mk
           \<and> pool_owns mk h' pool' (insert l R) \<and> link_idle h' l \<and> lp_head pool' = lp_head pool
           \<and> pool_frame mk pool R h h'"
proof -
  obtain free where "pool_inv mk h pool free R" using assms by (auto simp: pool_owns_def)
  from pool_inv_rent [OF this] show ?thesis
    unfolding pool_frame_def pool_owns_def link_idle_def by (metis rangeI)
qed

lemma pool_owns_return:
  assumes "pool_owns mk h pool R" and "l \<in> R" and "link_idle h l"
  shows "\<exists>h'. uo_linkpool_return h pool l = Inr h' \<and> pool_owns mk h' pool (R - {l})
           \<and> pool_frame mk pool (R - {l}) h h'"
proof -
  obtain free where "pool_inv mk h pool free R" using assms by (auto simp: pool_owns_def)
  from pool_inv_return [OF this assms(2)] assms(3) show ?thesis
    unfolding pool_frame_def pool_owns_def link_idle_def by blast
qed

lemma pool_owns_cong:
  assumes "pool_owns mk h pool R" and "\<And>x. x = lp_head pool \<or> x \<in> range mk - R \<Longrightarrow> same_at h h' x"
  shows "pool_owns mk h' pool R"
proof -
  obtain free where inv: "pool_inv mk h pool free R" using assms by (auto simp: pool_owns_def)
  then have sub: "set free \<subseteq> range mk - R" unfolding pool_inv_def by blast
  have "clist h (lp_head pool) free" using inv by (simp add: pool_inv_def)
  then have "clist h' (lp_head pool) free"
  proof (rule clist_cong)
    fix x assume "x \<in> set (lp_head pool # free)"
    then have "x = lp_head pool \<or> x \<in> range mk - R" using subsetD [OF sub, of x] by (simp only: set_simps insert_iff) blast
    then show "same_at h h' x" by (rule assms(2))
  qed
  with inv show ?thesis by (auto simp: pool_owns_def pool_inv_def)
qed

lemma pool_owns_subset: "pool_owns mk h pool R \<Longrightarrow> R \<subseteq> range mk"
  by (auto simp: pool_owns_def pool_inv_def)

section \<open>Threads that come and go\<close>

lemma pop_blocks_all: "stack_rel s bs \<Longrightarrow> pop_blocks (length bs) s = Inr (rev bs)"
proof (induction bs arbitrary: s rule: rev_induct)
  case (snoc b bs)
  obtain s' where "uo_stack_pop s = Inr (b, s')" "stack_rel s' bs" using stack_rel_pop [OF snoc.prems] by blast
  with snoc.IH show ?case by simp
qed simp

lemma quit_loop_all:
  "queue_rel q sts \<Longrightarrow> list_all2 stack_rel sts bss \<Longrightarrow> quit_loop q = Inr (concat (map rev bss))"
proof (induction sts arbitrary: q bss)
  case Nil
  then have "uo_queue_dequeue q False = Some (None, q)" by (simp add: uo_queue_dequeue_def queue_rel_def)
  with Nil show ?case by (subst quit_loop.simps) simp
next
  case (Cons st sts)
  obtain bs bss' where b: "bss = bs # bss'" "stack_rel st bs" "list_all2 stack_rel sts bss'"
    using Cons.prems(2) by (auto simp: list_all2_Cons1)
  have "uo_queue_dequeue q False = Some (Some st, dequeued q)"
    using queue_rel_dequeued [OF Cons.prems(1)] Cons.prems(1)
    by (simp add: uo_queue_dequeue_def dequeued_def Let_def queue_rel_def)
  moreover have "uo_stack_count st = length bs" using b(2) by (simp add: uo_stack_count_def stack_relD)
  ultimately show ?case
    using b Cons.IH [OF queue_rel_dequeued(1) [OF Cons.prems(1)] b(3)] pop_blocks_all [OF b(2)]
    by (subst quit_loop.simps) simp
qed

text \<open>The state of a program before any call: heads are zero, no queue.\<close>

definition linkpool_static :: "'n \<Rightarrow> 'n linkpool" where
  "linkpool_static head = \<lparr> lp_queue = None, lp_stack = None, lp_head = head, lp_next = 0 \<rparr>"

definition links_zero :: "'n links" where
  "links_zero = \<lparr> nxt = \<lambda>_. None, prv = \<lambda>_. None \<rparr>"

lemma pool_inv_thrd_init:
  assumes "lp_queue pool = Some q" "queue_rel q sts" "\<forall>st \<in> set sts. \<exists>bs. stack_rel st bs"
    and "inj mk" "lp_head pool \<notin> range mk" "\<not> uo_linkpool_is_thrd_init h pool"
  shows "\<exists>h' pool'. uo_linkpool_thrd_init h pool = Some (Inr (True, h', pool'))
           \<and> pool_inv mk h' pool' [] (mk ` {..<lp_next pool})
           \<and> lp_queue pool' = Some (if sts = [] then q else dequeued q)
           \<and> lp_head pool' = lp_head pool \<and> lp_next pool' = lp_next pool
           \<and> (\<forall>x. x \<noteq> lp_head pool \<longrightarrow> same_at h h' x)"
proof -
  define st q' where "st = (case sts of [] \<Rightarrow> uo_stack_create_at 0 | st # _ \<Rightarrow> st)"
    and "q' = (if sts = [] then q else dequeued q)"
  have "\<exists>bs. stack_rel st bs"
    using assms(3) stack_rel_create [of 0] by (auto simp: st_def split: list.splits)
  moreover have "\<exists>r. uo_queue_dequeue q False = Some (r, q')
      \<and> (case r of Some stack \<Rightarrow> stack | None \<Rightarrow> uo_stack_create_at 0) = st"
  proof (cases sts)
    case Nil
    then show ?thesis using assms(2) by (auto simp: uo_queue_dequeue_def queue_rel_def st_def q'_def)
  next
    case (Cons s ss)
    with queue_rel_dequeued [of q s ss] assms(2) show ?thesis
      by (auto simp: uo_queue_dequeue_def dequeued_def Let_def queue_rel_def st_def q'_def)
  qed
  ultimately show ?thesis
    using assms clist_selflink [of h "lp_head pool"]
    by (auto simp: uo_linkpool_thrd_init_def pool_inv_def uo_linklist_selflink_def same_at_def q'_def)
qed

text \<open>The pool of the first thread, after \<^verbatim>\<open>init\<close> and \<^verbatim>\<open>thrd_init\<close>.\<close>

definition linkpool_first :: "'n \<Rightarrow> 'n linkpool" where
  "linkpool_first head = \<lparr> lp_queue = Some (uo_queue_create 0x10), lp_stack = Some (uo_stack_create_at 0),
     lp_head = head, lp_next = 0 \<rparr>"

lemma linkpool_first_inits:
  "uo_linkpool_thrd_init links_zero (snd (uo_linkpool_init (linkpool_static head)))
     = Some (Inr (True, uo_linklist_selflink links_zero head, linkpool_first head))"
  by (simp add: uo_linkpool_thrd_init_def uo_linkpool_init_def linkpool_static_def uo_linkpool_is_init_def
      uo_linkpool_is_thrd_init_def uo_linklist_is_linked_def links_zero_def uo_queue_dequeue_def
      uo_queue_create_def linkpool_first_def)

lemma linkpool_first_inv:
  assumes "inj mk" and "head \<notin> range mk" and "clist h head []"
  shows "pool_inv mk h (linkpool_first head) [] {}"
  using assms stack_rel_create [of 0] by (auto simp: pool_inv_def linkpool_first_def)

section \<open>Properties\<close>



text \<open>
  \<^verbatim>\<open>uo_linkpool_rent\<close> allocates a block of 32 items in every call, however many items the
  free list holds, and hands out the last of them: the free list gets 31 items longer.
\<close>

theorem uo_linkpool_rent_grows:
  assumes "pool_inv mk h pool free R"
  shows "\<exists>h' pool'. uo_linkpool_rent mk h pool = Inr (mk (lp_next pool + 31), h', pool')
           \<and> lp_next pool' = lp_next pool + 32
           \<and> pool_inv mk h' pool' (free @ map mk [lp_next pool..<lp_next pool + 31])
               (insert (mk (lp_next pool + 31)) R)"
  using pool_inv_rent [OF assms] by auto

theorem uo_linkpool_rent_grows_witness:
  "\<exists>h' pool'. uo_linkpool_rent Some (uo_linklist_selflink links_zero None) (linkpool_first None)
       = Inr (Some 31, h', pool') \<and> lp_next pool' = 32
     \<and> pool_inv Some h' pool' (map Some [0..<31]) {Some 31}"
  using uo_linkpool_rent_grows [OF linkpool_first_inv [of Some None, OF _ _ clist_selflink]]
  by (simp add: linkpool_first_def)

text \<open>
  C31: a thread that leaves hands its stack of blocks to the queue; it waits exactly when the
  queue already holds as many stacks as its capacity (16 for the pools of the library).
  Afterwards \<^verbatim>\<open>quit\<close> frees every block of every stack in the queue, each once.
\<close>

theorem uo_linkpool_thrd_quit_frees:
  assumes "lp_queue pool = Some q" and "queue_rel q sts" and "list_all2 stack_rel sts bss"
    and "lp_stack pool = Some st" and "stack_rel st bs" and "uo_linkpool_is_thrd_init h pool"
  shows "if length sts = q_capasity q then uo_linkpool_thrd_quit h pool = None
         else \<exists>h' pool'. uo_linkpool_thrd_quit h pool = Some (Inr (h', pool'))
           \<and> \<not> uo_linkpool_is_thrd_init h' pool'
           \<and> uo_linkpool_quit pool' = Inr (concat (map rev bss) @ rev bs)"
proof (cases "length sts = q_capasity q")
  case True
  then have "uo_queue_enqueue q st True = None"
    using assms(2) by (simp add: uo_queue_enqueue_def queue_rel_def)
  with True assms show ?thesis by (simp add: uo_linkpool_thrd_quit_def)
next
  case False
  then have room: "length sts < q_capasity q" using assms(2) by (simp add: queue_rel_def)
  have "uo_queue_enqueue q st True = Some (True, enqueued q st)"
    using assms(2) room by (simp add: uo_queue_enqueue_def enqueued_def Let_def queue_rel_def)
  moreover have "quit_loop (enqueued q st) = Inr (concat (map rev (bss @ [bs])))"
    by (rule quit_loop_all [OF queue_rel_enqueued [OF assms(2) room]])
       (use assms(3,5) in \<open>simp add: list_all2_appendI\<close>)
  ultimately show ?thesis using False assms
    by (auto simp: uo_linkpool_thrd_quit_def uo_linkpool_quit_def uo_linkpool_is_thrd_init_def
        uo_linklist_is_linked_def uo_linklist_reset_def)
qed

theorem uo_linkpool_thrd_quit_frees_witness:
  "\<exists>h' pool'. uo_linkpool_thrd_quit (uo_linklist_selflink links_zero (0::nat)) (linkpool_first 0)
       = Some (Inr (h', pool')) \<and> \<not> uo_linkpool_is_thrd_init h' pool' \<and> uo_linkpool_quit pool' = Inr []"
proof -
  have "queue_rel (uo_queue_create 16) []" using queue_rel_create [of 4] by simp
  then show ?thesis
    using uo_linkpool_thrd_quit_frees
      [of "linkpool_first 0" "uo_queue_create 0x10" "[]" "[]" "uo_stack_create_at 0" "[]"
        "uo_linklist_selflink links_zero (0::nat)"] stack_rel_create [of 0]
    by (simp add: linkpool_first_def uo_queue_create_def uo_linkpool_is_thrd_init_def
        uo_linklist_is_linked_def uo_linklist_selflink_def)
qed

end
