(* ===== verification/Refcount.thy ===== *)
theory Refcount
  imports Linkpool
begin

text \<open>
  \<^verbatim>\<open>uo_refcount/src/uo_refcount.c\<close>, its header, and \<^verbatim>\<open>uo_refstack/src/include/uo_refstack/uo_refstack.h\<close>:
  reference counted resources, whose structs come from a pool of links, and stacks of them
  that are finalized together. A finalizer is a function of the client; calling it changes the
  client's state, by the parameter \<open>call\<close>.
\<close>

record ('f, 'p) uo_refcount =
  rc_ptr :: 'p
  rc_finalizer :: 'f
  rc_count :: "64 word"

text \<open>
  \<^verbatim>\<open>atomic_uint_fast32_t\<close> has 64 bits on the platforms the library is built for; \<open>rs_items\<close> is
  the item of each link, and \<open>rs_world\<close> the state that finalizers change.
\<close>

record ('n, 'f, 'p, 'w) refs =
  rs_links :: "'n links"
  rs_pool :: "'n linkpool"
  rs_items :: "'n \<Rightarrow> ('f, 'p) uo_refcount option"
  rs_world :: 'w

section \<open>Reference counts\<close>

definition uo_refcount_create ::
  "(nat \<Rightarrow> 'n) \<Rightarrow> ('n, 'f, 'p, 'w) refs \<Rightarrow> 'p \<Rightarrow> 'f \<Rightarrow> ('n \<times> ('n, 'f, 'p, 'w) refs) cres" where
  "uo_refcount_create mk s ptr finalizer =
     res_bind (uo_linkpool_rent mk (rs_links s) (rs_pool s)) (\<lambda>(link, h, pool).
       Inr (link, s\<lparr> rs_links := h, rs_pool := pool,
         rs_items := (rs_items s)(link \<mapsto> \<lparr> rc_ptr = ptr, rc_finalizer = finalizer, rc_count = 1 \<rparr>) \<rparr>))"

text \<open>The count is kept in 32 bits for the \<^verbatim>\<open>assert\<close>.\<close>

definition uo_refcount_inc :: "('n, 'f, 'p, 'w) refs \<Rightarrow> 'n \<Rightarrow> ('n, 'f, 'p, 'w) refs cres" where
  "uo_refcount_inc s refcount =
     (case rs_items s refcount of
        None \<Rightarrow> Inl Uninitialised
      | Some r \<Rightarrow>
          let cnt = ucast (rc_count r) :: 32 word;
              s = s\<lparr> rs_items := (rs_items s)(refcount \<mapsto> r\<lparr> rc_count := rc_count r + 1 \<rparr>) \<rparr>
          in if cnt = 0 then Inl AssertFailed else Inr s)"

definition uo_refcount_dec ::
  "('f \<Rightarrow> 'p \<Rightarrow> 'w \<Rightarrow> 'w) \<Rightarrow> ('n, 'f, 'p, 'w) refs \<Rightarrow> 'n \<Rightarrow> ('n, 'f, 'p, 'w) refs cres" where
  "uo_refcount_dec call s refcount =
     (case rs_items s refcount of
        None \<Rightarrow> Inl Uninitialised
      | Some r \<Rightarrow>
          let s = s\<lparr> rs_items := (rs_items s)(refcount \<mapsto> r\<lparr> rc_count := rc_count r - 1 \<rparr>) \<rparr>
          in if rc_count r = 1
             then let s = s\<lparr> rs_world := call (rc_finalizer r) (rc_ptr r) (rs_world s) \<rparr>
                  in res_bind (uo_linkpool_return (rs_links s) (rs_pool s) refcount) (\<lambda>h.
                     Inr (s\<lparr> rs_links := h \<rparr>))
             else Inr s)"

section \<open>Stacks of references\<close>

definition uo_refstack_create :: "'n uo_stack" where
  "uo_refstack_create = uo_stack_create_at 0"

definition uo_refstack_push ::
  "(nat \<Rightarrow> 'n) \<Rightarrow> ('n, 'f, 'p, 'w) refs \<Rightarrow> 'n uo_stack \<Rightarrow> 'p \<Rightarrow> 'f
     \<Rightarrow> (('n, 'f, 'p, 'w) refs \<times> 'n uo_stack) cres" where
  "uo_refstack_push mk s refstack ptr finalizer =
     res_bind (uo_refcount_create mk s ptr finalizer) (\<lambda>(refcount, s).
     res_bind (uo_stack_push refstack refcount) (\<lambda>refstack. Inr (s, refstack)))"

definition uo_refstack_push_refcount :: "'n uo_stack \<Rightarrow> 'n \<Rightarrow> 'n uo_stack cres" where
  "uo_refstack_push_refcount refstack refcount = uo_stack_push refstack refcount"

fun finalize_loop ::
  "('f \<Rightarrow> 'p \<Rightarrow> 'w \<Rightarrow> 'w) \<Rightarrow> nat \<Rightarrow> ('n, 'f, 'p, 'w) refs \<Rightarrow> 'n uo_stack
     \<Rightarrow> (('n, 'f, 'p, 'w) refs \<times> 'n uo_stack) cres" where
  "finalize_loop call 0 s refstack = Inr (s, refstack)"
| "finalize_loop call (Suc i) s refstack =
     res_bind (uo_stack_pop refstack) (\<lambda>(refcount, refstack).
     res_bind (uo_refcount_dec call s refcount) (\<lambda>s. finalize_loop call i s refstack))"

definition uo_refstack_finalize ::
  "('f \<Rightarrow> 'p \<Rightarrow> 'w \<Rightarrow> 'w) \<Rightarrow> ('n, 'f, 'p, 'w) refs \<Rightarrow> 'n uo_stack
     \<Rightarrow> (('n, 'f, 'p, 'w) refs \<times> 'n uo_stack) cres" where
  "uo_refstack_finalize call s refstack = finalize_loop call (uo_stack_count refstack) s refstack"

section \<open>The counts of the held references\<close>

text \<open>
  \<open>refs_rel mk s M\<close>: \<open>M\<close> gives the resource, the finalizer and the number of references of
  every live reference count; these are exactly what is taken from the pool.
\<close>

definition refs_rel ::
  "(nat \<Rightarrow> 'n) \<Rightarrow> ('n, 'f, 'p, 'w) refs \<Rightarrow> ('n \<rightharpoonup> 'p \<times> 'f \<times> nat) \<Rightarrow> bool" where
  "refs_rel mk s M \<longleftrightarrow>
     pool_owns mk (rs_links s) (rs_pool s) (dom M)
     \<and> (\<forall>l ptr fin n. M l = Some (ptr, fin, n) \<longrightarrow>
          link_idle (rs_links s) l \<and> 0 < n \<and> n < 2 ^ 32
          \<and> rs_items s l = Some \<lparr> rc_ptr = ptr, rc_finalizer = fin, rc_count = of_nat n \<rparr>)"

lemma refs_relD:
  assumes "refs_rel mk s M"
  shows "pool_owns mk (rs_links s) (rs_pool s) (dom M)"
    and "M l = Some v \<Longrightarrow> link_idle (rs_links s) l"
    and "M l = Some (ptr, fin, n) \<Longrightarrow> 0 < n \<and> n < 2 ^ 32
      \<and> rs_items s l = Some \<lparr> rc_ptr = ptr, rc_finalizer = fin, rc_count = of_nat n \<rparr>"
  using assms by (cases v; simp add: refs_rel_def)+

lemma refs_create:
  assumes "refs_rel mk s M"
  shows "\<exists>l s'. uo_refcount_create mk s ptr fin = Inr (l, s') \<and> M l = None
           \<and> refs_rel mk s' (M(l \<mapsto> (ptr, fin, 1))) \<and> rs_world s' = rs_world s"
proof -
  obtain l h p where r: "uo_linkpool_rent mk (rs_links s) (rs_pool s) = Inr (l, h, p)" "l \<notin> dom M"
    "pool_owns mk h p (insert l (dom M))" "link_idle h l"
    "\<forall>x \<in> dom M. link_idle (rs_links s) x \<longrightarrow> link_idle h x"
    using uo_linkpool.rent_law [OF refs_relD(1) [OF assms]] by blast
  have "M l = None" using r(2) by blast
  moreover have "link_idle h x" if "M x = Some v" for x v
    using r(5) domI [of M, OF that] refs_relD(2) [OF assms that] by blast
  ultimately show ?thesis using assms r by (auto simp: uo_refcount_create_def refs_rel_def)
qed

text \<open>Counts below \<open>2 ^ 32\<close> are the same in 64 and in 32 bits.\<close>

lemma count_words:
  assumes "n < 2 ^ 32"
  shows "(of_nat n :: 64 word) = 1 \<longleftrightarrow> n = 1" and "(ucast (of_nat n :: 64 word) :: 32 word) = 0 \<longleftrightarrow> n = 0"
proof -
  have u: "unat (of_nat n :: 64 word) = n" using assms by (intro unat_of_nat_64) simp
  then show "(of_nat n :: 64 word) = 1 \<longleftrightarrow> n = 1"
    by (metis of_nat_1 unat_1)
  have "unat (ucast (of_nat n :: 64 word) :: 32 word) = n"
    using assms u by (simp add: unsigned_ucast_eq take_bit_nat_eq_self)
  then show "(ucast (of_nat n :: 64 word) :: 32 word) = 0 \<longleftrightarrow> n = 0" by (metis unat_eq_0)
qed

lemma refs_inc:
  assumes rel: "refs_rel mk s M" and l: "M l = Some (ptr, fin, n)" and n: "Suc n < 2 ^ 32"
  shows "\<exists>s'. uo_refcount_inc s l = Inr s' \<and> refs_rel mk s' (M(l \<mapsto> (ptr, fin, Suc n)))
           \<and> rs_world s' = rs_world s"
proof -
  have "0 < n" using assms by (auto simp: refs_rel_def)
  then have "(ucast (of_nat n :: 64 word) :: 32 word) \<noteq> 0" using count_words [of n] n by simp
  moreover have "insert l (dom M) = dom M" using l by auto
  ultimately show ?thesis using assms
    by (auto simp: uo_refcount_inc_def refs_rel_def Let_def add.commute)
qed

lemma refs_dec:
  assumes rel: "refs_rel mk s M" and l: "M l = Some (ptr, fin, Suc n)" and n: "0 < n"
  shows "\<exists>s'. uo_refcount_dec call s l = Inr s' \<and> refs_rel mk s' (M(l \<mapsto> (ptr, fin, n)))
           \<and> rs_world s' = rs_world s"
proof -
  have "Suc n < 2 ^ 32" using refs_relD(3) [OF rel l] by blast
  moreover have "(of_nat (Suc n) :: 64 word) \<noteq> 1" using refs_relD(3) [OF rel l] count_words [of "Suc n"] n by simp
  moreover have "insert l (dom M) = dom M" using l by auto
  ultimately show ?thesis using assms
    by (auto simp: uo_refcount_dec_def refs_rel_def Let_def)
qed

lemma refs_dec_last:
  assumes rel: "refs_rel mk s M" and l: "M l = Some (ptr, fin, 1)"
  shows "\<exists>s'. uo_refcount_dec call s l = Inr s' \<and> refs_rel mk s' (M(l := None))
           \<and> rs_world s' = call fin ptr (rs_world s)"
proof -
  have it: "rs_items s l = Some \<lparr> rc_ptr = ptr, rc_finalizer = fin, rc_count = 1 \<rparr>"
    and idle: "link_idle (rs_links s) l" and own: "pool_owns mk (rs_links s) (rs_pool s) (dom M)"
    using rel l by (auto simp: refs_rel_def)
  obtain h where h: "uo_linkpool_return (rs_links s) (rs_pool s) l = Inr h"
    "pool_owns mk h (rs_pool s) (dom M - {l})" "\<forall>x \<in> dom M - {l}. link_idle (rs_links s) x \<longrightarrow> link_idle h x"
    using uo_linkpool.return_law [OF own domI [of M, OF l] idle] by blast
  from h(3) have "link_idle h x" if "M x = Some v" "x \<noteq> l" for x v
    using that refs_relD(2) [OF rel that(1)] domI [of M, OF that(1)] by blast
  with h(1,2) rel it show ?thesis by (auto simp: uo_refcount_dec_def refs_rel_def Let_def)
qed

section \<open>Sequences of operations\<close>

datatype rc_op = Inc | Dec

fun run_ops ::
  "('f \<Rightarrow> 'p \<Rightarrow> 'w \<Rightarrow> 'w) \<Rightarrow> ('n, 'f, 'p, 'w) refs \<Rightarrow> 'n \<Rightarrow> rc_op list \<Rightarrow> ('n, 'f, 'p, 'w) refs cres" where
  "run_ops call s l [] = Inr s"
| "run_ops call s l (Inc # ops) = res_bind (uo_refcount_inc s l) (\<lambda>s. run_ops call s l ops)"
| "run_ops call s l (Dec # ops) = res_bind (uo_refcount_dec call s l) (\<lambda>s. run_ops call s l ops)"

text \<open>The references that remain, when no operation uses a count that has reached zero.\<close>

fun remaining :: "nat \<Rightarrow> rc_op list \<Rightarrow> nat option" where
  "remaining n [] = Some n"
| "remaining 0 (op # ops) = None"
| "remaining (Suc n) (Inc # ops) = remaining (Suc (Suc n)) ops"
| "remaining (Suc n) (Dec # ops) = remaining n ops"

lemma remaining_zero: "remaining 0 ops = Some m \<Longrightarrow> ops = [] \<and> m = 0"
  by (cases ops) auto

lemma refs_run_ops:
  assumes "refs_rel mk s M" and "M l = Some (ptr, fin, n)" and "remaining n ops = Some m"
    and "n + length ops < 2 ^ 32"
  shows "\<exists>s'. run_ops call s l ops = Inr s'
           \<and> refs_rel mk s' (M(l := if m = 0 then None else Some (ptr, fin, m)))
           \<and> rs_world s' = (if m = 0 then call fin ptr (rs_world s) else rs_world s)"
  using assms
proof (induction ops arbitrary: n s M)
  case Nil
  then show ?case using refs_relD(3) [OF Nil.prems(1,2)] by (auto simp: fun_upd_idem)
next
  case (Cons op ops)
  obtain k where k: "n = Suc k" using refs_relD(3) [OF Cons.prems(1,2)] gr0_implies_Suc by blast
  note l = Cons.prems(2) [unfolded k]
  show ?case
  proof (cases op)
    case Inc
    obtain s1 where s1: "uo_refcount_inc s l = Inr s1" "refs_rel mk s1 (M(l \<mapsto> (ptr, fin, Suc (Suc k))))"
      "rs_world s1 = rs_world s" using refs_inc [OF Cons.prems(1) l] Cons.prems(4) k by auto
    from Cons.IH [OF s1(2) fun_upd_same, unfolded fun_upd_upd s1(3)] show ?thesis
      using Cons.prems(3,4) Inc k s1(1,3) by (simp split del: if_split)
  next
    case Dec
    show ?thesis
    proof (cases k)
      case 0
      obtain s1 where "uo_refcount_dec call s l = Inr s1" "refs_rel mk s1 (M(l := None))"
        "rs_world s1 = call fin ptr (rs_world s)"
        using refs_dec_last [OF Cons.prems(1), of l ptr fin call] l 0 by auto
      moreover have "ops = [] \<and> m = 0" using Cons.prems(3) Dec k 0 remaining_zero by simp
      ultimately show ?thesis using Dec by (simp add: fun_upd_def)
    next
      case (Suc j)
      obtain s1 where s1: "uo_refcount_dec call s l = Inr s1" "refs_rel mk s1 (M(l \<mapsto> (ptr, fin, k)))"
        "rs_world s1 = rs_world s" using refs_dec [OF Cons.prems(1) l] Suc by auto
      from Cons.IH [OF s1(2) fun_upd_same, unfolded fun_upd_upd s1(3)] show ?thesis
        using Cons.prems(3,4) Dec k s1(1,3) by (simp split del: if_split)
    qed
  qed
qed

fun push_refs ::
  "(nat \<Rightarrow> 'n) \<Rightarrow> ('n, 'f, 'p, 'w) refs \<Rightarrow> 'n uo_stack \<Rightarrow> ('p \<times> 'f) list
     \<Rightarrow> (('n, 'f, 'p, 'w) refs \<times> 'n uo_stack) cres" where
  "push_refs mk s st [] = Inr (s, st)"
| "push_refs mk s st ((ptr, fin) # rs) =
     res_bind (uo_refstack_push mk s st ptr fin) (\<lambda>(s, st). push_refs mk s st rs)"

text \<open>\<open>adds M ls rs\<close>: the references \<open>ls\<close>, counted once, for the resources \<open>rs\<close>.\<close>

fun adds :: "('n \<rightharpoonup> 'p \<times> 'f \<times> nat) \<Rightarrow> 'n list \<Rightarrow> ('p \<times> 'f) list \<Rightarrow> ('n \<rightharpoonup> 'p \<times> 'f \<times> nat)" where
  "adds M (l # ls) ((ptr, fin) # rs) = adds (M(l \<mapsto> (ptr, fin, 1))) ls rs"
| "adds M ls rs = M"

lemma push_refs_rel:
  assumes "refs_rel mk s M" and "stack_rel st ks"
  shows "\<exists>s' st' ls. push_refs mk s st rs = Inr (s', st') \<and> length ls = length rs \<and> distinct ls
           \<and> set ls \<inter> dom M = {} \<and> refs_rel mk s' (adds M ls rs) \<and> stack_rel st' (ks @ ls)
           \<and> rs_world s' = rs_world s"
  using assms
proof (induction rs arbitrary: s st M ks)
  case Nil
  then show ?case by simp
next
  case (Cons r rs)
  obtain ptr fin where r: "r = (ptr, fin)" by (cases r)
  obtain l s1 where s1: "uo_refcount_create mk s ptr fin = Inr (l, s1)" "M l = None"
    "refs_rel mk s1 (M(l \<mapsto> (ptr, fin, 1)))" "rs_world s1 = rs_world s"
    using refs_create [OF Cons.prems(1)] by blast
  obtain st1 where st1: "uo_stack_push st l = Inr st1" "stack_rel st1 (ks @ [l])"
    using stack_rel_push [OF Cons.prems(2)] by blast
  obtain s' st' ls where "push_refs mk s1 st1 rs = Inr (s', st')" "length ls = length rs" "distinct ls"
    "set ls \<inter> dom (M(l \<mapsto> (ptr, fin, 1))) = {}" "refs_rel mk s' (adds (M(l \<mapsto> (ptr, fin, 1))) ls rs)"
    "stack_rel st' ((ks @ [l]) @ ls)" "rs_world s' = rs_world s1"
    using Cons.IH [OF s1(3) st1(2)] by blast
  with s1 st1 r show ?case
    by (intro exI [of _ s'] exI [of _ st'] exI [of _ "l # ls"]) (auto simp: uo_refstack_push_def)
qed

lemma adds_snoc:
  "length ls = length rs \<Longrightarrow> adds M (ls @ [l]) (rs @ [(ptr, fin)]) = (adds M ls rs)(l \<mapsto> (ptr, fin, 1))"
  by (induction M ls rs rule: adds.induct) auto

lemma adds_outside: "l \<notin> set ls \<Longrightarrow> adds M ls rs l = M l"
  by (induction M ls rs rule: adds.induct) auto

lemma finalize_loop_rel:
  assumes "refs_rel mk s (adds M ls rs)" and "stack_rel st (ks @ ls)" and "length ls = length rs"
    and "distinct ls" and "set ls \<inter> dom M = {}"
  shows "\<exists>s' st'. finalize_loop call (length rs) s st = Inr (s', st') \<and> refs_rel mk s' M
           \<and> stack_rel st' ks \<and> rs_world s' = fold (\<lambda>(ptr, fin). call fin ptr) (rev rs) (rs_world s)"
  using assms
proof (induction rs arbitrary: s st ls rule: rev_induct)
  case Nil
  then show ?case by simp
next
  case (snoc r rs)
  obtain ptr fin where r: "r = (ptr, fin)" by (cases r)
  obtain ls' l where ls: "ls = ls' @ [l]" "length ls' = length rs"
    using snoc.prems(3) by (cases ls rule: rev_cases) auto
  have a: "adds M ls (rs @ [r]) = (adds M ls' rs)(l \<mapsto> (ptr, fin, 1))"
    using ls r by (simp add: adds_snoc)
  have "adds M ls' rs l = None" using snoc.prems(4,5) ls(1) by (auto simp: adds_outside)
  then have b: "(adds M ls (rs @ [r]))(l := None) = adds M ls' rs" by (simp add: a fun_upd_idem)
  obtain s1 where s1: "uo_refcount_dec call s l = Inr s1" "refs_rel mk s1 (adds M ls' rs)"
    "rs_world s1 = call fin ptr (rs_world s)"
    using refs_dec_last [OF snoc.prems(1), of l ptr fin call, unfolded b] a by auto
  obtain st1 where st1: "uo_stack_pop st = Inr (l, st1)" "stack_rel st1 (ks @ ls')"
    using stack_rel_pop [of st "ks @ ls'" l] snoc.prems(2) ls(1) by auto
  show ?case
    using snoc.IH [OF s1(2) st1(2) ls(2)] snoc.prems(4,5) ls(1) s1(1,3) st1(1) r by auto
qed

section \<open>Properties\<close>

text \<open>The state after the first thread has set up the pool.\<close>

definition refs_start :: "'n \<Rightarrow> 'w \<Rightarrow> ('n, 'f, 'p, 'w) refs" where
  "refs_start head w = \<lparr> rs_links = uo_linklist_selflink links_zero head, rs_pool = linkpool_first head,
     rs_items = \<lambda>_. None, rs_world = w \<rparr>"

lemma refs_start_rel: "inj mk \<Longrightarrow> head \<notin> range mk \<Longrightarrow> refs_rel mk (refs_start head w) Map.empty"
  using linkpool_first_inv [OF _ _ clist_selflink, of mk head links_zero]
  by (auto simp: refs_rel_def refs_start_def pool_owns_def)

text \<open>
  C21: from creation on, in every sequence of increments and decrements that does not use a
  count after it reached zero, the finalizer runs exactly when the last reference goes, once,
  and then the struct is back in the pool; before that the count is the number of references.
\<close>

theorem uo_refcount_finalizes_once:
  assumes "refs_rel mk s M" and "remaining 1 ops = Some m" and "length ops < 2 ^ 32 - 1"
  shows "\<exists>l s1 s2. uo_refcount_create mk s ptr fin = Inr (l, s1) \<and> M l = None
           \<and> run_ops call s1 l ops = Inr s2
           \<and> refs_rel mk s2 (M(l := if m = 0 then None else Some (ptr, fin, m)))
           \<and> rs_world s2 = (if m = 0 then call fin ptr (rs_world s) else rs_world s)"
proof -
  obtain l s1 where s1: "uo_refcount_create mk s ptr fin = Inr (l, s1)" "M l = None"
    "refs_rel mk s1 (M(l \<mapsto> (ptr, fin, 1)))" "rs_world s1 = rs_world s"
    using refs_create [OF assms(1)] by blast
  have "1 + length ops < 2 ^ 32" using assms(3) by simp
  from refs_run_ops [OF s1(3) fun_upd_same assms(2) this, of call, unfolded fun_upd_upd s1(4)]
  show ?thesis using s1(1,2) by blast
qed

theorem uo_refcount_finalizes_once_witness:
  "\<exists>l s1 s2. uo_refcount_create Some (refs_start None [] :: (nat option, char, nat, nat list) refs) 7 CHR ''f'' = Inr (l, s1)
     \<and> run_ops (\<lambda>_. (#)) s1 l [Inc, Dec, Inc, Inc, Dec, Dec, Dec] = Inr s2 \<and> rs_world s2 = [7]"
proof -
  let ?s = "refs_start None [] :: (nat option, char, nat, nat list) refs"
  have "refs_rel Some ?s Map.empty" by (rule refs_start_rel) auto
  from uo_refcount_finalizes_once [OF this, of "[Inc, Dec, Inc, Inc, Dec, Dec, Dec]" 0 7 "CHR ''f''" "\<lambda>_. (#)"]
  show ?thesis by (auto simp: refs_start_def)
qed

text \<open>
  C32: \<^verbatim>\<open>uo_refstack_finalize\<close> finalizes the resources of a stack in the reverse of the order
  they were added, each exactly once, leaves the stack empty, and gives every struct back to
  the pool.
\<close>

theorem uo_refstack_finalize_reverse:
  assumes "refs_rel mk s M"
  shows "\<exists>s1 st1 s2 st2. push_refs mk s uo_refstack_create rs = Inr (s1, st1)
           \<and> uo_refstack_finalize call s1 st1 = Inr (s2, st2) \<and> stack_rel st2 []
           \<and> refs_rel mk s2 M
           \<and> rs_world s2 = fold (\<lambda>(ptr, fin). call fin ptr) (rev rs) (rs_world s)"
proof -
  have st: "stack_rel (uo_refstack_create :: 'a uo_stack) []"
    using stack_rel_create [of 0] by (simp add: uo_refstack_create_def)
  obtain s1 st1 ls where p: "push_refs mk s uo_refstack_create rs = Inr (s1, st1)" "length ls = length rs"
    "distinct ls" "set ls \<inter> dom M = {}" "refs_rel mk s1 (adds M ls rs)" "stack_rel st1 ([] @ ls)"
    "rs_world s1 = rs_world s" using push_refs_rel [OF assms st] by blast
  have "uo_stack_count st1 = length rs" using p(2,6) by (simp add: uo_stack_count_def stack_relD)
  then show ?thesis
    using finalize_loop_rel [OF p(5,6,2,3,4), of call] p(1,7) by (auto simp: uo_refstack_finalize_def)
qed

theorem uo_refstack_finalize_reverse_witness:
  "\<exists>s1 st1 s2 st2. push_refs Some (refs_start None [] :: (nat option, char, nat, nat list) refs)
       uo_refstack_create [(1, CHR ''a''), (2, CHR ''b''), (3, CHR ''a'')] = Inr (s1, st1)
     \<and> uo_refstack_finalize (\<lambda>_ p w. w @ [p]) s1 st1 = Inr (s2, st2) \<and> rs_world s2 = [3, 2, 1]"
proof -
  let ?s = "refs_start None [] :: (nat option, char, nat, nat list) refs"
  have "refs_rel Some ?s Map.empty" by (rule refs_start_rel) auto
  from uo_refstack_finalize_reverse [OF this, of "[(1, CHR ''a''), (2, CHR ''b''), (3, CHR ''a'')]"
      "\<lambda>_ p w. w @ [p]"]
  show ?thesis by (auto simp: refs_start_def)
qed

end
