(* ===== verification/Cb.thy ===== *)
theory Cb
  imports Linkpool
begin

text \<open>
  \<^verbatim>\<open>uo_cb/src/uo_cb.c\<close>: callbacks, objects that hold a list of functions to execute and a
  stack of data. Callbacks and the entries of their function lists are links of two pools,
  and the function list hangs on a link that is a field of the callback, so four kinds of
  addresses share the heap of links.
\<close>

datatype addr = CbHead | FuncHead | CbLink nat | FuncLink nat | Funclist addr

record ('f, 'd) cbs =
  cb_links :: "addr links"
  cb_pool :: "addr linkpool"
  func_pool :: "addr linkpool"
  cb_stack :: "addr \<Rightarrow> 'd uo_stack option"
  func_item :: "addr \<Rightarrow> 'f option"

section \<open>Operations\<close>

definition uo_cb_create :: "('f, 'd) cbs \<Rightarrow> (addr \<times> ('f, 'd) cbs) cres" where
  "uo_cb_create s =
     res_bind (uo_linkpool_rent CbLink (cb_links s) (cb_pool s)) (\<lambda>(cb, h, pool).
       Inr (cb, s\<lparr> cb_links := uo_linklist_selflink h (Funclist cb), cb_pool := pool,
                   cb_stack := (cb_stack s)(cb \<mapsto> uo_stack_create_at 0) \<rparr>))"

definition uo_cb_prepend_func :: "('f, 'd) cbs \<Rightarrow> addr \<Rightarrow> 'f \<Rightarrow> ('f, 'd) cbs cres" where
  "uo_cb_prepend_func s cb cb_func =
     res_bind (uo_linkpool_rent FuncLink (cb_links s) (func_pool s)) (\<lambda>(link, h, pool).
     res_bind (deref (nxt h (Funclist cb))) (\<lambda>pos.
     res_bind (uo_linklist_link h pos link) (\<lambda>h.
       Inr (s\<lparr> cb_links := h, func_pool := pool, func_item := (func_item s)(link \<mapsto> cb_func) \<rparr>))))"

definition uo_cb_append_func :: "('f, 'd) cbs \<Rightarrow> addr \<Rightarrow> 'f \<Rightarrow> ('f, 'd) cbs cres" where
  "uo_cb_append_func s cb cb_func =
     res_bind (uo_linkpool_rent FuncLink (cb_links s) (func_pool s)) (\<lambda>(link, h, pool).
     res_bind (uo_linklist_link h (Funclist cb) link) (\<lambda>h.
       Inr (s\<lparr> cb_links := h, func_pool := pool, func_item := (func_item s)(link \<mapsto> cb_func) \<rparr>)))"

text \<open>
  The loops over the function list of another callback, forwards and backwards. They end when
  they come back to the list head; \<open>fuel\<close> bounds the number of entries visited.
\<close>

fun append_loop :: "nat \<Rightarrow> ('f, 'd) cbs \<Rightarrow> addr \<Rightarrow> addr \<Rightarrow> addr \<Rightarrow> ('f, 'd) cbs run" where
  "append_loop fuel s cb cb_after link =
     (if link = Funclist cb_after then Some (Inr s)
      else case fuel of 0 \<Rightarrow> None
      | Suc fuel \<Rightarrow>
          (case func_item s link of
             None \<Rightarrow> Some (Inl Uninitialised)
           | Some cb_func \<Rightarrow>
               run_bind (Some (uo_cb_append_func s cb cb_func)) (\<lambda>s.
               run_bind (Some (deref (nxt (cb_links s) link))) (\<lambda>link.
               append_loop fuel s cb cb_after link))))"

fun prepend_loop :: "nat \<Rightarrow> ('f, 'd) cbs \<Rightarrow> addr \<Rightarrow> addr \<Rightarrow> addr \<Rightarrow> ('f, 'd) cbs run" where
  "prepend_loop fuel s cb cb_before link =
     (if link = Funclist cb_before then Some (Inr s)
      else case fuel of 0 \<Rightarrow> None
      | Suc fuel \<Rightarrow>
          (case func_item s link of
             None \<Rightarrow> Some (Inl Uninitialised)
           | Some cb_func \<Rightarrow>
               run_bind (Some (uo_cb_prepend_func s cb cb_func)) (\<lambda>s.
               run_bind (Some (deref (prv (cb_links s) link))) (\<lambda>link.
               prepend_loop fuel s cb cb_before link))))"

declare append_loop.simps [simp del] prepend_loop.simps [simp del]

text \<open>The items of the stack of a callback, as an array argument.\<close>

definition stack_arr :: "('f, 'd) cbs \<Rightarrow> addr \<Rightarrow> 'd list cres" where
  "stack_arr s cb =
     res_bind (deref (cb_stack s cb)) (\<lambda>st.
       let items = take (uo_stack_count st) (st_items st)
       in if None \<in> set items then Inl Uninitialised else Inr (map the items))"

definition uo_cb_clone :: "nat \<Rightarrow> ('f, 'd) cbs \<Rightarrow> addr \<Rightarrow> (addr \<times> ('f, 'd) cbs) run" where
  "uo_cb_clone fuel s cb =
     run_bind (Some (uo_cb_create s)) (\<lambda>(cb_clone, s).
     run_bind (Some (stack_arr s cb)) (\<lambda>arr.
     run_bind (Some (deref (cb_stack s cb_clone))) (\<lambda>st.
     run_bind (Some (uo_stack_push_arr st arr)) (\<lambda>st.
       let s = s\<lparr> cb_stack := (cb_stack s)(cb_clone \<mapsto> st) \<rparr> in
     run_bind (Some (deref (nxt (cb_links s) (Funclist cb)))) (\<lambda>link.
     run_bind (append_loop fuel s cb_clone cb link) (\<lambda>s. Some (Inr (cb_clone, s))))))))"

definition uo_cb_prepend_cb :: "nat \<Rightarrow> ('f, 'd) cbs \<Rightarrow> addr \<Rightarrow> addr \<Rightarrow> ('f, 'd) cbs run" where
  "uo_cb_prepend_cb fuel s cb cb_before =
     run_bind (Some (stack_arr s cb_before)) (\<lambda>arr.
     run_bind (Some (deref (cb_stack s cb))) (\<lambda>st.
     run_bind (Some (uo_stack_push_arr st arr)) (\<lambda>st.
       let s = s\<lparr> cb_stack := (cb_stack s)(cb \<mapsto> st) \<rparr> in
     run_bind (Some (deref (prv (cb_links s) (Funclist cb_before)))) (\<lambda>link.
     prepend_loop fuel s cb cb_before link))))"

definition uo_cb_append_cb :: "nat \<Rightarrow> ('f, 'd) cbs \<Rightarrow> addr \<Rightarrow> addr \<Rightarrow> ('f, 'd) cbs run" where
  "uo_cb_append_cb fuel s cb cb_after =
     run_bind (Some (stack_arr s cb_after)) (\<lambda>arr.
     run_bind (Some (deref (cb_stack s cb))) (\<lambda>st.
     run_bind (Some (uo_stack_insert_arr st 0 arr)) (\<lambda>st.
       let s = s\<lparr> cb_stack := (cb_stack s)(cb \<mapsto> st) \<rparr> in
     run_bind (Some (deref (nxt (cb_links s) (Funclist cb_after)))) (\<lambda>link.
     append_loop fuel s cb cb_after link))))"

text \<open>Taking the first entry off the function list; shared by destruction and invocation.\<close>

definition take_func :: "('f, 'd) cbs \<Rightarrow> addr \<Rightarrow> (addr \<times> ('f, 'd) cbs) cres" where
  "take_func s cb =
     res_bind (deref (uo_linklist_next (cb_links s) (Funclist cb))) (\<lambda>link.
     res_bind (uo_linklist_unlink (cb_links s) link) (\<lambda>h.
     res_bind (uo_linkpool_return h (func_pool s) link) (\<lambda>h.
       Inr (link, s\<lparr> cb_links := h \<rparr>))))"

fun destroy_loop :: "nat \<Rightarrow> ('f, 'd) cbs \<Rightarrow> addr \<Rightarrow> ('f, 'd) cbs run" where
  "destroy_loop fuel s cb =
     (if uo_linklist_is_empty (cb_links s) (Funclist cb) then Some (Inr s)
      else case fuel of 0 \<Rightarrow> None
      | Suc fuel \<Rightarrow> run_bind (Some (take_func s cb)) (\<lambda>(_, s). destroy_loop fuel s cb))"

declare destroy_loop.simps [simp del]

definition uo_cb_destroy :: "nat \<Rightarrow> ('f, 'd) cbs \<Rightarrow> addr \<Rightarrow> ('f, 'd) cbs run" where
  "uo_cb_destroy fuel s cb =
     (let s = s\<lparr> cb_stack := (cb_stack s)(cb := None) \<rparr> in
      run_bind (destroy_loop fuel s cb) (\<lambda>s.
      run_bind (Some (uo_linkpool_return (cb_links s) (cb_pool s) cb)) (\<lambda>h.
        Some (Inr (s\<lparr> cb_links := h \<rparr>)))))"

text \<open>
  \<^verbatim>\<open>uo_cb_invoke\<close> ends with the call of the function it took off the list; the model yields
  that function, or \<^term>\<open>None\<close> when the callback was destroyed. The code reads the item
  before it gives the link back, which does not change items.
\<close>

definition uo_cb_invoke :: "nat \<Rightarrow> ('f, 'd) cbs \<Rightarrow> addr \<Rightarrow> ('f option \<times> ('f, 'd) cbs) run" where
  "uo_cb_invoke fuel s cb =
     (if \<not> uo_linklist_is_empty (cb_links s) (Funclist cb)
      then run_bind (Some (take_func s cb)) (\<lambda>(link, s).
           run_bind (Some (deref (func_item s link))) (\<lambda>cb_func. Some (Inr (Some cb_func, s))))
      else run_bind (uo_cb_destroy fuel s cb) (\<lambda>s. Some (Inr (None, s))))"

text \<open>An asynchronous invocation leaves the callback to the threads of the pool.\<close>

definition uo_cb_invoke_async :: "addr uo_queue \<Rightarrow> addr \<Rightarrow> addr uo_queue option" where
  "uo_cb_invoke_async queue cb = uo_cb_queue_enqueue queue cb"

definition uo_cb_stack_push :: "('f, 'd) cbs \<Rightarrow> addr \<Rightarrow> 'd \<Rightarrow> ('f, 'd) cbs cres" where
  "uo_cb_stack_push s cb item =
     res_bind (deref (cb_stack s cb)) (\<lambda>st.
     res_bind (uo_stack_push st item) (\<lambda>st. Inr (s\<lparr> cb_stack := (cb_stack s)(cb \<mapsto> st) \<rparr>)))"

definition uo_cb_stack_pop :: "('f, 'd) cbs \<Rightarrow> addr \<Rightarrow> ('d \<times> ('f, 'd) cbs) cres" where
  "uo_cb_stack_pop s cb =
     res_bind (deref (cb_stack s cb)) (\<lambda>st.
     res_bind (uo_stack_pop st) (\<lambda>(item, st). Inr (item, s\<lparr> cb_stack := (cb_stack s)(cb \<mapsto> st) \<rparr>)))"

definition uo_cb_stack_peek :: "('f, 'd) cbs \<Rightarrow> addr \<Rightarrow> 'd cres" where
  "uo_cb_stack_peek s cb = res_bind (deref (cb_stack s cb)) uo_stack_peek"

definition uo_cb_stack_index :: "('f, 'd) cbs \<Rightarrow> addr \<Rightarrow> int \<Rightarrow> 'd cres" where
  "uo_cb_stack_index s cb index = res_bind (deref (cb_stack s cb)) (\<lambda>st. uo_stack_index st index)"

section \<open>The shape of the heap\<close>

text \<open>
  \<open>cb_shape h cp fp C ns\<close>: the callbacks \<open>C\<close> are the items taken from the pool \<open>cp\<close>; each has
  a function list with the links \<open>ns c\<close>, which are the items taken from the pool \<open>fp\<close>, and no
  two callbacks share a link.
\<close>

definition funcs_held :: "addr set \<Rightarrow> (addr \<Rightarrow> addr list) \<Rightarrow> addr set" where
  "funcs_held C ns = (\<Union>c \<in> C. set (ns c))"

definition cb_shape :: "addr links \<Rightarrow> addr linkpool \<Rightarrow> addr linkpool \<Rightarrow> addr set \<Rightarrow> (addr \<Rightarrow> addr list) \<Rightarrow> bool" where
  "cb_shape h cp fp C ns \<longleftrightarrow>
     lp_head cp = CbHead \<and> lp_head fp = FuncHead
     \<and> pool_owns CbLink h cp C \<and> pool_owns FuncLink h fp (funcs_held C ns)
     \<and> (\<forall>c \<in> C. link_idle h c \<and> clist h (Funclist c) (ns c))
     \<and> (\<forall>c \<in> C. \<forall>d \<in> C. c \<noteq> d \<longrightarrow> set (ns c) \<inter> set (ns d) = {})"

lemma funcs_held_split:
  assumes "c \<in> C"
  shows "funcs_held C (ns(c := ms)) = set ms \<union> funcs_held (C - {c}) ns"
    and "funcs_held C ns = set (ns c) \<union> funcs_held (C - {c}) ns"
  using assms by (auto simp: funcs_held_def split: if_splits)

lemma cb_shapeD:
  assumes "cb_shape h cp fp C ns"
  shows "lp_head cp = CbHead" "lp_head fp = FuncHead"
    "pool_owns CbLink h cp C" "pool_owns FuncLink h fp (funcs_held C ns)"
    "\<And>c. c \<in> C \<Longrightarrow> link_idle h c" "\<And>c. c \<in> C \<Longrightarrow> clist h (Funclist c) (ns c)"
    "\<And>c d. c \<in> C \<Longrightarrow> d \<in> C \<Longrightarrow> c \<noteq> d \<Longrightarrow> set (ns c) \<inter> set (ns d) = {}"
  using assms by (auto simp: cb_shape_def)

lemma cb_addresses:
  assumes "cb_shape h cp fp C ns"
  shows "c \<in> C \<Longrightarrow> c \<in> range CbLink" "x \<in> funcs_held C ns \<Longrightarrow> x \<in> range FuncLink"
    "c \<in> C \<Longrightarrow> set (ns c) \<subseteq> funcs_held C ns"
  using pool_owns_subset [OF cb_shapeD(3) [OF assms]] pool_owns_subset [OF cb_shapeD(4) [OF assms]]
  by (auto simp: funcs_held_def)

text \<open>
  How a shape carries over to a heap that differs only at entries of one list, its head and
  the links that are new.
\<close>

definition list_frame :: "addr \<Rightarrow> addr set \<Rightarrow> addr links \<Rightarrow> addr links \<Rightarrow> bool" where
  "list_frame c N h h' \<longleftrightarrow> (\<forall>x. x \<noteq> Funclist c \<longrightarrow> x \<notin> N \<longrightarrow> same_at h h' x)"

lemma link_idle_cong: "same_at h h' x \<Longrightarrow> link_idle h' x \<longleftrightarrow> link_idle h x"
  by (simp add: link_idle_def same_at_linked)

lemma func_pool_frame:
  assumes "pool_frame FuncLink fp R h h'" and "lp_head fp = FuncHead"
  shows "same_at h h' CbHead" "same_at h h' (CbLink n)" "same_at h h' (Funclist c)" "x \<in> R \<Longrightarrow> x \<in> range FuncLink \<Longrightarrow> same_at h h' x"
  using assms by (auto simp: pool_frame_def)

lemma cb_pool_frame:
  assumes "pool_frame CbLink cp R h h'" and "lp_head cp = CbHead"
  shows "same_at h h' FuncHead" "same_at h h' (FuncLink n)" "same_at h h' (Funclist c)" "x \<in> R \<Longrightarrow> x \<in> range CbLink \<Longrightarrow> same_at h h' x"
  using assms by (auto simp: pool_frame_def)

text \<open>A call on the pool of function entries keeps callbacks and lists.\<close>

lemma func_pool_keeps:
  assumes sh: "cb_shape h cp fp C ns" and fr: "pool_frame FuncLink fp (funcs_held C ns) h h'"
  shows "pool_owns CbLink h' cp C" "\<And>c. c \<in> C \<Longrightarrow> link_idle h' c" "\<And>c. c \<in> C \<Longrightarrow> clist h' (Funclist c) (ns c)"
proof -
  note f = func_pool_frame [OF fr cb_shapeD(2) [OF sh]]
  show "pool_owns CbLink h' cp C"
    by (rule pool_owns_cong [OF cb_shapeD(3) [OF sh]]) (auto simp: cb_shapeD(1) [OF sh] f)
  fix c assume c: "c \<in> C"
  then obtain n where "c = CbLink n" using cb_addresses(1) [OF sh] by blast
  then show "link_idle h' c" using link_idle_cong [OF f(2)] cb_shapeD(5) [OF sh c] by simp
  show "clist h' (Funclist c) (ns c)"
  proof (rule clist_cong [OF cb_shapeD(6) [OF sh c]])
    fix x assume "x \<in> set (Funclist c # ns c)"
    then have "x = Funclist c \<or> x \<in> funcs_held C ns" using cb_addresses(3) [OF sh c] by auto
    then show "same_at h h' x" using f(3,4) cb_addresses(2) [OF sh] by metis
  qed
qed

text \<open>Linking a new entry into the list of \<open>c\<close>, at its end or at its front.\<close>

lemma shape_add:
  assumes sh: "cb_shape h cp fp C ns" and c: "c \<in> C"
    and r: "uo_linkpool_rent FuncLink h fp = Inr (l, h1, fp')" "l \<notin> funcs_held C ns" "l \<in> range FuncLink"
      "pool_owns FuncLink h1 fp' (insert l (funcs_held C ns))" "lp_head fp' = lp_head fp"
      "pool_frame FuncLink fp (funcs_held C ns) h h1"
    and k: "clist h2 (Funclist c) ms" "set ms = insert l (set (ns c))" "list_frame c (insert l (set (ns c))) h1 h2"
  shows "cb_shape h2 cp fp' C (ns(c := ms))"
proof -
  note keep = func_pool_keeps [OF sh r(6)]
  have fr: "same_at h1 h2 x" if "x \<noteq> Funclist c" "x \<noteq> l" "x \<notin> set (ns c)" for x
    using k(3) that by (simp add: list_frame_def)
  have lc: "set (ns c) \<subseteq> funcs_held C ns" by (rule cb_addresses(3) [OF sh c])
  have held: "funcs_held C (ns(c := ms)) = insert l (funcs_held C ns)"
    using k(2) funcs_held_split(1) [OF c, of ns ms] funcs_held_split(2) [OF c, of ns] by auto
  have nf: "x \<notin> insert l (set (ns c))" if "x \<notin> range FuncLink" for x
    using that r(3) lc cb_addresses(2) [OF sh] by blast
  have fc: "same_at h1 h2 CbHead" "same_at h1 h2 FuncHead" "\<And>n. same_at h1 h2 (CbLink n)"
    "\<And>d. d \<noteq> c \<Longrightarrow> same_at h1 h2 (Funclist d)"
    using nf by (auto intro!: fr)
  have "pool_owns CbLink h2 cp C"
    by (rule pool_owns_cong [OF keep(1)]) (auto simp: cb_shapeD(1) [OF sh] fc)
  moreover have "pool_owns FuncLink h2 fp' (insert l (funcs_held C ns))"
  proof (rule pool_owns_cong [OF r(4)])
    fix x assume "x = lp_head fp' \<or> x \<in> range FuncLink - insert l (funcs_held C ns)"
    then show "same_at h1 h2 x" using fc(2) r(5) cb_shapeD(2) [OF sh] lc by (auto intro!: fr)
  qed
  moreover have "link_idle h2 d" if "d \<in> C" for d
    using cb_addresses(1) [OF sh that] keep(2) [OF that] link_idle_cong [OF fc(3)] by auto
  moreover have "clist h2 (Funclist d) ((ns(c := ms)) d)" if d: "d \<in> C" for d
  proof (cases "d = c")
    case False
    have "set (ns d) \<inter> insert l (set (ns c)) = {}"
      using cb_shapeD(7) [OF sh d c False] r(2) cb_addresses(3) [OF sh d] by blast
    then have "same_at h1 h2 x" if "x \<in> set (ns d)" for x
      using that cb_addresses(2) [OF sh] cb_addresses(3) [OF sh d] by (intro fr) blast+
    then have "clist h2 (Funclist d) (ns d)"
      using fc(4) [OF False] by (intro clist_cong [OF keep(3) [OF d]]) auto
    with False show ?thesis by simp
  qed (simp add: k(1))
  moreover have "set ((ns(c := ms)) d) \<inter> set ((ns(c := ms)) e) = {}" if "d \<in> C" "e \<in> C" "d \<noteq> e" for d e
  proof -
    have "l \<notin> set (ns d)" "l \<notin> set (ns e)" using r(2) cb_addresses(3) [OF sh] that by blast+
    then show ?thesis using cb_shapeD(7) [OF sh] that k(2) by (auto simp: disjoint_iff)
  qed
  ultimately show ?thesis using sh r(5) held by (simp add: cb_shape_def)
qed

lemma rent_func:
  assumes sh: "cb_shape h cp fp C ns" and c: "c \<in> C"
  shows "\<exists>l h1 fp'. uo_linkpool_rent FuncLink h fp = Inr (l, h1, fp') \<and> l \<notin> funcs_held C ns
           \<and> l \<in> range FuncLink \<and> pool_owns FuncLink h1 fp' (insert l (funcs_held C ns))
           \<and> lp_head fp' = lp_head fp \<and> pool_frame FuncLink fp (funcs_held C ns) h h1
           \<and> clist h1 (Funclist c) (ns c) \<and> l \<notin> set (Funclist c # ns c)
           \<and> \<not> uo_linklist_is_linked h1 l"
proof -
  obtain l h1 fp' where r: "uo_linkpool_rent FuncLink h fp = Inr (l, h1, fp')" "l \<notin> funcs_held C ns"
    "l \<in> range FuncLink" "pool_owns FuncLink h1 fp' (insert l (funcs_held C ns))" "link_idle h1 l"
    "lp_head fp' = lp_head fp" "pool_frame FuncLink fp (funcs_held C ns) h h1"
    using pool_owns_rent [OF cb_shapeD(4) [OF sh]] by blast
  moreover have "l \<notin> set (Funclist c # ns c)" using r(2,3) cb_addresses(3) [OF sh c] by auto
  ultimately show ?thesis using func_pool_keeps(3) [OF sh r(7) c] by (auto simp: link_idle_def)
qed

lemma shape_append:
  assumes sh: "cb_shape h cp fp C ns" and c: "c \<in> C"
  shows "\<exists>l h1 fp' h2. uo_linkpool_rent FuncLink h fp = Inr (l, h1, fp')
           \<and> uo_linklist_link h1 (Funclist c) l = Inr h2 \<and> l \<notin> funcs_held C ns
           \<and> cb_shape h2 cp fp' C (ns(c := ns c @ [l]))"
proof -
  obtain l h1 fp' where r: "uo_linkpool_rent FuncLink h fp = Inr (l, h1, fp')" "l \<notin> funcs_held C ns"
    "l \<in> range FuncLink" "pool_owns FuncLink h1 fp' (insert l (funcs_held C ns))"
    "lp_head fp' = lp_head fp" "pool_frame FuncLink fp (funcs_held C ns) h h1"
    and i: "clist h1 (Funclist c) (ns c)" "l \<notin> set (Funclist c # ns c)" "\<not> uo_linklist_is_linked h1 l"
    using rent_func [OF sh c] by blast
  obtain h2 where l: "uo_linklist_link h1 (Funclist c) l = Inr h2" "clist h2 (Funclist c) (ns c @ [l])"
    using clist_link_end [OF i] by blast
  have "list_frame c (insert l (set (ns c))) h1 h2"
    using link_frame [OF l(1) i(1)] by (simp add: list_frame_def)
  from shape_add [OF sh c r l(2) _ this] show ?thesis using r(1,2) l(1) by auto
qed

lemma shape_prepend:
  assumes sh: "cb_shape h cp fp C ns" and c: "c \<in> C"
  shows "\<exists>l h1 fp' pos h2. uo_linkpool_rent FuncLink h fp = Inr (l, h1, fp') \<and> nxt h1 (Funclist c) = Some pos
           \<and> uo_linklist_link h1 pos l = Inr h2 \<and> l \<notin> funcs_held C ns
           \<and> cb_shape h2 cp fp' C (ns(c := l # ns c))"
proof -
  obtain l h1 fp' where r: "uo_linkpool_rent FuncLink h fp = Inr (l, h1, fp')" "l \<notin> funcs_held C ns"
    "l \<in> range FuncLink" "pool_owns FuncLink h1 fp' (insert l (funcs_held C ns))"
    "lp_head fp' = lp_head fp" "pool_frame FuncLink fp (funcs_held C ns) h h1"
    and i: "clist h1 (Funclist c) (ns c)" "l \<notin> set (Funclist c # ns c)" "\<not> uo_linklist_is_linked h1 l"
    using rent_func [OF sh c] by blast
  define pos where "pos = hd (ns c @ [Funclist c])"
  have pos: "nxt h1 (Funclist c) = Some pos" "pos \<in> set (Funclist c # ns c)"
    using i(1) chain_next_start [of h1 "Funclist c" "ns c" "Funclist c"]
    by (auto simp: clist_def pos_def hd_append)
  obtain h2 where l: "uo_linklist_link h1 pos l = Inr h2" "clist h2 (Funclist c) (l # ns c)"
  proof (cases "ns c")
    case Nil
    then show ?thesis using clist_link_end [OF i] that by (auto simp: pos_def)
  next
    case (Cons n ms)
    then show ?thesis using clist_link_before [of h1 "Funclist c" "[]" n ms l] i that by (auto simp: pos_def)
  qed
  have "list_frame c (insert l (set (ns c))) h1 h2"
    using link_frame [OF l(1) i(1) pos(2)] by (simp add: list_frame_def)
  from shape_add [OF sh c r l(2) _ this] show ?thesis using r(1,2) l(1) pos(1) by auto
qed

text \<open>Taking the first entry off the list of \<open>c\<close>.\<close>

lemma shape_take:
  assumes sh: "cb_shape h cp fp C ns" and c: "c \<in> C" and n: "ns c = l # ms"
  shows "\<exists>h1 h2. nxt h (Funclist c) = Some l \<and> uo_linklist_unlink h l = Inr h1
           \<and> uo_linkpool_return h1 fp l = Inr h2 \<and> cb_shape h2 cp fp C (ns(c := ms))"
proof -
  let ?R = "funcs_held C ns"
  have cl: "clist h (Funclist c) ([] @ l # ms)" using cb_shapeD(6) [OF sh c] n by simp
  obtain h1 where u: "uo_linklist_unlink h l = Inr h1" "clist h1 (Funclist c) ms" "\<not> uo_linklist_is_linked h1 l"
    using clist_unlink [OF cl] by auto
  have fr: "same_at h h1 x" if "x \<noteq> Funclist c" "x \<notin> set (ns c)" for x
    using unlink_frame [OF u(1) cl] that n by simp
  have lc: "set (ns c) \<subseteq> ?R" "?R \<subseteq> range FuncLink" using cb_addresses [OF sh] c by blast+
  have fc: "same_at h h1 CbHead" "same_at h h1 FuncHead" "same_at h h1 (CbLink k)"
    "d \<noteq> c \<Longrightarrow> same_at h h1 (Funclist d)" for k d
    using lc by (auto intro!: fr)
  have own: "pool_owns FuncLink h1 fp ?R"
  proof (rule pool_owns_cong [OF cb_shapeD(4) [OF sh]])
    fix x assume "x = lp_head fp \<or> x \<in> range FuncLink - ?R"
    then show "same_at h h1 x" using fc(2) cb_shapeD(2) [OF sh] lc by (auto intro!: fr)
  qed
  have lR: "l \<in> ?R" using lc n by auto
  obtain h2 where t: "uo_linkpool_return h1 fp l = Inr h2" "pool_owns FuncLink h2 fp (?R - {l})"
    "pool_frame FuncLink fp (?R - {l}) h1 h2"
    using pool_owns_return [OF own lR] u(3) by (auto simp: link_idle_def)
  note f = func_pool_frame [OF t(3) cb_shapeD(2) [OF sh]]
  have held: "funcs_held C (ns(c := ms)) = ?R - {l}" and ml: "l \<notin> set ms"
  proof -
    show ml: "l \<notin> set ms" using cl by (simp add: clist_def)
    have "l \<notin> set (ns d)" if "d \<in> C" "d \<noteq> c" for d using cb_shapeD(7) [OF sh that(1) c that(2)] n by auto
    then have "l \<notin> funcs_held (C - {c}) ns" by (simp add: funcs_held_def)
    then show "funcs_held C (ns(c := ms)) = ?R - {l}"
      using ml funcs_held_split(1) [OF c, of ns ms] funcs_held_split(2) [OF c, of ns] n by auto
  qed
  have step: "same_at h h2 x" if "x \<noteq> Funclist c" "x \<notin> set (ns c)" "same_at h1 h2 x" for x
    using fr [OF that(1,2)] that(3) by (rule same_at_trans)
  have "pool_owns CbLink h2 cp C"
    by (rule pool_owns_cong [OF cb_shapeD(3) [OF sh]])
       (auto simp: cb_shapeD(1) [OF sh] intro: same_at_trans [OF fc(1) f(1)] same_at_trans [OF fc(3) f(2)])
  moreover have "link_idle h2 d" if "d \<in> C" for d
    using cb_addresses(1) [OF sh that] cb_shapeD(5) [OF sh that] link_idle_cong [OF same_at_trans [OF fc(3) f(2)]]
    by auto
  moreover have "clist h2 (Funclist d) ((ns(c := ms)) d)" if d: "d \<in> C" for d
  proof (cases "d = c")
    case True
    have "same_at h1 h2 x" if "x \<in> set (Funclist c # ms)" for x
      using that f(3) [of c] f(4) [of x] ml n lc by auto
    then show ?thesis using True clist_cong [OF u(2)] by simp
  next
    case False
    have "same_at h h2 x" if "x \<in> set (ns d)" for x
    proof -
      have "x \<notin> set (ns c)" using cb_shapeD(7) [OF sh d c False] that by auto
      moreover have "x \<in> ?R - {l}" "x \<in> range FuncLink"
        using that calculation n cb_addresses(3) [OF sh d] lc(2) by auto
      ultimately show ?thesis using f(4) by (intro step) auto
    qed
    then have "clist h2 (Funclist d) (ns d)"
      using same_at_trans [OF fc(4) [OF False] f(3)] by (intro clist_cong [OF cb_shapeD(6) [OF sh d]]) auto
    with False show ?thesis by simp
  qed
  moreover have "set ((ns(c := ms)) d) \<inter> set ((ns(c := ms)) e) = {}" if "d \<in> C" "e \<in> C" "d \<noteq> e" for d e
    using cb_shapeD(7) [OF sh that] n that by auto
  moreover have "nxt h (Funclist c) = Some l" using cl by (simp add: clist_def)
  ultimately show ?thesis using u(1) t(1,2) sh held by (simp add: cb_shape_def)
qed

text \<open>A new callback, and one that is given back.\<close>

lemma cb_pool_keeps:
  assumes sh: "cb_shape h cp fp C ns" and fr: "pool_frame CbLink cp R h h'" and "D \<subseteq> C" "D \<subseteq> R"
  shows "pool_owns FuncLink h' fp (funcs_held C ns)" "\<And>d. d \<in> D \<Longrightarrow> link_idle h' d"
    "\<And>d. d \<in> C \<Longrightarrow> clist h' (Funclist d) (ns d)"
proof -
  note f = cb_pool_frame [OF fr cb_shapeD(1) [OF sh]]
  show "pool_owns FuncLink h' fp (funcs_held C ns)"
    by (rule pool_owns_cong [OF cb_shapeD(4) [OF sh]]) (auto simp: cb_shapeD(2) [OF sh] f)
  show "link_idle h' d" if "d \<in> D" for d
    using that assms(3,4) link_idle_cong [OF f(4) [of d]] cb_addresses(1) [OF sh] cb_shapeD(5) [OF sh]
    by blast
  show "clist h' (Funclist d) (ns d)" if d: "d \<in> C" for d
  proof (rule clist_cong [OF cb_shapeD(6) [OF sh d]])
    fix x assume "x \<in> set (Funclist d # ns d)"
    then have "x = Funclist d \<or> x \<in> range FuncLink" using cb_addresses(2,3) [OF sh] d by auto
    then show "same_at h h' x" using f(2,3) by auto
  qed
qed

lemma shape_new:
  assumes sh: "cb_shape h cp fp C ns"
  shows "\<exists>c h1 cp'. uo_linkpool_rent CbLink h cp = Inr (c, h1, cp') \<and> c \<notin> C
           \<and> cb_shape (uo_linklist_selflink h1 (Funclist c)) cp' fp (insert c C) (ns(c := []))"
proof -
  obtain c h1 cp' where r: "uo_linkpool_rent CbLink h cp = Inr (c, h1, cp')" "c \<notin> C" "c \<in> range CbLink"
    "pool_owns CbLink h1 cp' (insert c C)" "link_idle h1 c" "lp_head cp' = lp_head cp"
    "pool_frame CbLink cp C h h1"
    using pool_owns_rent [OF cb_shapeD(3) [OF sh]] by blast
  note keep = cb_pool_keeps [OF sh r(7) subset_refl subset_refl]
  define h2 where "h2 = uo_linklist_selflink h1 (Funclist c)"
  have fr: "same_at h1 h2 x" if "x \<noteq> Funclist c" for x
    using that by (simp add: h2_def uo_linklist_selflink_def same_at_def)
  have "pool_owns CbLink h2 cp' (insert c C)"
    by (rule pool_owns_cong [OF r(4)]) (use r(6) cb_shapeD(1) [OF sh] in \<open>auto intro!: fr\<close>)
  moreover have "pool_owns FuncLink h2 fp (funcs_held C ns)"
    by (rule pool_owns_cong [OF keep(1)]) (use cb_shapeD(2) [OF sh] in \<open>auto intro!: fr\<close>)
  moreover have "funcs_held (insert c C) (ns(c := [])) = funcs_held C ns"
    using r(2) by (auto simp: funcs_held_def split: if_splits)
  moreover have "link_idle h2 d" if "d \<in> insert c C" for d
  proof -
    have "d \<in> range CbLink" using that r(3) cb_addresses(1) [OF sh] by blast
    then show ?thesis using link_idle_cong [OF fr, of d] keep(2) r(5) that by auto
  qed
  moreover have "clist h2 (Funclist d) ((ns(c := [])) d)" if "d \<in> insert c C" for d
  proof (cases "d = c")
    case False
    with that have d: "d \<in> C" by simp
    have "x \<noteq> Funclist c" if "x \<in> set (Funclist d # ns d)" for x
      using that False cb_addresses(2,3) [OF sh] d by auto
    then show ?thesis using False clist_cong [OF keep(3) [OF d] fr] by simp
  qed (simp add: h2_def clist_selflink)
  moreover have "set ((ns(c := [])) d) \<inter> set ((ns(c := [])) e) = {}"
    if "d \<in> insert c C" "e \<in> insert c C" "d \<noteq> e" for d e
    using that cb_shapeD(7) [OF sh, of d e] by auto
  ultimately have "cb_shape h2 cp' fp (insert c C) (ns(c := []))"
    using sh r(6) by (simp add: cb_shape_def)
  with r(1,2) show ?thesis by (auto simp: h2_def)
qed

lemma shape_drop:
  assumes sh: "cb_shape h cp fp C ns" and c: "c \<in> C" "ns c = []"
  shows "\<exists>h'. uo_linkpool_return h cp c = Inr h' \<and> cb_shape h' cp fp (C - {c}) ns"
proof -
  obtain h' where r: "uo_linkpool_return h cp c = Inr h'" "pool_owns CbLink h' cp (C - {c})"
    "pool_frame CbLink cp (C - {c}) h h'"
    using pool_owns_return [OF cb_shapeD(3) [OF sh] c(1) cb_shapeD(5) [OF sh c(1)]] by blast
  note keep = cb_pool_keeps [OF sh r(3) Diff_subset subset_refl]
  have "funcs_held (C - {c}) ns = funcs_held C ns"
    using funcs_held_split(2) [OF c(1), of ns] c(2) by simp
  then show ?thesis using sh keep r(1,2) by (auto simp: cb_shape_def)
qed

section \<open>Callbacks as pairs of lists\<close>

text \<open>
  \<open>M\<close> gives the data, bottom of the stack first, and the functions, next one first, of every
  callback that exists.
\<close>

definition cb_rel_at :: "('f, 'd) cbs \<Rightarrow> (addr \<rightharpoonup> 'd list \<times> 'f list) \<Rightarrow> (addr \<Rightarrow> addr list) \<Rightarrow> bool" where
  "cb_rel_at s M ns \<longleftrightarrow>
     cb_shape (cb_links s) (cb_pool s) (func_pool s) (dom M) ns
     \<and> (\<forall>c xs fs. M c = Some (xs, fs) \<longrightarrow>
          (\<exists>st. cb_stack s c = Some st \<and> stack_rel st xs) \<and> map (func_item s) (ns c) = map Some fs)"

definition cb_rel :: "('f, 'd) cbs \<Rightarrow> (addr \<rightharpoonup> 'd list \<times> 'f list) \<Rightarrow> bool" where
  "cb_rel s M \<longleftrightarrow> (\<exists>ns. cb_rel_at s M ns)"

lemma cb_rel_atD:
  assumes "cb_rel_at s M ns"
  shows "cb_shape (cb_links s) (cb_pool s) (func_pool s) (dom M) ns"
    "M c = Some (xs, fs) \<Longrightarrow> \<exists>st. cb_stack s c = Some st \<and> stack_rel st xs"
    "M c = Some (xs, fs) \<Longrightarrow> map (func_item s) (ns c) = map Some fs"
  using assms by (simp_all add: cb_rel_at_def)

lemma cb_rel_at_clist:
  "cb_rel_at s M ns \<Longrightarrow> M c = Some v \<Longrightarrow> clist (cb_links s) (Funclist c) (ns c)"
  using cb_shapeD(6) [OF cb_rel_atD(1)] by blast

lemma cb_rel_at_funcs:
  "cb_rel_at s M ns \<Longrightarrow> M c = Some (xs, fs) \<Longrightarrow> length (ns c) = length fs"
  using cb_rel_atD(3) map_eq_imp_length_eq by blast

lemma cb_rel_create:
  assumes "cb_rel_at s M ns"
  shows "\<exists>c s'. uo_cb_create s = Inr (c, s') \<and> M c = None
           \<and> cb_rel_at s' (M(c \<mapsto> ([], []))) (ns(c := [])) \<and> cb_stack s' c = Some (uo_stack_create_at 0)"
proof -
  obtain c h1 cp' where r: "uo_linkpool_rent CbLink (cb_links s) (cb_pool s) = Inr (c, h1, cp')"
    "c \<notin> dom M"
    "cb_shape (uo_linklist_selflink h1 (Funclist c)) cp' (func_pool s) (insert c (dom M)) (ns(c := []))"
    using shape_new [OF cb_rel_atD(1) [OF assms]] by blast
  have "M c = None" using r(2) by blast
  with r assms stack_rel_create [of 0] show ?thesis by (auto simp: uo_cb_create_def cb_rel_at_def)
qed

lemma cb_rel_set_func:
  assumes rel: "cb_rel_at s M ns" and c: "M c = Some (xs, fs)" and l: "l \<notin> funcs_held (dom M) ns"
    and sh: "cb_shape h (cb_pool s) fp (dom M) (ns(c := ms))"
    and ms: "map ((func_item s)(l \<mapsto> f)) ms = map Some gs"
  shows "cb_rel_at (s\<lparr> cb_links := h, func_pool := fp, func_item := (func_item s)(l \<mapsto> f) \<rparr>)
    (M(c \<mapsto> (xs, gs))) (ns(c := ms))"
proof -
  have "insert c (dom M) = dom M" using c by auto
  moreover have "map ((func_item s)(l \<mapsto> f)) (ns d) = map (func_item s) (ns d)" if "M d = Some v" for d v
    using l domI [of M, OF that] by (auto simp: funcs_held_def)
  ultimately show ?thesis using rel c sh ms by (auto simp: cb_rel_at_def simp del: map_eq_conv)
qed

lemma cb_rel_append_func:
  assumes rel: "cb_rel_at s M ns" and c: "M c = Some (xs, fs)"
  shows "\<exists>l s'. uo_cb_append_func s c f = Inr s'
           \<and> cb_rel_at s' (M(c \<mapsto> (xs, fs @ [f]))) (ns(c := ns c @ [l])) \<and> cb_stack s' = cb_stack s
           \<and> (\<forall>x \<in> funcs_held (dom M) ns. func_item s' x = func_item s x)"
proof -
  obtain l h1 fp' h2 where r: "uo_linkpool_rent FuncLink (cb_links s) (func_pool s) = Inr (l, h1, fp')"
    "uo_linklist_link h1 (Funclist c) l = Inr h2" "l \<notin> funcs_held (dom M) ns"
    "cb_shape h2 (cb_pool s) fp' (dom M) (ns(c := ns c @ [l]))"
    using shape_append [OF cb_rel_atD(1) [OF rel] domI [of M, OF c]] by blast
  have "l \<notin> set (ns c)" using r(3) domI [of M, OF c] by (auto simp: funcs_held_def)
  then have "map ((func_item s)(l \<mapsto> f)) (ns c @ [l]) = map Some (fs @ [f])"
    using cb_rel_atD(3) [OF rel c] by simp
  from cb_rel_set_func [OF rel c r(3,4) this] r show ?thesis by (auto simp: uo_cb_append_func_def)
qed

lemma cb_rel_prepend_func:
  assumes rel: "cb_rel_at s M ns" and c: "M c = Some (xs, fs)"
  shows "\<exists>l s'. uo_cb_prepend_func s c f = Inr s'
           \<and> cb_rel_at s' (M(c \<mapsto> (xs, f # fs))) (ns(c := l # ns c)) \<and> cb_stack s' = cb_stack s
           \<and> (\<forall>x \<in> funcs_held (dom M) ns. func_item s' x = func_item s x)"
proof -
  obtain l h1 fp' pos h2 where r: "uo_linkpool_rent FuncLink (cb_links s) (func_pool s) = Inr (l, h1, fp')"
    "nxt h1 (Funclist c) = Some pos" "uo_linklist_link h1 pos l = Inr h2" "l \<notin> funcs_held (dom M) ns"
    "cb_shape h2 (cb_pool s) fp' (dom M) (ns(c := l # ns c))"
    using shape_prepend [OF cb_rel_atD(1) [OF rel] domI [of M, OF c]] by blast
  have "l \<notin> set (ns c)" using r(4) domI [of M, OF c] by (auto simp: funcs_held_def)
  then have "map ((func_item s)(l \<mapsto> f)) (l # ns c) = map Some (f # fs)"
    using cb_rel_atD(3) [OF rel c] by simp
  from cb_rel_set_func [OF rel c r(4,5) this] r show ?thesis by (auto simp: uo_cb_prepend_func_def)
qed

lemma cb_rel_take:
  assumes rel: "cb_rel_at s M ns" and c: "M c = Some (xs, f # fs)"
  shows "\<exists>l s'. take_func s c = Inr (l, s') \<and> func_item s' l = Some f
           \<and> cb_rel_at s' (M(c \<mapsto> (xs, fs))) (ns(c := tl (ns c))) \<and> cb_stack s' = cb_stack s"
proof -
  obtain l ms where n: "ns c = l # ms" using cb_rel_at_funcs [OF rel c] by (cases "ns c") auto
  obtain h1 h2 where t: "nxt (cb_links s) (Funclist c) = Some l" "uo_linklist_unlink (cb_links s) l = Inr h1"
    "uo_linkpool_return h1 (func_pool s) l = Inr h2" "cb_shape h2 (cb_pool s) (func_pool s) (dom M) (ns(c := ms))"
    using shape_take [OF cb_rel_atD(1) [OF rel] domI [of M, OF c] n] by blast
  have "insert c (dom M) = dom M" using c by auto
  with t n rel c cb_rel_atD(3) [OF rel c] show ?thesis
    by (auto simp: take_func_def uo_linklist_next_def cb_rel_at_def)
qed

text \<open>The loops over another callback.\<close>

lemma append_loop_rel:
  assumes "cb_rel_at s M ns" and "M c = Some (xs, fs)" and "M d = Some (ys, hs)" and "c \<noteq> d"
    and "ns d = pre @ suf" and "map (func_item s) suf = map Some gs" and "length gs \<le> fuel"
  shows "\<exists>s' ns'. append_loop fuel s c d (hd (suf @ [Funclist d])) = Some (Inr s')
           \<and> cb_rel_at s' (M(c \<mapsto> (xs, fs @ gs))) ns'"
  using assms
proof (induction gs arbitrary: s M ns fs pre suf fuel)
  case Nil
  then have "cb_rel_at s (M(c \<mapsto> (xs, fs @ []))) ns" by (simp add: fun_upd_idem)
  with Nil show ?case by (subst append_loop.simps) auto
next
  case (Cons g gs)
  note rel = Cons.prems(1)
  obtain n suf' where suf: "suf = n # suf'" "func_item s n = Some g" "map (func_item s) suf' = map Some gs"
    using Cons.prems(6) by (cases suf) auto
  obtain fuel' where fuel: "fuel = Suc fuel'" "length gs \<le> fuel'" using Cons.prems(7) by (cases fuel) auto
  obtain l s1 where s1: "uo_cb_append_func s c g = Inr s1"
    "cb_rel_at s1 (M(c \<mapsto> (xs, fs @ [g]))) (ns(c := ns c @ [l]))"
    "\<forall>x \<in> funcs_held (dom M) ns. func_item s1 x = func_item s x"
    using cb_rel_append_func [OF rel Cons.prems(2)] by blast
  have d1: "(M(c \<mapsto> (xs, fs @ [g]))) d = Some (ys, hs)" "(ns(c := ns c @ [l])) d = (pre @ [n]) @ suf'"
    using Cons.prems(3-5) suf by auto
  have "n \<noteq> Funclist d" "nxt (cb_links s1) n = Some (hd (suf' @ [Funclist d]))"
    using cb_rel_at_clist [OF s1(2) d1(1)] d1(2) clist_next_prev(1) [of "cb_links s1" "Funclist d" pre n suf']
    by (auto simp: clist_def)
  moreover have "set suf' \<subseteq> funcs_held (dom M) ns"
    using Cons.prems(5) suf domI [of M, OF Cons.prems(3)] by (force simp: funcs_held_def)
  then have "map (func_item s1) suf' = map Some gs"
    using suf(3) s1(3) by (metis (no_types, lifting) map_eq_conv subsetD)
  ultimately show ?case
    using Cons.IH [OF s1(2) fun_upd_same d1(1) Cons.prems(4) d1(2) _ fuel(2), unfolded fun_upd_upd]
      suf(1,2) fuel(1) s1(1)
    by (subst append_loop.simps) (simp add: fun_upd_def)
qed

lemma prepend_loop_rel:
  assumes "cb_rel_at s M ns" and "M c = Some (xs, fs)" and "M d = Some (ys, hs)" and "c \<noteq> d"
    and "ns d = pre @ suf" and "map (func_item s) pre = map Some gs" and "length gs \<le> fuel"
  shows "\<exists>s' ns'. prepend_loop fuel s c d (last (Funclist d # pre)) = Some (Inr s')
           \<and> cb_rel_at s' (M(c \<mapsto> (xs, gs @ fs))) ns'"
  using assms
proof (induction gs arbitrary: s M ns fs pre suf fuel rule: rev_induct)
  case Nil
  then have "cb_rel_at s (M(c \<mapsto> (xs, [] @ fs))) ns" by (simp add: fun_upd_idem)
  with Nil show ?case by (subst prepend_loop.simps) auto
next
  case (snoc g gs)
  note rel = snoc.prems(1)
  obtain n pre' where pre: "pre = pre' @ [n]" "func_item s n = Some g" "map (func_item s) pre' = map Some gs"
    using snoc.prems(6) by (cases pre rule: rev_cases) auto
  obtain fuel' where fuel: "fuel = Suc fuel'" "length gs \<le> fuel'" using snoc.prems(7) by (cases fuel) auto
  obtain l s1 where s1: "uo_cb_prepend_func s c g = Inr s1"
    "cb_rel_at s1 (M(c \<mapsto> (xs, g # fs))) (ns(c := l # ns c))"
    "\<forall>x \<in> funcs_held (dom M) ns. func_item s1 x = func_item s x"
    using cb_rel_prepend_func [OF rel snoc.prems(2)] by blast
  have d1: "(M(c \<mapsto> (xs, g # fs))) d = Some (ys, hs)" "(ns(c := l # ns c)) d = pre' @ n # suf"
    using snoc.prems(3-5) pre by auto
  have "n \<noteq> Funclist d" "prv (cb_links s1) n = Some (last (Funclist d # pre'))"
    using cb_rel_at_clist [OF s1(2) d1(1)] d1(2) clist_next_prev(2) [of "cb_links s1" "Funclist d" pre' n suf]
    by (auto simp: clist_def)
  moreover have "set pre' \<subseteq> funcs_held (dom M) ns"
    using snoc.prems(5) pre domI [of M, OF snoc.prems(3)] by (force simp: funcs_held_def)
  then have "map (func_item s1) pre' = map Some gs"
    using pre(3) s1(3) by (metis (no_types, lifting) map_eq_conv subsetD)
  ultimately show ?case
    using snoc.IH [OF s1(2) fun_upd_same d1(1) snoc.prems(4) d1(2) _ fuel(2), unfolded fun_upd_upd]
      pre(1,2) fuel(1) s1(1)
    by (subst prepend_loop.simps) (simp add: fun_upd_def)
qed

lemma destroy_loop_rel:
  assumes "cb_rel_at s M ns" and "M c = Some (xs, fs)" and "length fs \<le> fuel"
  shows "\<exists>s' ns'. destroy_loop fuel s c = Some (Inr s') \<and> cb_rel_at s' (M(c \<mapsto> (xs, []))) ns'
           \<and> cb_stack s' = cb_stack s"
  using assms
proof (induction fs arbitrary: s M ns fuel)
  case Nil
  then have "uo_linklist_is_empty (cb_links s) (Funclist c)"
    using clist_is_empty [OF cb_rel_at_clist] cb_rel_at_funcs by fastforce
  then show ?case using Nil by (subst destroy_loop.simps) (auto simp: fun_upd_idem)
next
  case (Cons f fs)
  have "\<not> uo_linklist_is_empty (cb_links s) (Funclist c)"
    using clist_is_empty [OF cb_rel_at_clist [OF Cons.prems(1,2)]] cb_rel_at_funcs [OF Cons.prems(1,2)] by auto
  moreover obtain fuel' where fuel: "fuel = Suc fuel'" "length fs \<le> fuel'" using Cons.prems(3) by (cases fuel) auto
  moreover obtain l s1 where s1: "take_func s c = Inr (l, s1)"
    "cb_rel_at s1 (M(c \<mapsto> (xs, fs))) (ns(c := tl (ns c)))" "cb_stack s1 = cb_stack s"
    using cb_rel_take [OF Cons.prems(1,2)] by blast
  ultimately show ?case
    using Cons.IH [OF s1(2) fun_upd_same, unfolded fun_upd_upd]
    by (subst destroy_loop.simps) (simp add: fun_upd_def)
qed

lemma stack_arr_rel:
  assumes "cb_rel_at s M ns" and "M c = Some (xs, fs)"
  shows "stack_arr s c = Inr xs"
  using cb_rel_atD(2) [OF assms]
  by (auto simp: stack_arr_def stack_rel_def stack_inv_def stack_list_def uo_stack_count_def Let_def)

lemma cb_rel_set_stack:
  assumes "cb_rel_at s M ns" and "M c = Some (xs, fs)" and "stack_rel st zs"
  shows "cb_rel_at (s\<lparr> cb_stack := (cb_stack s)(c \<mapsto> st) \<rparr>) (M(c \<mapsto> (zs, fs))) ns"
proof -
  have "insert c (dom M) = dom M" using assms(2) by auto
  with assms show ?thesis by (auto simp: cb_rel_at_def)
qed

lemma cb_index:
  assumes "cb_rel s M" and "M c = Some (xs, fs)"
  shows "i < length xs \<Longrightarrow> uo_cb_stack_index s c (int i) = Inr (xs ! i)"
    and "0 < k \<Longrightarrow> k \<le> length xs \<Longrightarrow> uo_cb_stack_index s c (- int k) = Inr (xs ! (length xs - k))"
proof -
  obtain st where st: "cb_stack s c = Some st" "stack_rel st xs"
    using assms cb_rel_atD(2) unfolding cb_rel_def by blast
  show "i < length xs \<Longrightarrow> uo_cb_stack_index s c (int i) = Inr (xs ! i)"
    using stack_rel_index [OF st(2), of "int i" i] st(1) stack_pos_Inr(1) [OF st(2), of "int i"]
    by (simp add: uo_cb_stack_index_def)
  show "uo_cb_stack_index s c (- int k) = Inr (xs ! (length xs - k))" if "0 < k" "k \<le> length xs"
    using stack_rel_index [OF st(2), of "- int k" "length xs - k"] st(1) that
      stack_pos_Inr(2) [OF st(2), of "- int k"]
    by (simp add: uo_cb_stack_index_def of_nat_diff)
qed

lemma cb_prepend_cb_rel:
  assumes "cb_rel s M" and c: "M c = Some (xs, fs)" and d: "M d = Some (ys, gs)" and "c \<noteq> d"
    and "length gs \<le> fuel" and "length xs + length ys \<le> 2 ^ 63"
  shows "\<exists>s'. uo_cb_prepend_cb fuel s c d = Some (Inr s') \<and> cb_rel s' (M(c \<mapsto> (xs @ ys, gs @ fs)))"
proof -
  obtain ns where rel: "cb_rel_at s M ns" using assms(1) by (auto simp: cb_rel_def)
  obtain st st' where st: "cb_stack s c = Some st" "uo_stack_push_arr st ys = Inr st'" "stack_rel st' (xs @ ys)"
    using cb_rel_atD(2) [OF rel c] stack_rel_push_arr assms(6) by blast
  define s1 where "s1 = s\<lparr> cb_stack := (cb_stack s)(c \<mapsto> st') \<rparr>"
  have s1: "cb_rel_at s1 (M(c \<mapsto> (xs @ ys, fs))) ns" "cb_links s1 = cb_links s" "func_item s1 = func_item s"
    using cb_rel_set_stack [OF rel c st(3)] by (simp_all add: s1_def)
  have d1: "(M(c \<mapsto> (xs @ ys, fs))) d = Some (ys, gs)" "ns d = ns d @ []" using d assms(4) by simp_all
  note loop = prepend_loop_rel [OF s1(1) fun_upd_same d1(1) assms(4) d1(2) _ assms(5), unfolded fun_upd_upd s1(3),
      OF cb_rel_atD(3) [OF rel d]]
  show ?thesis using loop stack_arr_rel [OF rel d] st(1,2) clist_ends(2) [OF cb_rel_at_clist [OF rel d]]
    by (auto simp: uo_cb_prepend_cb_def cb_rel_def s1_def [symmetric] s1(2) Let_def)
qed

lemma cb_append_cb_rel:
  assumes "cb_rel s M" and c: "M c = Some (xs, fs)" and d: "M d = Some (ys, gs)" and "c \<noteq> d"
    and "length gs \<le> fuel" and "length xs + length ys \<le> 2 ^ 63"
  shows "\<exists>s'. uo_cb_append_cb fuel s c d = Some (Inr s') \<and> cb_rel s' (M(c \<mapsto> (ys @ xs, fs @ gs)))"
proof -
  obtain ns where rel: "cb_rel_at s M ns" using assms(1) by (auto simp: cb_rel_def)
  obtain st where st0: "cb_stack s c = Some st" "stack_rel st xs" using cb_rel_atD(2) [OF rel c] by blast
  obtain st' where st: "uo_stack_insert_arr st 0 ys = Inr st'" "stack_rel st' (ys @ xs)"
    using stack_rel_insert_arr [OF st0(2), of 0 0 ys] stack_pos_Inr(1) [OF st0(2), of 0] assms(6) by auto
  define s1 where "s1 = s\<lparr> cb_stack := (cb_stack s)(c \<mapsto> st') \<rparr>"
  have s1: "cb_rel_at s1 (M(c \<mapsto> (ys @ xs, fs))) ns" "cb_links s1 = cb_links s" "func_item s1 = func_item s"
    using cb_rel_set_stack [OF rel c st(2)] by (simp_all add: s1_def)
  have d1: "(M(c \<mapsto> (ys @ xs, fs))) d = Some (ys, gs)" "ns d = [] @ ns d" using d assms(4) by simp_all
  note loop = append_loop_rel [OF s1(1) fun_upd_same d1(1) assms(4) d1(2) _ assms(5), unfolded fun_upd_upd s1(3),
      OF cb_rel_atD(3) [OF rel d]]
  show ?thesis using loop stack_arr_rel [OF rel d] st0(1) st(1) clist_ends(1) [OF cb_rel_at_clist [OF rel d]]
    by (auto simp: uo_cb_append_cb_def cb_rel_def s1_def [symmetric] s1(2) Let_def)
qed

lemma cb_clone_rel:
  assumes "cb_rel s M" and d: "M d = Some (ys, gs)" and "length gs \<le> fuel" and "length ys \<le> 2 ^ 63"
  shows "\<exists>c s'. uo_cb_clone fuel s d = Some (Inr (c, s')) \<and> M c = None \<and> cb_rel s' (M(c \<mapsto> (ys, gs)))"
proof -
  obtain ns where rel: "cb_rel_at s M ns" using assms(1) by (auto simp: cb_rel_def)
  obtain c s1 where s1: "uo_cb_create s = Inr (c, s1)" "M c = None"
    "cb_rel_at s1 (M(c \<mapsto> ([], []))) (ns(c := []))" "cb_stack s1 c = Some (uo_stack_create_at 0)"
    using cb_rel_create [OF rel] by blast
  have cd: "c \<noteq> d" using s1(2) d by auto
  have d1: "(M(c \<mapsto> ([], []))) d = Some (ys, gs)" using d cd by simp
  obtain st' where st: "uo_stack_push_arr (uo_stack_create_at 0) ys = Inr st'" "stack_rel st' ys"
    using stack_rel_push_arr [OF stack_rel_create [of 0], of ys] assms(4) by auto
  define s2 where "s2 = s1\<lparr> cb_stack := (cb_stack s1)(c \<mapsto> st') \<rparr>"
  have s2: "cb_rel_at s2 (M(c \<mapsto> (ys, []))) (ns(c := []))"
    using cb_rel_set_stack [OF s1(3) fun_upd_same st(2), unfolded fun_upd_upd] by (simp add: s2_def)
  have d2: "(M(c \<mapsto> (ys, []))) d = Some (ys, gs)" "(ns(c := [])) d = [] @ ns d" using d cd by simp_all
  note loop = append_loop_rel [OF s2 fun_upd_same d2(1) cd d2(2) _ assms(3), unfolded fun_upd_upd]
  have "map (func_item s2) (ns d) = map Some gs" using cb_rel_atD(3) [OF s2 d2(1)] d2(2) by simp
  moreover have "nxt (cb_links s1) (Funclist d) = Some (hd (ns d @ [Funclist d]))"
    using clist_ends(1) [OF cb_rel_at_clist [OF s2 d2(1)]] d2(2) by (simp add: s2_def)
  ultimately show ?thesis using loop s1(1,2,4) st(1) stack_arr_rel [OF s1(3) d1]
    by (auto simp: uo_cb_clone_def cb_rel_def s2_def [symmetric] Let_def)
qed


text \<open>
  Destruction releases the stack first; the loop over the function list does not look at it.
\<close>

definition set_stacks :: "(addr \<Rightarrow> 'd uo_stack option) \<Rightarrow> ('f, 'd) cbs \<Rightarrow> ('f, 'd) cbs" where
  "set_stacks X s = s\<lparr> cb_stack := X \<rparr>"

lemma set_stacks_simps [simp]:
  "cb_links (set_stacks X s) = cb_links s" "func_pool (set_stacks X s) = func_pool s"
  "cb_pool (set_stacks X s) = cb_pool s"
  "(set_stacks X s)\<lparr> cb_links := h \<rparr> = set_stacks X (s\<lparr> cb_links := h \<rparr>)"
  by (simp_all add: set_stacks_def)

lemma take_func_stacks:
  "take_func (set_stacks X s) c = map_sum id (apsnd (set_stacks X)) (take_func s c)"
proof -
  have m: "map_sum id g (res_bind r k) = res_bind r (\<lambda>x. map_sum id g (k x))" for g and r :: "'x cres" and k :: "'x \<Rightarrow> 'y cres"
    by (cases r) simp_all
  show ?thesis by (simp add: take_func_def m)
qed

lemma destroy_loop_stacks:
  "destroy_loop fuel (set_stacks X s) c = map_option (map_sum id (set_stacks X)) (destroy_loop fuel s c)"
proof (induction fuel arbitrary: s)
  case 0
  then show ?case by (subst (1 2) destroy_loop.simps) simp
next
  case (Suc fuel)
  show ?case
    by (cases "take_func s c"; subst (1 2) destroy_loop.simps) (auto simp: take_func_stacks Suc.IH id_def)
qed

lemma cb_destroy_rel:
  assumes "cb_rel s M" and c: "M c = Some (xs, fs)" and "length fs \<le> fuel"
  shows "\<exists>s'. uo_cb_destroy fuel s c = Some (Inr s') \<and> cb_rel s' (M(c := None))"
proof -
  obtain ns where rel: "cb_rel_at s M ns" using assms(1) by (auto simp: cb_rel_def)
  obtain s1 ns1 where s1: "destroy_loop fuel s c = Some (Inr s1)" "cb_rel_at s1 (M(c \<mapsto> (xs, []))) ns1"
    "cb_stack s1 = cb_stack s" using destroy_loop_rel [OF rel c assms(3)] by blast
  have emp: "ns1 c = []" using cb_rel_at_funcs [OF s1(2) fun_upd_same] by simp
  obtain h where h: "uo_linkpool_return (cb_links s1) (cb_pool s1) c = Inr h"
    "cb_shape h (cb_pool s1) (func_pool s1) (dom (M(c \<mapsto> (xs, []))) - {c}) ns1"
    using shape_drop [OF cb_rel_atD(1) [OF s1(2)] _ emp] by auto
  let ?X = "(cb_stack s)(c := None)"
  have "uo_cb_destroy fuel s c = Some (Inr ((set_stacks ?X s1)\<lparr> cb_links := h \<rparr>))"
    using s1(1) h(1) destroy_loop_stacks [of fuel ?X s c]
    by (simp add: uo_cb_destroy_def set_stacks_def [symmetric])
  moreover have "cb_rel_at ((set_stacks ?X s1)\<lparr> cb_links := h \<rparr>) (M(c := None)) ns1"
    using h(2) s1(2,3) by (auto simp: cb_rel_at_def set_stacks_def insert_Diff_if)
  ultimately show ?thesis by (auto simp: cb_rel_def)
qed

lemma cb_invoke_rel:
  assumes "cb_rel s M" and c: "M c = Some (xs, fs)"
  shows "case fs of
      [] \<Rightarrow> \<exists>s'. uo_cb_invoke fuel s c = Some (Inr (None, s')) \<and> cb_rel s' (M(c := None))
    | f # gs \<Rightarrow> \<exists>s'. uo_cb_invoke fuel s c = Some (Inr (Some f, s')) \<and> cb_rel s' (M(c \<mapsto> (xs, gs)))"
proof -
  obtain ns where rel: "cb_rel_at s M ns" using assms(1) by (auto simp: cb_rel_def)
  have e: "uo_linklist_is_empty (cb_links s) (Funclist c) \<longleftrightarrow> fs = []"
    using clist_is_empty [OF cb_rel_at_clist [OF rel c]] cb_rel_at_funcs [OF rel c] by auto
  show ?thesis
  proof (cases fs)
    case Nil
    then obtain s' where "uo_cb_destroy fuel s c = Some (Inr s')" "cb_rel s' (M(c := None))"
      using cb_destroy_rel [OF assms(1) c] by auto
    with Nil e show ?thesis by (simp add: uo_cb_invoke_def)
  next
    case (Cons f gs)
    then obtain l s' where "take_func s c = Inr (l, s')" "func_item s' l = Some f"
      "cb_rel_at s' (M(c \<mapsto> (xs, gs))) (ns(c := tl (ns c)))"
      using cb_rel_take [OF rel] c by blast
    with Cons e show ?thesis by (auto simp: uo_cb_invoke_def cb_rel_def)
  qed
qed

text \<open>Appending a callback to itself: the loop extends the list it walks over.\<close>

lemma append_loop_self:
  assumes "cb_rel_at s M ns" and "M c = Some (xs, fs)" and "ns c = pre @ n # suf"
  shows "append_loop fuel s c c n = None"
  using assms
proof (induction fuel arbitrary: s M ns fs pre n suf)
  case 0
  then have "n \<noteq> Funclist c" using cb_rel_at_clist [OF 0(1,2)] by (auto simp: clist_def)
  then show ?case by (subst append_loop.simps) simp
next
  case (Suc fuel)
  have "map (func_item s) (pre @ n # suf) = map Some fs" using cb_rel_atD(3) [OF Suc.prems(1,2)] Suc.prems(3) by simp
  then have "func_item s n \<in> set (map Some fs)" by (metis in_set_conv_decomp list.set_map imageI)
  then obtain f where f: "func_item s n = Some f" by auto
  obtain l s1 where s1: "uo_cb_append_func s c f = Inr s1"
    "cb_rel_at s1 (M(c \<mapsto> (xs, fs @ [f]))) (ns(c := ns c @ [l]))"
    using cb_rel_append_func [OF Suc.prems(1,2)] by blast
  have n1: "(ns(c := ns c @ [l])) c = pre @ n # suf @ [l]" using Suc.prems(3) by simp
  have "nxt (cb_links s1) n = Some (hd (suf @ [l]))" "n \<noteq> Funclist c"
    using cb_rel_at_clist [OF s1(2) fun_upd_same] n1
      clist_next_prev(1) [of "cb_links s1" "Funclist c" pre n "suf @ [l]"]
    by (auto simp: clist_def hd_append)
  moreover have "(ns(c := ns c @ [l])) c = (pre @ [n]) @ hd (suf @ [l]) # tl (suf @ [l])"
    using n1 by simp
  note Suc.IH [OF s1(2) fun_upd_same this]
  ultimately show ?case using f s1(1) by (subst append_loop.simps) simp
qed

section \<open>Running a callback to its end\<close>

text \<open>
  A function of a callback does its work, \<open>body\<close>, and hands on with another invocation. What
  it relies on is that an invocation yields the next function of the list, and that the last
  one releases the callback.
\<close>

fun drive ::
  "('s \<Rightarrow> 'c \<Rightarrow> ('f option \<times> 's) run) \<Rightarrow> ('f \<Rightarrow> 'c \<Rightarrow> 's \<Rightarrow> 's cres) \<Rightarrow> nat \<Rightarrow> 's \<Rightarrow> 'c \<Rightarrow> ('f list \<times> 's) run" where
  "drive invoke body 0 s c = None"
| "drive invoke body (Suc n) s c =
     run_bind (invoke s c) (\<lambda>(f, s). case f of
         None \<Rightarrow> Some (Inr ([], s))
       | Some f \<Rightarrow>
           run_bind (Some (body f c s)) (\<lambda>s.
           run_bind (drive invoke body n s c) (\<lambda>(fs, s). Some (Inr (f # fs, s)))))"

definition own_data :: "('s \<Rightarrow> ('c \<rightharpoonup> 'd list \<times> 'f list) \<Rightarrow> bool) \<Rightarrow> ('f \<Rightarrow> 'c \<Rightarrow> 's \<Rightarrow> 's cres) \<Rightarrow> ('f \<Rightarrow> 'd list \<Rightarrow> 'd list) \<Rightarrow> bool" where
  "own_data rel body act \<longleftrightarrow>
     (\<forall>f c s M xs fs. rel s M \<longrightarrow> M c = Some (xs, fs) \<longrightarrow>
        (\<exists>s'. body f c s = Inr s' \<and> rel s' (M(c \<mapsto> (act f xs, fs)))))"

locale callbacks =
  fixes rel :: "'s \<Rightarrow> ('c \<rightharpoonup> 'd list \<times> 'f list) \<Rightarrow> bool"
    and invoke :: "'s \<Rightarrow> 'c \<Rightarrow> ('f option \<times> 's) run"
  assumes invoke_next: "rel s M \<Longrightarrow> M c = Some (xs, f # fs)
      \<Longrightarrow> \<exists>s'. invoke s c = Some (Inr (Some f, s')) \<and> rel s' (M(c \<mapsto> (xs, fs)))"
    and invoke_done: "rel s M \<Longrightarrow> M c = Some (xs, [])
      \<Longrightarrow> \<exists>s'. invoke s c = Some (Inr (None, s')) \<and> rel s' (M(c := None))"
begin

lemma drive_all:
  assumes "rel s M" and "M c = Some (xs, fs)" and "own_data rel body act" and "length fs < n"
  shows "\<exists>s'. drive invoke body n s c = Some (Inr (fs, s')) \<and> rel s' (M(c := None))"
  using assms(1,2,4)
proof (induction fs arbitrary: s M xs n)
  case Nil
  then obtain k where "n = Suc k" by (cases n) auto
  with invoke_done [OF Nil(1,2)] show ?case by (auto simp del: fun_upd_apply)
next
  case (Cons f fs)
  then obtain k where k: "n = Suc k" "length fs < k" by (cases n) auto
  obtain s1 where s1: "invoke s c = Some (Inr (Some f, s1))" "rel s1 (M(c \<mapsto> (xs, fs)))"
    using invoke_next [OF Cons.prems(1,2)] by blast
  obtain s2 where s2: "body f c s1 = Inr s2" "rel s2 ((M(c \<mapsto> (xs, fs)))(c \<mapsto> (act f xs, fs)))"
    using assms(3) s1(2) unfolding own_data_def by (metis fun_upd_same)
  from Cons.IH [OF s2(2) fun_upd_same k(2), unfolded fun_upd_upd] s1(1) s2(1) k(1) show ?case
    by (auto simp del: fun_upd_apply)
qed

end

interpretation uo_cb: callbacks cb_rel "uo_cb_invoke fuel" for fuel
proof unfold_locales
  fix s :: "('f, 'd) cbs" and M c xs f fs
  assume "cb_rel s M" "M c = Some (xs, f # fs)"
  from cb_invoke_rel [OF this, of fuel]
  show "\<exists>s'. uo_cb_invoke fuel s c = Some (Inr (Some f, s')) \<and> cb_rel s' (M(c \<mapsto> (xs, fs)))"
    by (simp only: list.case)
next
  fix s :: "('f, 'd) cbs" and M c xs
  assume "cb_rel s M" "M c = Some (xs, [])"
  from cb_invoke_rel [OF this, of fuel]
  show "\<exists>s'. uo_cb_invoke fuel s c = Some (Inr (None, s')) \<and> cb_rel s' (M(c := None))"
    by (simp only: list.case)
qed

lemma cb_stack_push_rel:
  assumes "cb_rel s M" and c: "M c = Some (xs, fs)"
  shows "\<exists>s'. uo_cb_stack_push s c x = Inr s' \<and> cb_rel s' (M(c \<mapsto> (xs @ [x], fs)))"
proof -
  obtain ns where rel: "cb_rel_at s M ns" using assms(1) by (auto simp: cb_rel_def)
  obtain st where "cb_stack s c = Some st" "stack_rel st xs" using cb_rel_atD(2) [OF rel c] by blast
  moreover obtain st' where st: "uo_stack_push st x = Inr st'" "stack_rel st' (xs @ [x])"
    using stack_rel_push [OF calculation(2)] by blast
  ultimately show ?thesis using cb_rel_set_stack [OF rel c st(2)] by (auto simp: uo_cb_stack_push_def cb_rel_def)
qed

text \<open>A program that has just initialized the library has no callbacks.\<close>

definition cbs_start :: "('f, 'd) cbs" where
  "cbs_start = \<lparr> cb_links = uo_linklist_selflink (uo_linklist_selflink links_zero CbHead) FuncHead,
     cb_pool = linkpool_first CbHead, func_pool = linkpool_first FuncHead,
     cb_stack = \<lambda>_. None, func_item = \<lambda>_. None \<rparr>"

lemma cbs_start_rel: "cb_rel cbs_start Map.empty"
proof -
  let ?h = "uo_linklist_selflink (uo_linklist_selflink links_zero CbHead) FuncHead"
  have "clist ?h CbHead []" "clist ?h FuncHead []" by (simp_all add: clist_def uo_linklist_selflink_def)
  then have "pool_inv CbLink ?h (linkpool_first CbHead) [] {}" "pool_inv FuncLink ?h (linkpool_first FuncHead) [] {}"
    by (auto intro!: linkpool_first_inv simp: inj_on_def)
  then have "cb_rel_at cbs_start Map.empty (\<lambda>_. [])"
    by (auto simp: cb_rel_at_def cb_shape_def cbs_start_def pool_owns_def funcs_held_def linkpool_first_def)
  then show ?thesis by (auto simp: cb_rel_def)
qed

text \<open>A callback with given data and functions can be built.\<close>

lemma cb_append_func_rel:
  assumes "cb_rel s M" and "M c = Some (xs, fs)"
  shows "\<exists>s'. uo_cb_append_func s c f = Inr s' \<and> cb_rel s' (M(c \<mapsto> (xs, fs @ [f])))"
  using assms cb_rel_append_func unfolding cb_rel_def by meson

lemma cb_create_rel:
  assumes "cb_rel s M"
  shows "\<exists>c s'. uo_cb_create s = Inr (c, s') \<and> M c = None \<and> cb_rel s' (M(c \<mapsto> ([], [])))"
  using assms cb_rel_create unfolding cb_rel_def by meson

lemma cb_add_funcs:
  assumes "cb_rel s M" and "M c = Some (xs, gs)"
  shows "\<exists>s'. cb_rel s' (M(c \<mapsto> (xs, gs @ fs)))"
  using assms
proof (induction fs arbitrary: s M gs)
  case Nil
  then show ?case by (auto simp: fun_upd_idem)
next
  case (Cons f fs)
  obtain s1 where s1: "cb_rel s1 (M(c \<mapsto> (xs, gs @ [f])))" using cb_append_func_rel [OF Cons.prems] by blast
  from Cons.IH [OF s1 fun_upd_same, unfolded fun_upd_upd] show ?case by simp
qed

lemma cb_add_data:
  assumes "cb_rel s M" and "M c = Some (ys, gs)"
  shows "\<exists>s'. cb_rel s' (M(c \<mapsto> (ys @ xs, gs)))"
  using assms
proof (induction xs arbitrary: s M ys)
  case Nil
  then show ?case by (auto simp: fun_upd_idem)
next
  case (Cons x xs)
  obtain s1 where s1: "cb_rel s1 (M(c \<mapsto> (ys @ [x], gs)))" using cb_stack_push_rel [OF Cons.prems] by blast
  from Cons.IH [OF s1 fun_upd_same, unfolded fun_upd_upd] show ?case by simp
qed

lemma cb_exists:
  assumes "cb_rel s M"
  shows "\<exists>s' c. M c = None \<and> cb_rel s' (M(c \<mapsto> (xs, fs)))"
proof -
  obtain c s1 where c: "M c = None" and s1: "cb_rel s1 (M(c \<mapsto> ([], [])))" using cb_create_rel [OF assms] by blast
  obtain s2 where s2: "cb_rel s2 (M(c \<mapsto> ([], fs)))"
    using cb_add_funcs [OF s1 fun_upd_same, unfolded fun_upd_upd] by auto
  obtain s3 where "cb_rel s3 (M(c \<mapsto> (xs, fs)))"
    using cb_add_data [OF s2 fun_upd_same, unfolded fun_upd_upd] by auto
  with c show ?thesis by blast
qed

section \<open>Properties\<close>

text \<open>
  C33: \<^verbatim>\<open>uo_cb_prepend_cb\<close> puts the functions of the other callback in front of the list and a
  copy of its data on top of the stack, and leaves every other callback alone. As documented,
  items keep their positive indexes, and the negative indexes are those of the other callback.
\<close>

theorem uo_cb_prepend_cb_correct:
  assumes "cb_rel s M" and "M c = Some (xs, fs)" and "M d = Some (ys, gs)" and "c \<noteq> d"
    and "length gs \<le> fuel" and "length xs + length ys \<le> 2 ^ 63"
  shows "\<exists>s'. uo_cb_prepend_cb fuel s c d = Some (Inr s') \<and> cb_rel s' (M(c \<mapsto> (xs @ ys, gs @ fs)))
           \<and> (\<forall>i < length xs. uo_cb_stack_index s' c (int i) = uo_cb_stack_index s c (int i))
           \<and> (\<forall>k. 0 < k \<and> k \<le> length ys \<longrightarrow>
                uo_cb_stack_index s' c (- int k) = uo_cb_stack_index s d (- int k))"
proof -
  obtain s' where s': "uo_cb_prepend_cb fuel s c d = Some (Inr s')" "cb_rel s' (M(c \<mapsto> (xs @ ys, gs @ fs)))"
    using cb_prepend_cb_rel [OF assms] by blast
  note i = cb_index [OF s'(2) fun_upd_same] cb_index [OF assms(1,2)] cb_index [OF assms(1,3)]
  have "uo_cb_stack_index s' c (- int k) = uo_cb_stack_index s d (- int k)" if "0 < k" "k \<le> length ys" for k
  proof -
    have "(xs @ ys) ! (length (xs @ ys) - k) = ys ! (length ys - k)"
      using nth_append_length_plus [of xs ys "length ys - k"] that by simp
    then show ?thesis using i(2) [of k] i(6) [of k] that by simp
  qed
  moreover have "uo_cb_stack_index s' c (int j) = uo_cb_stack_index s c (int j)" if "j < length xs" for j
    using i(1) [of j] i(3) [of j] that by (simp add: nth_append)
  ultimately show ?thesis using s' by blast
qed

text \<open>
  \<^verbatim>\<open>uo_cb_append_cb\<close> puts the functions of the other callback at the end of the list and a
  copy of its data under the stack, and leaves every other callback alone. As documented,
  items keep their negative indexes, and the positive indexes are those of the other callback.
\<close>

theorem uo_cb_append_cb_correct:
  assumes "cb_rel s M" and "M c = Some (xs, fs)" and "M d = Some (ys, gs)" and "c \<noteq> d"
    and "length gs \<le> fuel" and "length xs + length ys \<le> 2 ^ 63"
  shows "\<exists>s'. uo_cb_append_cb fuel s c d = Some (Inr s') \<and> cb_rel s' (M(c \<mapsto> (ys @ xs, fs @ gs)))
           \<and> (\<forall>i < length ys. uo_cb_stack_index s' c (int i) = uo_cb_stack_index s d (int i))
           \<and> (\<forall>k. 0 < k \<and> k \<le> length xs \<longrightarrow>
                uo_cb_stack_index s' c (- int k) = uo_cb_stack_index s c (- int k))"
proof -
  obtain s' where s': "uo_cb_append_cb fuel s c d = Some (Inr s')" "cb_rel s' (M(c \<mapsto> (ys @ xs, fs @ gs)))"
    using cb_append_cb_rel [OF assms] by blast
  note i = cb_index [OF s'(2) fun_upd_same] cb_index [OF assms(1,2)] cb_index [OF assms(1,3)]
  have "uo_cb_stack_index s' c (- int k) = uo_cb_stack_index s c (- int k)" if "0 < k" "k \<le> length xs" for k
  proof -
    have "(ys @ xs) ! (length (ys @ xs) - k) = xs ! (length xs - k)"
      using nth_append_length_plus [of ys xs "length xs - k"] that by simp
    then show ?thesis using i(2) [of k] i(4) [of k] that by simp
  qed
  moreover have "uo_cb_stack_index s' c (int j) = uo_cb_stack_index s d (int j)" if "j < length ys" for j
    using i(1) [of j] i(5) [of j] that by (simp add: nth_append)
  ultimately show ?thesis using s' by blast
qed

text \<open>Two callbacks for the witnesses.\<close>

lemma two_callbacks:
  "\<exists>(s :: (char, nat) cbs) M c d. cb_rel s M \<and> c \<noteq> d \<and> M c = Some ([1, 2], ''ab'') \<and> M d = Some ([3], ''xy'')"
proof -
  obtain s :: "(char, nat) cbs" and c where s: "cb_rel s (Map.empty(c \<mapsto> ([1, 2], ''ab'')))"
    using cb_exists [OF cbs_start_rel] by blast
  obtain s' :: "(char, nat) cbs" and d where d: "(Map.empty(c \<mapsto> ([1 :: nat, 2], ''ab''))) d = None"
    "cb_rel s' (Map.empty(c \<mapsto> ([1, 2], ''ab''), d \<mapsto> ([3], ''xy'')))"
    using cb_exists [OF s] by blast
  have "c \<noteq> d" using d(1) by auto
  with d(2) show ?thesis
    by (intro exI [of _ s'] exI [of _ "Map.empty(c \<mapsto> ([1, 2], ''ab''), d \<mapsto> ([3], ''xy''))"] exI [of _ c] exI [of _ d])
       simp
qed

theorem uo_cb_prepend_cb_correct_witness:
  "\<exists>(s :: (char, nat) cbs) c d s' M'. uo_cb_prepend_cb 2 s c d = Some (Inr s') \<and> cb_rel s' M'
     \<and> M' c = Some ([1, 2, 3], ''xyab'') \<and> uo_cb_stack_index s' c (- 1) = uo_cb_stack_index s d (- 1)"
proof -
  obtain s :: "(char, nat) cbs" and M c d where r: "cb_rel s M" "M c = Some ([1, 2], ''ab'')"
    "M d = Some ([3], ''xy'')" "c \<noteq> d" using two_callbacks by blast
  from uo_cb_prepend_cb_correct [OF r, of 2] obtain s' where
    "uo_cb_prepend_cb 2 s c d = Some (Inr s')" "cb_rel s' (M(c \<mapsto> ([1, 2, 3], ''xyab'')))"
    "\<forall>k. 0 < k \<and> k \<le> length [3 :: nat] \<longrightarrow> uo_cb_stack_index s' c (- int k) = uo_cb_stack_index s d (- int k)"
    by auto
  moreover from this(3) have "uo_cb_stack_index s' c (- 1) = uo_cb_stack_index s d (- 1)"
    by (metis One_nat_def length_Cons list.size(3) of_nat_1 order_refl zero_less_one)
  ultimately show ?thesis by (metis fun_upd_same)
qed

theorem uo_cb_append_cb_correct_witness:
  "\<exists>(s :: (char, nat) cbs) c d s' M'. uo_cb_append_cb 2 s c d = Some (Inr s') \<and> cb_rel s' M'
     \<and> M' c = Some ([3, 1, 2], ''abxy'')"
proof -
  obtain s :: "(char, nat) cbs" and M c d where r: "cb_rel s M" "M c = Some ([1, 2], ''ab'')"
    "M d = Some ([3], ''xy'')" "c \<noteq> d" using two_callbacks by blast
  from uo_cb_append_cb_correct [OF r, of 2] obtain s' where
    "uo_cb_append_cb 2 s c d = Some (Inr s')" "cb_rel s' (M(c \<mapsto> ([3, 1, 2], ''abxy'')))" by auto
  then show ?thesis by (metis fun_upd_same)
qed

text \<open>
  \<^verbatim>\<open>uo_cb_clone\<close> returns a callback of its own with the same data and the same functions;
  the original and all others stay as they are.
\<close>

theorem uo_cb_clone_copies:
  assumes "cb_rel s M" and "M d = Some (ys, gs)" and "length gs \<le> fuel" and "length ys \<le> 2 ^ 63"
  shows "\<exists>c s'. uo_cb_clone fuel s d = Some (Inr (c, s')) \<and> M c = None \<and> cb_rel s' (M(c \<mapsto> (ys, gs)))"
  using assms by (rule cb_clone_rel)

theorem uo_cb_clone_copies_witness:
  "\<exists>(s :: (char, nat) cbs) d c s' M'. uo_cb_clone 2 s d = Some (Inr (c, s')) \<and> cb_rel s' M'
     \<and> M' c = Some ([3], ''xy'') \<and> M' d = Some ([3], ''xy'') \<and> c \<noteq> d"
proof -
  obtain s :: "(char, nat) cbs" and M d where r: "cb_rel s M" "M d = Some ([3], ''xy'')"
    using two_callbacks by blast
  from uo_cb_clone_copies [OF r, of 2] obtain c s' where
    "uo_cb_clone 2 s d = Some (Inr (c, s'))" "M c = None" "cb_rel s' (M(c \<mapsto> ([3], ''xy'')))" by auto
  then show ?thesis using r(2) by (metis fun_upd_same fun_upd_other option.distinct(1))
qed

text \<open>
  C16: invoking a callback whose functions each work on its data and invoke it again runs all
  functions of the list, in order, and then releases the callback: its data, its list entries
  and its struct are back in the pools. This holds for every \<open>body\<close> of the functions that
  changes no more than the data of the callback it gets.
\<close>

theorem uo_cb_invoke_all:
  assumes "cb_rel s M" and "M c = Some (xs, fs)" and "own_data cb_rel body act" and "length fs < n"
  shows "\<exists>s'. drive (uo_cb_invoke fuel) body n s c = Some (Inr (fs, s')) \<and> cb_rel s' (M(c := None))"
  by (rule uo_cb.drive_all [OF assms])

theorem uo_cb_invoke_all_witness:
  "\<exists>(s :: (nat, nat) cbs) c s'. drive (uo_cb_invoke 0) (\<lambda>f c s. uo_cb_stack_push s c f) 4 s c
     = Some (Inr ([5, 6, 7], s')) \<and> cb_rel s' Map.empty"
proof -
  obtain s :: "(nat, nat) cbs" and c where s: "cb_rel s (Map.empty(c \<mapsto> ([], [5, 6, 7])))"
    using cb_exists [OF cbs_start_rel] by blast
  have "own_data cb_rel (\<lambda>f c s. uo_cb_stack_push s c f) (\<lambda>f xs. xs @ [f])"
    unfolding own_data_def by (intro allI impI cb_stack_push_rel)
  from uo_cb_invoke_all [OF s fun_upd_same this, of 4 0, unfolded fun_upd_upd] show ?thesis
    by (auto simp del: fun_upd_apply simp: fun_upd_idem)
qed



end
