(* ===== verification/Buf.thy ===== *)
theory Buf
  imports Stack
begin

text \<open>
  \<^verbatim>\<open>uo_buf/src/uo_buf.c\<close>: byte buffers that know their sz and a position and grow when they
  are written to. The two integers before the data are fields of a record; the bytes are
  \<^term>\<open>None\<close> until they are stored to. The abstraction of a buffer is the text before its
  position.
\<close>

record uo_buf =
  bf_size :: nat
  bf_ptr :: int
  bf_data :: "char option list"

definition UO_BUF_HEADER_SIZE :: nat where
  "UO_BUF_HEADER_SIZE = 16"

definition UO_BUF_GROW_SIZE :: nat where
  "UO_BUF_GROW_SIZE = UO_BUF_HEADER_SIZE + 0x20"

section \<open>Operations\<close>

definition uo_buf_alloc :: "nat \<Rightarrow> uo_buf" where
  "uo_buf_alloc sz = \<lparr> bf_size = sz, bf_ptr = 0, bf_data = replicate sz None \<rparr>"

definition uo_buf_realloc :: "uo_buf \<Rightarrow> nat \<Rightarrow> uo_buf" where
  "uo_buf_realloc buf sz = buf\<lparr> bf_data := realloc (bf_data buf) sz, bf_size := sz \<rparr>"

definition uo_buf_get_size :: "uo_buf \<Rightarrow> nat" where
  "uo_buf_get_size buf = bf_size buf"

definition uo_buf_realloc_2x :: "uo_buf \<Rightarrow> uo_buf" where
  "uo_buf_realloc_2x buf = uo_buf_realloc buf (uo_buf_get_size buf * 2)"

definition uo_buf_get_ptr :: "uo_buf \<Rightarrow> int" where
  "uo_buf_get_ptr buf = bf_ptr buf"

definition uo_buf_set_ptr_rel :: "uo_buf \<Rightarrow> int \<Rightarrow> uo_buf" where
  "uo_buf_set_ptr_rel buf rel_offset = buf\<lparr> bf_ptr := bf_ptr buf + rel_offset \<rparr>"

definition uo_buf_set_ptr_abs :: "uo_buf \<Rightarrow> int \<Rightarrow> uo_buf" where
  "uo_buf_set_ptr_abs buf abs_offset = buf\<lparr> bf_ptr := abs_offset \<rparr>"

definition uo_buf_get_len_before_ptr :: "uo_buf \<Rightarrow> int" where
  "uo_buf_get_len_before_ptr buf = bf_ptr buf"

definition uo_buf_get_len_after_ptr :: "uo_buf \<Rightarrow> int" where
  "uo_buf_get_len_after_ptr buf = int (bf_size buf) - bf_ptr buf"

definition uo_buf_get_end :: "uo_buf \<Rightarrow> nat" where
  "uo_buf_get_end buf = uo_buf_get_size buf"

text \<open>Storing characters at an offset of the data.\<close>

definition buf_store :: "uo_buf \<Rightarrow> int \<Rightarrow> string \<Rightarrow> uo_buf cres" where
  "buf_store buf i s =
     res_bind (store (bf_data buf) i (map Some s)) (\<lambda>d. Inr (buf\<lparr> bf_data := d \<rparr>))"

definition uo_buf_null_terminate :: "uo_buf \<Rightarrow> uo_buf cres" where
  "uo_buf_null_terminate buf =
     (let buf = (if uo_buf_get_len_after_ptr buf < 1 then uo_buf_realloc_2x buf else buf)
      in buf_store buf (uo_buf_get_ptr buf) [CHR 0x00])"

text \<open>
  \<^verbatim>\<open>vsnprintf\<close> with room for \<open>n\<close> bytes stores at most \<open>n - 1\<close> characters and a terminator;
  \<open>text\<close> is the formatted text, whose length is returned as an \<^verbatim>\<open>int\<close> and has to fit.
\<close>

definition vsnprintf :: "uo_buf \<Rightarrow> int \<Rightarrow> 64 word \<Rightarrow> string \<Rightarrow> uo_buf cres" where
  "vsnprintf buf i n text =
     (if 2 ^ 31 \<le> length text then Inl FormatOverflow
      else if n = 0 then Inr buf
      else buf_store buf i (take (unat n - 1) text @ [CHR 0x00]))"

text \<open>
  The room behind the position is narrowed to an \<^verbatim>\<open>int\<close> and widened to a \<^verbatim>\<open>size_t\<close> again for the
  call. This is the variant for systems other than Windows.
\<close>

definition uo_buf_printf_append :: "uo_buf \<Rightarrow> string \<Rightarrow> (nat \<times> uo_buf) cres" where
  "uo_buf_printf_append buf text =
     (let n = sint (of_int (uo_buf_get_len_after_ptr buf) :: 32 word);
          len = length text
      in res_bind (vsnprintf buf (uo_buf_get_ptr buf) (of_int n) text) (\<lambda>buf.
         res_bind
           (if n \<le> int len
            then let sz = unat (uo_ceil_pow2
                       (of_int (uo_buf_get_len_before_ptr buf + int len + int UO_BUF_GROW_SIZE + 1)));
                     buf = uo_buf_realloc buf (sz - UO_BUF_HEADER_SIZE)
                 in buf_store buf (uo_buf_get_ptr buf) (text @ [CHR 0x00])
            else Inr buf) (\<lambda>buf.
         Inr (len, uo_buf_set_ptr_rel buf (int len)))))"

text \<open>
  The loop of \<^verbatim>\<open>uo_buf_memcpy_append\<close> doubles the buffer until the bytes fit; \<open>fuel\<close> bounds the
  number of doublings.
\<close>

fun memcpy_grow :: "nat \<Rightarrow> uo_buf \<Rightarrow> nat \<Rightarrow> uo_buf option" where
  "memcpy_grow fuel buf sz =
     (if uo_buf_get_len_after_ptr buf \<le> int sz
      then case fuel of 0 \<Rightarrow> None | Suc fuel \<Rightarrow> memcpy_grow fuel (uo_buf_realloc_2x buf) sz
      else Some buf)"

declare memcpy_grow.simps [simp del]

definition uo_buf_memcpy_append :: "nat \<Rightarrow> uo_buf \<Rightarrow> string \<Rightarrow> (int \<times> uo_buf) run" where
  "uo_buf_memcpy_append fuel buf src =
     (case memcpy_grow fuel buf (length src) of
        None \<Rightarrow> None
      | Some buf \<Rightarrow>
          run_bind (Some (buf_store buf (uo_buf_get_ptr buf) src)) (\<lambda>buf'.
            Some (Inr (uo_buf_get_ptr buf, uo_buf_set_ptr_rel buf' (int (length src))))))"

section \<open>The text of a buffer\<close>

text \<open>\<open>buf_rel b s\<close>: the buffer is well-formed and holds the text \<open>s\<close> before its position.\<close>

definition buf_rel :: "uo_buf \<Rightarrow> string \<Rightarrow> bool" where
  "buf_rel b s \<longleftrightarrow> length (bf_data b) = bf_size b \<and> bf_ptr b = int (length s)
     \<and> length s \<le> bf_size b \<and> take (length s) (bf_data b) = map Some s"

lemma buf_relD:
  assumes "buf_rel b s"
  shows "length (bf_data b) = bf_size b" "bf_ptr b = int (length s)" "length s \<le> bf_size b"
    "take (length s) (bf_data b) = map Some s"
  using assms by (simp_all add: buf_rel_def)

text \<open>The characters of a buffer before its position.\<close>

definition buf_text :: "uo_buf \<Rightarrow> string cres" where
  "buf_text buf =
     (let n = uo_buf_get_len_before_ptr buf
      in if n < 0 \<or> int (length (bf_data buf)) < n then Inl OutOfBounds
         else if None \<in> set (take (nat n) (bf_data buf)) then Inl Uninitialised
         else Inr (map the (take (nat n) (bf_data buf))))"

lemma buf_text_rel: "buf_rel b s \<Longrightarrow> buf_text b = Inr s"
  by (auto simp: buf_text_def buf_rel_def uo_buf_get_len_before_ptr_def comp_def)

lemma buf_rel_alloc: "buf_rel (uo_buf_alloc sz) []"
  by (simp add: buf_rel_def uo_buf_alloc_def)

lemma buf_rel_realloc: "buf_rel b s \<Longrightarrow> length s \<le> sz \<Longrightarrow> buf_rel (uo_buf_realloc b sz) s"
  by (simp add: buf_rel_def uo_buf_realloc_def take_realloc)

text \<open>Storing at the position leaves the text; moving the position then extends it.\<close>

lemma buf_store_at_ptr:
  assumes "buf_rel b s" and "length s + length t \<le> bf_size b"
  shows "\<exists>b'. buf_store b (bf_ptr b) t = Inr b' \<and> buf_rel b' s \<and> bf_size b' = bf_size b
           \<and> take (length s + length t) (bf_data b') = map Some (s @ t)"
  using assms by (auto simp: buf_store_def store_def buf_rel_def)

lemma buf_rel_advance:
  assumes "buf_rel b s" and "take (length s + length t) (bf_data b) = map Some (s @ t)"
    and "length s + length t \<le> bf_size b"
  shows "buf_rel (uo_buf_set_ptr_rel b (int (length t))) (s @ t)"
  using assms by (auto simp: buf_rel_def uo_buf_set_ptr_rel_def)

lemma take_prefix_eq:
  assumes "take n xs = ys" and "k \<le> n"
  shows "take k xs = take k ys"
  using assms by (auto simp: min_def)

lemma buf_rel_null_terminate:
  assumes "buf_rel b s" and "0 < bf_size b"
  shows "\<exists>b'. uo_buf_null_terminate b = Inr b' \<and> buf_rel b' s \<and> length s < bf_size b'
           \<and> bf_data b' ! length s = Some (CHR 0x00) \<and> bf_size b' \<le> 2 * bf_size b"
proof -
  define b1 where "b1 = (if uo_buf_get_len_after_ptr b < 1 then uo_buf_realloc_2x b else b)"
  have b1: "buf_rel b1 s" "length s < bf_size b1" "bf_size b1 \<le> 2 * bf_size b"
    using assms buf_relD [OF assms(1)]
    by (auto simp: b1_def uo_buf_realloc_2x_def uo_buf_get_size_def uo_buf_get_len_after_ptr_def
        uo_buf_realloc_def intro!: buf_rel_realloc [unfolded uo_buf_realloc_def])
  obtain b' where b': "buf_store b1 (bf_ptr b1) [CHR 0x00] = Inr b'" "buf_rel b' s"
    "bf_size b' = bf_size b1" "take (length s + 1) (bf_data b') = map Some (s @ [CHR 0x00])"
    using buf_store_at_ptr [OF b1(1), of "[CHR 0x00]"] b1(2) by auto
  have "bf_data b' ! length s = take (length s + 1) (bf_data b') ! length s" by simp
  also have "\<dots> = Some (CHR 0x00)" unfolding b'(4) by (simp add: nth_append)
  finally show ?thesis
    using b' b1 by (auto simp: uo_buf_null_terminate_def b1_def [symmetric] uo_buf_get_ptr_def Let_def)
qed

text \<open>The room as an \<^verbatim>\<open>int\<close>: exact, too small, or negative when there are two gigabytes or more.\<close>

lemma room_narrowed:
  assumes "0 \<le> la" and "n = sint (of_int la :: 32 word)"
  shows "n \<le> la" "n < 0 \<longrightarrow> 2 ^ 31 \<le> la" "- (2 ^ 31) \<le> n" "n < 2 ^ 31"
proof -
  have n: "n = (la + 2 ^ 31) mod 2 ^ 32 - 2 ^ 31"
    unfolding assms(2) sint_uint signed_take_bit_eq_take_bit_shift by (simp add: uint_word_of_int_eq take_bit_eq_mod mod_simps)
  moreover have "(la + 2 ^ 31) mod 2 ^ 32 \<le> la + 2 ^ 31" using assms(1) by (intro zmod_le_nonneg_dividend) simp
  ultimately show "n \<le> la" "- (2 ^ 31) \<le> n" "n < 2 ^ 31" by simp_all
  show "n < 0 \<longrightarrow> 2 ^ 31 \<le> la"
  proof (rule ccontr)
    assume "\<not> (n < 0 \<longrightarrow> 2 ^ 31 \<le> la)"
    then have "n < 0" "la < 2 ^ 31" by simp_all
    then have "(la + 2 ^ 31) mod 2 ^ 32 = la + 2 ^ 31" using assms(1) by (intro mod_pos_pos_trivial) simp_all
    then show False using n \<open>n < 0\<close> assms(1) by simp
  qed
qed

lemma room_widened:
  assumes "- (2 ^ 31) \<le> n" and "n < 2 ^ 31"
  shows "unat (of_int n :: 64 word) = (if n < 0 then nat (2 ^ 64 + n) else nat n)"
proof -
  have "n mod 2 ^ 64 = (if n < 0 then 2 ^ 64 + n else n)"
    using assms mod_pos_pos_trivial [of "n + 2 ^ 64" "2 ^ 64"] by (auto simp: mod_pos_pos_trivial)
  then show ?thesis by (simp add: unat_eq_nat_uint uint_word_of_int_eq take_bit_eq_mod)
qed

lemma buf_rel_vsnprintf:
  assumes b: "buf_rel b s" and len: "length t < 2 ^ 31"
    and fits: "length s + min (unat n) (length t + 1) \<le> bf_size b"
  shows "\<exists>b1. vsnprintf b (bf_ptr b) n t = Inr b1 \<and> buf_rel b1 s \<and> bf_size b1 = bf_size b
           \<and> (length t < unat n \<longrightarrow> take (length s + length t) (bf_data b1) = map Some (s @ t))"
proof (cases "n = 0")
  case True
  then show ?thesis using b len by (auto simp: vsnprintf_def)
next
  case False
  let ?w = "take (unat n - 1) t @ [CHR 0x00]"
  have "0 < unat n" using False by (simp add: unat_gt_0)
  then have "length s + length ?w \<le> bf_size b" using fits by (auto simp: min_def split: if_splits)
  then obtain b1 where *: "buf_store b (bf_ptr b) ?w = Inr b1" "buf_rel b1 s" "bf_size b1 = bf_size b"
    "take (length s + length ?w) (bf_data b1) = map Some (s @ ?w)"
    using buf_store_at_ptr [OF b] by blast
  have "take (length s + length t) (bf_data b1) = map Some (s @ t)" if "length t < unat n"
  proof -
    have "take (unat n - 1) t = t" using that by simp
    then show ?thesis using take_prefix_eq [OF *(4), of "length s + length t"] that by (simp add: min_def)
  qed
  with * False len show ?thesis by (auto simp: vsnprintf_def)
qed

lemma buf_rel_grown:
  assumes b: "buf_rel b s" and "length s + length t < size'"
  shows "\<exists>b'. buf_store (uo_buf_realloc b size') (bf_ptr b) (t @ [CHR 0x00]) = Inr b'
           \<and> buf_rel (uo_buf_set_ptr_rel b' (int (length t))) (s @ t) \<and> bf_size b' = size'"
proof -
  define b2 where "b2 = uo_buf_realloc b size'"
  have b2: "buf_rel b2 s" "bf_size b2 = size'" "bf_ptr b2 = bf_ptr b"
    using buf_rel_realloc [OF b] assms(2) by (auto simp: b2_def uo_buf_realloc_def)
  obtain b3 where b3: "buf_store b2 (bf_ptr b2) (t @ [CHR 0x00]) = Inr b3" "buf_rel b3 s" "bf_size b3 = bf_size b2"
    "take (length s + length (t @ [CHR 0x00])) (bf_data b3) = map Some (s @ t @ [CHR 0x00])"
    using buf_store_at_ptr [OF b2(1), of "t @ [CHR 0x00]"] assms(2) b2(2) by force
  have "take (length s + length t) (bf_data b3) = map Some (s @ t)"
    using take_prefix_eq [OF b3(4), of "length s + length t"] by simp
  then have "buf_rel (uo_buf_set_ptr_rel b3 (int (length t))) (s @ t)"
    using b3(3) b2(2) assms(2) by (intro buf_rel_advance [OF b3(2)]) auto
  then show ?thesis using b3(1,3) b2(2,3) by (auto simp: b2_def)
qed

lemma buf_rel_printf:
  assumes b: "buf_rel b s" and small: "length s + length t + 49 \<le> 2 ^ 63" and len: "length t < 2 ^ 31"
  shows "\<exists>b'. uo_buf_printf_append b t = Inr (length t, b') \<and> buf_rel b' (s @ t)
           \<and> length (s @ t) < bf_size b'"
proof -
  define n where "n = sint (of_int (uo_buf_get_len_after_ptr b) :: 32 word)"
  have la: "uo_buf_get_len_after_ptr b = int (bf_size b) - int (length s)"
    using buf_relD [OF b] by (simp add: uo_buf_get_len_after_ptr_def)
  then have la0: "0 \<le> uo_buf_get_len_after_ptr b" using buf_relD(3) [OF b] by simp
  note N = room_narrowed [OF la0 n_def]
  have u: "unat (of_int n :: 64 word) = (if n < 0 then nat (2 ^ 64 + n) else nat n)"
    by (rule room_widened [OF N(3,4)])
  have "length s + min (unat (of_int n :: 64 word)) (length t + 1) \<le> bf_size b"
    using N(1,2) len la buf_relD(3) [OF b] unfolding u by (cases "n < 0") auto
  from buf_rel_vsnprintf [OF b len this] obtain b1 where
    b1: "vsnprintf b (bf_ptr b) (of_int n) t = Inr b1" "buf_rel b1 s" "bf_size b1 = bf_size b"
    "length t < unat (of_int n :: 64 word) \<longrightarrow> take (length s + length t) (bf_data b1) = map Some (s @ t)" by blast
  show ?thesis
  proof (cases "int (length t) < n")
    case True
    then have "buf_rel (uo_buf_set_ptr_rel b1 (int (length t))) (s @ t)"
      using b1 N(1) la u by (intro buf_rel_advance) auto
    moreover have "uo_buf_printf_append b t = Inr (length t, uo_buf_set_ptr_rel b1 (int (length t)))"
      unfolding uo_buf_printf_append_def Let_def n_def [symmetric] uo_buf_get_ptr_def using True b1(1) by simp
    moreover have "length s + length t < bf_size b1" using True b1(3) la N(1) by simp
    ultimately show ?thesis by (auto simp: uo_buf_set_ptr_rel_def)
  next
    case False
    let ?x = "length s + length t + 49"
    obtain k where k: "unat (uo_ceil_pow2 (of_nat ?x)) = 2 ^ k" "?x \<le> 2 ^ k"
      using uo_ceil_pow2_least [OF _ small] by auto
    have x: "(of_int (bf_ptr b1 + int (length t) + int UO_BUF_GROW_SIZE + 1) :: 64 word) = of_nat ?x"
      using buf_relD(2) [OF b1(2)] by (simp add: UO_BUF_GROW_SIZE_def UO_BUF_HEADER_SIZE_def)
    have "length s + length t < 2 ^ k - UO_BUF_HEADER_SIZE" using k(2) by (simp add: UO_BUF_HEADER_SIZE_def)
    then obtain b3 where b3: "buf_store (uo_buf_realloc b1 (2 ^ k - UO_BUF_HEADER_SIZE)) (bf_ptr b1) (t @ [CHR 0x00]) = Inr b3"
      "buf_rel (uo_buf_set_ptr_rel b3 (int (length t))) (s @ t)" "bf_size b3 = 2 ^ k - UO_BUF_HEADER_SIZE"
      using buf_rel_grown [OF b1(2)] by blast
    moreover have "bf_ptr (uo_buf_realloc b1 (2 ^ k - UO_BUF_HEADER_SIZE)) = bf_ptr b1"
      by (simp add: uo_buf_realloc_def)
    ultimately have "uo_buf_printf_append b t = Inr (length t, uo_buf_set_ptr_rel b3 (int (length t)))"
      unfolding uo_buf_printf_append_def Let_def n_def [symmetric] uo_buf_get_ptr_def uo_buf_get_len_before_ptr_def
      using False b1(1) k(1) [folded x] by simp
    then show ?thesis using b3 k(2) by (auto simp: uo_buf_set_ptr_rel_def UO_BUF_HEADER_SIZE_def)
  qed
qed

lemma memcpy_grow_fits:
  assumes "buf_rel b s" and "length s + n < bf_size b * 2 ^ fuel"
  shows "\<exists>b'. memcpy_grow fuel b n = Some b' \<and> buf_rel b' s \<and> length s + n < bf_size b'
           \<and> bf_size b \<le> bf_size b'"
  using assms
proof (induction fuel arbitrary: b)
  case 0
  then show ?case
    by (subst memcpy_grow.simps) (auto simp: uo_buf_get_len_after_ptr_def buf_rel_def)
next
  case (Suc fuel)
  have "buf_rel (uo_buf_realloc_2x b) s"
    unfolding uo_buf_realloc_2x_def uo_buf_get_size_def
    using buf_relD(3) [OF Suc.prems(1)] by (intro buf_rel_realloc Suc.prems(1)) simp
  moreover have "bf_size (uo_buf_realloc_2x b) = 2 * bf_size b"
    by (simp add: uo_buf_realloc_2x_def uo_buf_realloc_def uo_buf_get_size_def)
  ultimately show ?case
    using Suc.IH [of "uo_buf_realloc_2x b"] Suc.prems
    by (subst memcpy_grow.simps) (fastforce simp: uo_buf_get_len_after_ptr_def buf_rel_def mult.assoc mult.left_commute)
qed

lemma buf_rel_memcpy:
  assumes b: "buf_rel b s" and "length s + length t < bf_size b * 2 ^ fuel"
  shows "\<exists>b'. uo_buf_memcpy_append fuel b t = Some (Inr (int (length s), b')) \<and> buf_rel b' (s @ t)
           \<and> length (s @ t) < bf_size b' \<and> bf_size b \<le> bf_size b'"
proof -
  obtain b1 where b1: "memcpy_grow fuel b (length t) = Some b1" "buf_rel b1 s" "length s + length t < bf_size b1"
    "bf_size b \<le> bf_size b1" using memcpy_grow_fits [OF assms] by blast
  obtain b2 where b2: "buf_store b1 (bf_ptr b1) t = Inr b2" "buf_rel b2 s" "bf_size b2 = bf_size b1"
    "take (length s + length t) (bf_data b2) = map Some (s @ t)"
    using buf_store_at_ptr [OF b1(2), of t] b1(3) by auto
  have "buf_rel (uo_buf_set_ptr_rel b2 (int (length t))) (s @ t)"
    using b2 b1(3) by (intro buf_rel_advance) auto
  with b1 b2 show ?thesis
    by (auto simp: uo_buf_memcpy_append_def uo_buf_get_ptr_def buf_relD(2) [OF b1(2)] uo_buf_set_ptr_rel_def)
qed

lemma memcpy_grow_empty:
  "bf_size b = 0 \<Longrightarrow> bf_ptr b = 0 \<Longrightarrow> memcpy_grow fuel b n = None"
proof (induction fuel arbitrary: b)
  case 0
  then show ?case by (subst memcpy_grow.simps) (simp add: uo_buf_get_len_after_ptr_def)
next
  case (Suc fuel)
  then show ?case
    by (subst memcpy_grow.simps)
       (simp add: uo_buf_get_len_after_ptr_def uo_buf_realloc_2x_def uo_buf_realloc_def uo_buf_get_size_def)
qed

section \<open>Properties\<close>

text \<open>
  C35: writing to a buffer extends its text by exactly what is written, by formatting as well
  as by copying, whatever its size was, also when it is too large for the \<^verbatim>\<open>int\<close> that the
  formatting keeps the room in; the buffer keeps room for a terminator. Copying needs
  a buffer that is not of size zero, and then at most 64 doublings.
\<close>

theorem uo_buf_append_correct:
  assumes "buf_rel b s" and "length s + length t + 49 \<le> 2 ^ 63" and "length t < 2 ^ 31"
  shows "(\<exists>b'. uo_buf_printf_append b t = Inr (length t, b') \<and> buf_rel b' (s @ t) \<and> length (s @ t) < bf_size b')
         \<and> (0 < bf_size b \<longrightarrow> (\<exists>b'. uo_buf_memcpy_append 64 b t = Some (Inr (int (length s), b'))
              \<and> buf_rel b' (s @ t) \<and> length (s @ t) < bf_size b'))"
proof (intro conjI impI)
  show "\<exists>b'. uo_buf_printf_append b t = Inr (length t, b') \<and> buf_rel b' (s @ t) \<and> length (s @ t) < bf_size b'"
    by (rule buf_rel_printf [OF assms])
  assume "0 < bf_size b"
  then have "length s + length t < bf_size b * 2 ^ 64"
    using assms(2) by (cases "bf_size b") auto
  from buf_rel_memcpy [OF assms(1) this]
  show "\<exists>b'. uo_buf_memcpy_append 64 b t = Some (Inr (int (length s), b')) \<and> buf_rel b' (s @ t)
      \<and> length (s @ t) < bf_size b'" by blast
qed

theorem uo_buf_append_correct_witness:
  "(\<exists>b'. uo_buf_printf_append (uo_buf_alloc 2) ''GET /'' = Inr (5, b') \<and> buf_rel b' ''GET /'' \<and> 5 < bf_size b')
   \<and> (\<exists>b'. uo_buf_memcpy_append 64 (uo_buf_alloc 2) ''GET /'' = Some (Inr (0, b')) \<and> buf_rel b' ''GET /'')"
  using uo_buf_append_correct [OF buf_rel_alloc, of "''GET /''" 2] by (auto simp: uo_buf_alloc_def)

text \<open>
  Copying anything into an empty buffer of size zero does not return, since doubling its
  size leaves it zero; nor can such a buffer be terminated: the terminator is stored outside.
\<close>

theorem uo_buf_size_zero:
  "uo_buf_memcpy_append fuel (uo_buf_alloc 0) src = None
   \<and> uo_buf_null_terminate (uo_buf_alloc 0) = Inl OutOfBounds"
  by (auto simp: uo_buf_memcpy_append_def memcpy_grow_empty uo_buf_alloc_def uo_buf_null_terminate_def
      uo_buf_get_len_after_ptr_def uo_buf_realloc_2x_def uo_buf_realloc_def uo_buf_get_size_def realloc_def
      buf_store_def store_def uo_buf_get_ptr_def)

end
