(* ===== verification/Hashtbl.thy ===== *)
theory Hashtbl
  imports Linklist Util
begin

text \<open>
  \<^verbatim>\<open>uo_hashtbl/src/include/uo_hashtbl/uo_hashtbl.h\<close>: the open-addressing hash table that the
  macros \<^verbatim>\<open>uo_decl_hashtbl\<close> and \<^verbatim>\<open>uo_impl_hashtbl\<close> generate, with the hash function as a
  parameter. Its array of links is threaded by a circular list in insertion order. A key is
  \<^term>\<open>None\<close> for the key 0 that marks a free slot; a value is a pointer-sized word, 0 for
  \<^verbatim>\<open>NULL\<close>. The theorems relate a table to the association list of its pairs in insertion
  order.
\<close>

section \<open>State\<close>

text \<open>A link is the head of a table or slot \<open>i\<close> of the table's \<open>g\<close>-th array.\<close>

datatype node = Head | Slot nat nat

record 'k uo_kvp =
  kvp_key :: "'k option"
  kvp_value :: "64 word"

record 'k uo_hashtbl =
  ht_heap :: "node links"
  ht_count :: nat
  ht_removed_count :: nat
  ht_capacity :: nat
  ht_gen :: nat
  ht_links :: "'k uo_kvp list"

definition UO_HASHTBL_MIN_CAPACITY :: nat where
  "UO_HASHTBL_MIN_CAPACITY = 0x10"

definition UO_HASHTBL_TAG_REMOVED :: "64 word" where
  "UO_HASHTBL_TAG_REMOVED = NOT 0"

abbreviation free_kvp :: "'k uo_kvp" where
  "free_kvp \<equiv> \<lparr> kvp_key = None, kvp_value = 0 \<rparr>"

abbreviation removed_kvp :: "'k uo_kvp" where
  "removed_kvp \<equiv> \<lparr> kvp_key = None, kvp_value = UO_HASHTBL_TAG_REMOVED \<rparr>"

text \<open>\<^verbatim>\<open>calloc\<close> of the links of array \<open>g\<close>: every link field is \<^verbatim>\<open>NULL\<close>.\<close>

definition calloc_links :: "nat \<Rightarrow> node links \<Rightarrow> node links" where
  "calloc_links g h =
     \<lparr> nxt = (\<lambda>n. case n of Slot g' i \<Rightarrow> if g' = g then None else nxt h n | Head \<Rightarrow> nxt h n),
       prv = (\<lambda>n. case n of Slot g' i \<Rightarrow> if g' = g then None else prv h n | Head \<Rightarrow> prv h n) \<rparr>"

section \<open>Operations\<close>

definition uo_hashtbl_create_at :: "nat \<Rightarrow> 'k uo_hashtbl" where
  "uo_hashtbl_create_at initial_capacity =
     (let capacity = (if UO_HASHTBL_MIN_CAPACITY \<le> initial_capacity
            then unat (uo_ceil_pow2 (of_nat initial_capacity))
            else UO_HASHTBL_MIN_CAPACITY);
          heap = calloc_links 0 \<lparr> nxt = \<lambda>_. None, prv = \<lambda>_. None \<rparr>
      in \<lparr> ht_heap = uo_linklist_selflink heap Head, ht_count = 0, ht_removed_count = 0,
           ht_capacity = capacity, ht_gen = 0, ht_links = replicate capacity free_kvp \<rparr>)"

text \<open>The probing loop, at the value \<open>h\<close> of the counter.\<close>

partial_function (option) find_loop :: "'k uo_kvp list \<Rightarrow> 64 word \<Rightarrow> 'k \<Rightarrow> 64 word \<Rightarrow> nat option" where
  "find_loop links msk key h =
     (let link = links ! unat (h AND msk) in
      if kvp_key link \<noteq> None \<and> kvp_key link \<noteq> Some key \<or> kvp_value link = UO_HASHTBL_TAG_REMOVED
      then find_loop links msk key (h + 1)
      else Some (unat (h AND msk)))"

definition uo_hashtbl_find_link ::
  "('k \<Rightarrow> 64 word) \<Rightarrow> 'k uo_kvp list \<Rightarrow> nat \<Rightarrow> 'k \<Rightarrow> nat option" where
  "uo_hashtbl_find_link hash links capacity key =
     (let msk = of_nat capacity - 1 in find_loop links msk key (hash key AND msk))"

definition uo_hashtbl_get :: "('k \<Rightarrow> 64 word) \<Rightarrow> 'k uo_hashtbl \<Rightarrow> 'k option \<Rightarrow> 64 word option" where
  "uo_hashtbl_get hash t key =
     (case key of
        None \<Rightarrow> Some 0
      | Some k \<Rightarrow> map_option (\<lambda>i. kvp_value (ht_links t ! i))
                   (uo_hashtbl_find_link hash (ht_links t) (ht_capacity t) k))"

text \<open>
  One round of the loop of \<^verbatim>\<open>uo_hashtbl_resize\<close> at a link of the old array, and the loop:
  \<open>p\<close> is the pointer it follows next.
\<close>

definition resize_step ::
  "('k \<Rightarrow> 64 word) \<Rightarrow> 'k uo_hashtbl \<Rightarrow> nat \<Rightarrow> nat \<Rightarrow> 'k uo_kvp list \<Rightarrow> node links
   \<Rightarrow> ('k uo_kvp list \<times> node links) run" where
  "resize_step hash t i capacity new_links heap =
     (let item = ht_links t ! i in
      case kvp_key item of
        None \<Rightarrow> Some (Inl NullDeref)
      | Some key \<Rightarrow>
          (case uo_hashtbl_find_link hash new_links capacity key of
             None \<Rightarrow> None
           | Some j \<Rightarrow>
               run_bind (Some (uo_linklist_link heap Head (Slot (ht_gen t + 1) j)))
                 (\<lambda>heap. Some (Inr (new_links[j := item], heap)))))"

fun resize_loop ::
  "('k \<Rightarrow> 64 word) \<Rightarrow> 'k uo_hashtbl \<Rightarrow> nat \<Rightarrow> nat \<Rightarrow> node option \<Rightarrow> 'k uo_kvp list \<Rightarrow> node links
   \<Rightarrow> ('k uo_kvp list \<times> node links) run" where
  "resize_loop hash t capacity 0 p new_links heap = Some (Inr (new_links, heap))"
| "resize_loop hash t capacity (Suc n) p new_links heap =
     (case p of
        None \<Rightarrow> Some (Inl NullDeref)
      | Some Head \<Rightarrow> Some (Inl OutOfBounds)
      | Some (Slot g i) \<Rightarrow>
          run_bind (resize_step hash t i capacity new_links heap)
            (\<lambda>(new_links, heap'). resize_loop hash t capacity n (nxt heap' (Slot g i)) new_links heap'))"

definition uo_hashtbl_resize ::
  "('k \<Rightarrow> 64 word) \<Rightarrow> 'k uo_hashtbl \<Rightarrow> nat \<Rightarrow> 'k uo_hashtbl run" where
  "uo_hashtbl_resize hash t capacity =
     (let new_links = replicate capacity free_kvp;
          heap = calloc_links (ht_gen t + 1) (ht_heap t);
          first = nxt heap Head
      in run_bind (Some (uo_linklist_unlink heap Head)) (\<lambda>heap.
         run_bind (resize_loop hash t capacity (ht_count t) first new_links
           (uo_linklist_selflink heap Head)) (\<lambda>(new_links, heap).
         Some (Inr (t\<lparr> ht_capacity := capacity, ht_heap := heap, ht_gen := ht_gen t + 1,
                        ht_links := new_links \<rparr>)))))"

definition uo_hashtbl_set ::
  "('k \<Rightarrow> 64 word) \<Rightarrow> 'k uo_hashtbl \<Rightarrow> 'k option \<Rightarrow> 64 word \<Rightarrow> 'k uo_hashtbl run" where
  "uo_hashtbl_set hash t key val =
     (case key of
        None \<Rightarrow> Some (Inr t)
      | Some k \<Rightarrow>
          (case uo_hashtbl_find_link hash (ht_links t) (ht_capacity t) k of
             None \<Rightarrow> None
           | Some i \<Rightarrow>
               let link = (ht_links t ! i)\<lparr> kvp_value := val \<rparr>;
                   t = t\<lparr> ht_links := (ht_links t)[i := link] \<rparr>
               in if kvp_key link \<noteq> None then Some (Inr t)
                  else
                    let link = link\<lparr> kvp_key := Some k \<rparr>;
                        t = t\<lparr> ht_links := (ht_links t)[i := link] \<rparr>
                    in run_bind (Some (uo_linklist_link (ht_heap t) Head (Slot (ht_gen t) i))) (\<lambda>heap.
                       let t = t\<lparr> ht_heap := heap, ht_count := ht_count t + 1 \<rparr>
                       in if ht_count t = ht_capacity t div 2
                          then run_bind (uo_hashtbl_resize hash t (2 * ht_capacity t))
                                 (\<lambda>t. Some (Inr (t\<lparr> ht_removed_count := 0 \<rparr>)))
                          else Some (Inr t))))"

text \<open>
  The last condition of \<^verbatim>\<open>uo_hashtbl_remove\<close> compares the truth value of a comparison with
  the minimum capacity, as the source does.
\<close>

definition uo_hashtbl_remove ::
  "('k \<Rightarrow> 64 word) \<Rightarrow> 'k uo_hashtbl \<Rightarrow> 'k option \<Rightarrow> (64 word \<times> 'k uo_hashtbl) run" where
  "uo_hashtbl_remove hash t key =
     (case key of
        None \<Rightarrow> Some (Inr (0, t))
      | Some k \<Rightarrow>
          (case uo_hashtbl_find_link hash (ht_links t) (ht_capacity t) k of
             None \<Rightarrow> None
           | Some i \<Rightarrow>
               if kvp_key (ht_links t ! i) = None then Some (Inr (0, t))
               else
                 let val = kvp_value (ht_links t ! i);
                     t = t\<lparr> ht_links := (ht_links t)[i := removed_kvp] \<rparr>
                 in run_bind (Some (uo_linklist_unlink (ht_heap t) (Slot (ht_gen t) i))) (\<lambda>heap.
                    let t = t\<lparr> ht_heap := heap, ht_removed_count := ht_removed_count t + 1,
                               ht_count := ht_count t - 1 \<rparr>;
                        count = ht_count t
                    in run_bind
                         (if ht_capacity t div 4 \<le> ht_removed_count t
                          then run_bind (uo_hashtbl_resize hash t (ht_capacity t))
                                 (\<lambda>t. Some (Inr (t\<lparr> ht_removed_count := 0 \<rparr>)))
                          else Some (Inr t)) (\<lambda>t.
                       if UO_HASHTBL_MIN_CAPACITY \<le> of_bool (count = ht_capacity t div 8)
                       then run_bind (uo_hashtbl_resize hash t (ht_capacity t div 2))
                              (\<lambda>t. Some (Inr (val, t\<lparr> ht_removed_count := 0 \<rparr>)))
                       else Some (Inr (val, t))))))"

section \<open>Probing\<close>

text \<open>The slot probed after \<open>d\<close> steps.\<close>

definition pos :: "('k \<Rightarrow> 64 word) \<Rightarrow> nat \<Rightarrow> 'k \<Rightarrow> nat \<Rightarrow> nat" where
  "pos hash cap key d = (unat (hash key) + d) mod cap"

definition is_free :: "'k uo_kvp \<Rightarrow> bool" where
  "is_free s \<longleftrightarrow> kvp_key s = None \<and> kvp_value s \<noteq> UO_HASHTBL_TAG_REMOVED"

definition is_removed :: "'k uo_kvp \<Rightarrow> bool" where
  "is_removed s \<longleftrightarrow> kvp_value s = UO_HASHTBL_TAG_REMOVED"

definition probes_past :: "'k uo_kvp \<Rightarrow> 'k \<Rightarrow> bool" where
  "probes_past s key \<longleftrightarrow> kvp_key s \<noteq> None \<and> kvp_key s \<noteq> Some key \<or> is_removed s"

lemma mask_of_capacity: "k < 64 \<Longrightarrow> of_nat (2 ^ k) - 1 = (mask k :: 64 word)"
  by (simp add: mask_eq_exp_minus_1)

lemma probe_index:
  assumes "k < 64" and "cap = 2 ^ k"
  shows "unat (((hash key AND mask k) + of_nat d) AND mask k) = pos hash cap key d"
proof -
  have "unat (((hash key AND mask k) + of_nat d) AND mask k)
      = (unat (hash key AND mask k) + d) mod 2 ^ k"
    using assms(1) by (simp only: unat_and_mask unat_add_mod_pow2 less_imp_le)
  also have "\<dots> = pos hash cap key d"
    by (simp add: unat_and_mask assms(2) pos_def mod_simps)
  finally show ?thesis .
qed

lemma find_loop_probe:
  assumes k: "k < 64" "cap = 2 ^ k"
    and stop: "\<not> probes_past (links ! pos hash cap key d) key"
    and past: "\<And>j. j < d \<Longrightarrow> probes_past (links ! pos hash cap key j) key"
  shows "uo_hashtbl_find_link hash links cap key = Some (pos hash cap key d)"
proof -
  let ?h = "\<lambda>j. (hash key AND mask k) + of_nat j"
  have "find_loop links (mask k) key (?h (d - j)) = Some (pos hash cap key d)" if "j \<le> d" for j
    using that
  proof (induction j)
    case 0
    with stop show ?case
      by (subst find_loop.simps)
        (simp only: probe_index [OF k] Let_def probes_past_def is_removed_def if_False diff_zero)
  next
    case (Suc j)
    have "of_nat (d - Suc j) + 1 = (of_nat (d - j) :: 64 word)"
      using Suc.prems by (metis Suc_diff_Suc Suc_le_eq add.commute of_nat_Suc)
    then have step: "?h (d - Suc j) + 1 = ?h (d - j)" by (simp add: add.assoc)
    have "probes_past (links ! pos hash cap key (d - Suc j)) key" using Suc.prems by (intro past) simp
    with Suc show ?case
      by (subst find_loop.simps)
        (simp only: probe_index [OF k] Let_def probes_past_def is_removed_def if_True step Suc_leD)
  qed
  from this [of d] show ?thesis
    by (simp add: uo_hashtbl_find_link_def Let_def k mask_of_capacity [OF k(1), simplified])
qed

lemma pos_reaches:
  assumes "0 < cap" and "e < cap"
  shows "\<exists>d < cap. pos hash cap key d = e"
proof -
  let ?h = "unat (hash key) mod cap"
  have h: "?h < cap" using assms by simp
  show ?thesis
  proof (cases "?h \<le> e")
    case True
    have "pos hash cap key (e - ?h) = (?h + (e - ?h)) mod cap" by (simp add: pos_def mod_simps)
    with True assms(2) show ?thesis by (intro exI [of _ "e - ?h"]) simp
  next
    case False
    have "pos hash cap key (cap - ?h + e) = (?h + (cap - ?h + e)) mod cap"
      by (simp add: pos_def mod_simps)
    also have "?h + (cap - ?h + e) = cap + e" using h by linarith
    also have "(cap + e) mod cap = e" using assms(2) by simp
    finally show ?thesis using False h by (intro exI [of _ "cap - ?h + e"]) simp
  qed
qed

section \<open>Well-formed arrays\<close>

text \<open>
  \<open>slots_ok hash cap links is\<close>: the occupied slots are exactly \<open>is\<close>, in insertion order; no
  two hold the same key; from the first slot probed for a key to the slot that holds it no
  slot is free.
\<close>

definition reachable :: "('k \<Rightarrow> 64 word) \<Rightarrow> nat \<Rightarrow> 'k uo_kvp list \<Rightarrow> 'k \<Rightarrow> nat \<Rightarrow> bool" where
  "reachable hash cap links key i \<longleftrightarrow>
     (\<exists>d. i = pos hash cap key d \<and> (\<forall>j < d. \<not> is_free (links ! pos hash cap key j)))"

definition slots_ok :: "('k \<Rightarrow> 64 word) \<Rightarrow> nat \<Rightarrow> 'k uo_kvp list \<Rightarrow> nat list \<Rightarrow> bool" where
  "slots_ok hash cap links is \<longleftrightarrow>
     (\<exists>k < 64. cap = 2 ^ k) \<and> length links = cap \<and> distinct is
     \<and> (\<forall>i < cap. kvp_key (links ! i) \<noteq> None \<longleftrightarrow> i \<in> set is)
     \<and> (\<forall>i \<in> set is. i < cap \<and> \<not> is_removed (links ! i)
          \<and> reachable hash cap links (the (kvp_key (links ! i))) i)
     \<and> inj_on (\<lambda>i. the (kvp_key (links ! i))) (set is)
     \<and> (\<forall>i < cap. i \<notin> set is \<and> \<not> is_removed (links ! i) \<longrightarrow> links ! i = free_kvp)"

definition kvps :: "'k uo_kvp list \<Rightarrow> nat list \<Rightarrow> ('k \<times> 64 word) list" where
  "kvps links is = map (\<lambda>i. (the (kvp_key (links ! i)), kvp_value (links ! i))) is"

definition removed :: "'k uo_kvp list \<Rightarrow> nat" where
  "removed links = length (filter is_removed links)"

lemma slots_okD:
  assumes "slots_ok hash cap links is"
  obtains k where "k < 64" "cap = 2 ^ k"
  and "0 < cap" "length links = cap" "distinct is"
  using assms by (auto simp: slots_ok_def)

lemma slots_ok_parts:
  assumes "slots_ok hash cap links is"
  shows "length links = cap" "distinct is"
    and "\<And>i. i < cap \<Longrightarrow> kvp_key (links ! i) \<noteq> None \<longleftrightarrow> i \<in> set is"
    and "\<And>i. i \<in> set is \<Longrightarrow> i < cap \<and> \<not> is_removed (links ! i)
          \<and> reachable hash cap links (the (kvp_key (links ! i))) i"
    and "inj_on (\<lambda>i. the (kvp_key (links ! i))) (set is)"
    and "\<And>i. i < cap \<Longrightarrow> i \<notin> set is \<Longrightarrow> \<not> is_removed (links ! i) \<Longrightarrow> links ! i = free_kvp"
  using assms by (simp_all add: slots_ok_def)

lemma slots_okI:
  assumes "slots_ok hash cap links' is'" and "length links = cap" and "distinct is"
    and "\<And>i. i < cap \<Longrightarrow> kvp_key (links ! i) \<noteq> None \<longleftrightarrow> i \<in> set is"
    and "\<And>i. i \<in> set is \<Longrightarrow> i < cap \<and> \<not> is_removed (links ! i)
          \<and> reachable hash cap links (the (kvp_key (links ! i))) i"
    and "inj_on (\<lambda>i. the (kvp_key (links ! i))) (set is)"
    and "\<And>i. i < cap \<Longrightarrow> i \<notin> set is \<Longrightarrow> \<not> is_removed (links ! i) \<Longrightarrow> links ! i = free_kvp"
  shows "slots_ok hash cap links is"
  using assms by (simp add: slots_ok_def)

lemma key_at:
  assumes "slots_ok hash cap links is" and "i \<in> set is"
  shows "i < cap" "\<exists>key. kvp_key (links ! i) = Some key" "\<not> is_removed (links ! i)"
  using assms by (auto simp: slots_ok_def)

lemma keys_kvps: "map fst (kvps links is) = map (\<lambda>i. the (kvp_key (links ! i))) is"
  by (simp add: kvps_def comp_def)

lemma distinct_kvps: "slots_ok hash cap links is \<Longrightarrow> distinct (map fst (kvps links is))"
  by (simp add: keys_kvps distinct_map slots_ok_def)

lemma in_keys_iff:
  assumes "slots_ok hash cap links is"
  shows "key \<in> fst ` set (kvps links is) \<longleftrightarrow> (\<exists>i \<in> set is. kvp_key (links ! i) = Some key)"
  using key_at(2) [OF assms] by (force simp: kvps_def image_iff)

text \<open>With fewer occupied and removed slots than slots, some slot is free.\<close>

lemma ex_free:
  assumes ok: "slots_ok hash cap links is" and few: "length is + removed links < cap"
  shows "\<exists>e < cap. is_free (links ! e)"
proof (rule ccontr)
  assume "\<not> ?thesis"
  then have "{..<cap} \<subseteq> set is \<union> {i. i < length links \<and> is_removed (links ! i)}"
    using ok by (auto simp: slots_ok_def is_free_def is_removed_def)
  then have "cap \<le> card (set is \<union> {i. i < length links \<and> is_removed (links ! i)})"
    using card_mono [of "set is \<union> {i. i < length links \<and> is_removed (links ! i)}" "{..<cap}"] by simp
  also have "\<dots> \<le> card (set is) + card {i. i < length links \<and> is_removed (links ! i)}"
    by (rule card_Un_le)
  also have "\<dots> \<le> length is + removed links"
    by (simp add: removed_def length_filter_conv_card card_length)
  finally show False using few by simp
qed

text \<open>
  Searching ends. It finds the slot of the key, or the free slot where the key belongs when
  no slot holds it.
\<close>

lemma find_link_cases:
  assumes ok: "slots_ok hash cap links is" and few: "length is + removed links < cap"
  obtains (found) i where "uo_hashtbl_find_link hash links cap key = Some i" "i \<in> set is"
    "kvp_key (links ! i) = Some key"
  | (fresh) i where "uo_hashtbl_find_link hash links cap key = Some i" "i < cap" "i \<notin> set is"
    "links ! i = free_kvp" "key \<notin> fst ` set (kvps links is)" "reachable hash cap links key i"
proof -
  from ok obtain k where k: "k < 64" "cap = 2 ^ k" by (rule slots_okD)
  then have cap: "0 < cap" by simp
  let ?s = "\<lambda>d. links ! pos hash cap key d"
  have lt: "pos hash cap key d < cap" for d using cap by (simp add: pos_def)
  obtain e where "e < cap" "is_free (links ! e)" using ex_free [OF ok few] by blast
  then obtain d0 where "\<not> probes_past (?s d0) key"
    using pos_reaches [OF cap, of e hash key] by (auto simp: probes_past_def is_free_def is_removed_def)
  define d where "d = (LEAST d. \<not> probes_past (?s d) key)"
  have stop: "\<not> probes_past (?s d) key"
    unfolding d_def by (rule LeastI) fact
  have past: "probes_past (?s j) key" if "j < d" for j
    using not_less_Least [of j "\<lambda>d. \<not> probes_past (?s d) key"] that by (simp add: d_def)
  have find: "uo_hashtbl_find_link hash links cap key = Some (pos hash cap key d)"
    by (rule find_loop_probe [OF k stop past])
  show ?thesis
  proof (cases "kvp_key (?s d)")
    case (Some key')
    with stop have "kvp_key (?s d) = Some key" by (simp add: probes_past_def)
    moreover have "pos hash cap key d \<in> set is" using ok lt Some by (auto simp: slots_ok_def)
    ultimately show ?thesis using find found by blast
  next
    case None
    then have out: "pos hash cap key d \<notin> set is" using slots_ok_parts(3) [OF ok lt [of d]] by simp
    have free: "?s d = free_kvp"
      using ok lt out stop by (auto simp: slots_ok_def probes_past_def)
    have nf: "\<not> is_free (?s j)" if "j < d" for j
      using past [OF that] by (auto simp: probes_past_def is_free_def is_removed_def)
    have "kvp_key (links ! i) \<noteq> Some key" if "i \<in> set is" for i
    proof
      assume i: "kvp_key (links ! i) = Some key"
      from ok that i obtain d' where d': "i = pos hash cap key d'" "\<forall>j < d'. \<not> is_free (?s j)"
        unfolding slots_ok_def reachable_def by (metis option.sel)
      have "\<not> probes_past (?s d') key" using i d' key_at(3) [OF ok that] by (simp add: probes_past_def)
      then have "d \<le> d'" unfolding d_def by (rule Least_le)
      moreover have "is_free (?s d)" by (simp add: free is_free_def UO_HASHTBL_TAG_REMOVED_def)
      ultimately have "d = d'" using d'(2) by (metis le_neq_implies_less)
      with i d' None show False by simp
    qed
    then have "key \<notin> fst ` set (kvps links is)" by (simp add: in_keys_iff [OF ok])
    moreover have "reachable hash cap links key (pos hash cap key d)"
      using nf by (auto simp: reachable_def)
    ultimately show ?thesis using fresh find lt out free by blast
  qed
qed

lemma find_link_absent:
  assumes "slots_ok hash cap links is" and "length is + removed links < cap"
    and "key \<notin> fst ` set (kvps links is)"
  obtains i where "uo_hashtbl_find_link hash links cap key = Some i" "i < cap" "i \<notin> set is"
    "links ! i = free_kvp" "reachable hash cap links key i"
  using assms(1,2)
proof (cases rule: find_link_cases [where key = key])
  case (found i)
  with assms(3) show ?thesis by (auto simp: in_keys_iff [OF assms(1)])
qed (rule that)

section \<open>Updating the array\<close>

lemma reachable_update:
  assumes "reachable hash cap links key i" and "j < length links"
    and "\<not> is_free s \<or> is_free (links ! j)"
  shows "reachable hash cap (links[j := s]) key i"
proof -
  obtain d where d: "i = pos hash cap key d" "\<forall>j < d. \<not> is_free (links ! pos hash cap key j)"
    using assms(1) by (auto simp: reachable_def)
  have "\<not> is_free (links[j := s] ! pos hash cap key l)" if "l < d" for l
    using d(2) that assms(2,3) by (cases "pos hash cap key l = j") auto
  with d(1) show ?thesis by (auto simp: reachable_def)
qed

lemma kvps_update_other: "i \<notin> set is \<Longrightarrow> kvps (links[i := s]) is = kvps links is"
  unfolding kvps_def by (rule map_cong) (auto simp: nth_update_if)

lemma update_present:
  "distinct (map fst xs) \<Longrightarrow> k \<in> fst ` set xs
   \<Longrightarrow> AList.update k v xs = map (\<lambda>p. if fst p = k then (k, v) else p) xs"
proof (induction xs)
  case (Cons p xs)
  show ?case
  proof (cases "fst p = k")
    case True
    with Cons.prems(1) have "\<forall>q \<in> set xs. fst q \<noteq> k" by (auto intro: rev_image_eqI)
    then have "map (\<lambda>p. if fst p = k then (k, v) else p) xs = xs" by (simp add: map_idI)
    with True show ?thesis by (cases p) simp
  next
    case False
    with Cons show ?thesis by (cases p) auto
  qed
qed simp

lemma update_absent: "k \<notin> fst ` set xs \<Longrightarrow> AList.update k v xs = xs @ [(k, v)]"
  by (induction xs) auto

lemma slots_ok_insert:
  assumes ok: "slots_ok hash cap links is" and i: "i < cap" "i \<notin> set is" "links ! i = free_kvp"
    and new: "key \<notin> fst ` set (kvps links is)" "reachable hash cap links key i"
    and v: "v \<noteq> UO_HASHTBL_TAG_REMOVED"
  defines "s \<equiv> \<lparr> kvp_key = Some key, kvp_value = v \<rparr>"
  shows "slots_ok hash cap (links[i := s]) (is @ [i])"
    and "kvps (links[i := s]) (is @ [i]) = kvps links is @ [(key, v)]"
    and "removed (links[i := s]) = removed links"
proof -
  have len: "length links = cap" using ok by (simp add: slots_ok_def)
  have nf: "\<not> is_free s" "\<not> is_removed s" using v by (simp_all add: s_def is_free_def is_removed_def)
  have r: "reachable hash cap (links[i := s]) key' j" if "reachable hash cap links key' j" for key' j
    using that i nf len by (intro reachable_update) simp_all
  have keys: "the (kvp_key (links ! j)) \<noteq> key" if "j \<in> set is" for j
    using new(1) that key_at(2) [OF ok that] by (auto simp: in_keys_iff [OF ok])
  have upd: "links[i := s] ! j = (if j = i then s else links ! j)" if "j < cap" for j
    using i(1) len that by simp
  have j: "j < cap" if "j \<in> set is" for j using key_at(1) [OF ok that] .
  note parts = slots_ok_parts [OF ok]
  show "slots_ok hash cap (links[i := s]) (is @ [i])"
  proof (rule slots_okI [OF ok])
    show "length (links[i := s]) = cap" "distinct (is @ [i])" using len parts(2) i(2) by simp_all
    show "kvp_key (links[i := s] ! l) \<noteq> None \<longleftrightarrow> l \<in> set (is @ [i])" if "l < cap" for l
      using upd [OF that] parts(3) [OF that] by (simp add: s_def)
    show "l < cap \<and> \<not> is_removed (links[i := s] ! l)
        \<and> reachable hash cap (links[i := s]) (the (kvp_key (links[i := s] ! l))) l"
      if "l \<in> set (is @ [i])" for l
    proof (cases "l = i")
      case True
      with i(1) nf r [OF new(2)] len show ?thesis by (simp add: s_def)
    next
      case False
      with that have "l \<in> set is" by simp
      with False parts(4) [of l] r show ?thesis by simp
    qed
    have "inj_on (\<lambda>j. the (kvp_key (links[i := s] ! j))) (set is)"
      using parts(5) i(2) by (auto simp: inj_on_def nth_update_if)
    moreover have "the (kvp_key (links[i := s] ! i)) = key" using i(1) len by (simp add: s_def)
    moreover have "key \<notin> (\<lambda>j. the (kvp_key (links[i := s] ! j))) ` set is"
    proof
      assume "key \<in> (\<lambda>j. the (kvp_key (links[i := s] ! j))) ` set is"
      then obtain l where "l \<in> set is" "the (kvp_key (links[i := s] ! l)) = key" by blast
      moreover from this i(2) have "links[i := s] ! l = links ! l" by (auto simp: nth_update_if)
      ultimately show False using keys [of l] by simp
    qed
    ultimately show "inj_on (\<lambda>j. the (kvp_key (links[i := s] ! j))) (set (is @ [i]))"
      using i(2) by (simp add: inj_on_insert)
    show "links[i := s] ! l = free_kvp"
      if "l < cap" "l \<notin> set (is @ [i])" "\<not> is_removed (links[i := s] ! l)" for l
      using that parts(6) [of l] by simp
  qed
  show "kvps (links[i := s]) (is @ [i]) = kvps links is @ [(key, v)]"
    using kvps_update_other [OF i(2), of links s] i(1) len by (simp add: kvps_def s_def)
  show "removed (links[i := s]) = removed links"
    using length_filter_update [of i links is_removed s] i len nf
    by (simp add: removed_def is_removed_def UO_HASHTBL_TAG_REMOVED_def)
qed

lemma slots_ok_overwrite:
  assumes ok: "slots_ok hash cap links is" and i: "i \<in> set is" "kvp_key (links ! i) = Some key"
    and v: "v \<noteq> UO_HASHTBL_TAG_REMOVED"
  defines "s \<equiv> (links ! i)\<lparr> kvp_value := v \<rparr>"
  shows "slots_ok hash cap (links[i := s]) is"
    and "kvps (links[i := s]) is = AList.update key v (kvps links is)"
    and "removed (links[i := s]) = removed links"
proof -
  have len: "length links = cap" "i < cap" using ok i(1) by (auto simp: slots_ok_def)
  have key: "kvp_key (links[i := s] ! j) = kvp_key (links ! j)" if "j < cap" for j
    using len that by (cases "j = i") (simp_all add: s_def)
  have nf: "\<not> is_free s" "\<not> is_removed s" using v i(2) by (simp_all add: s_def is_free_def is_removed_def)
  have r: "reachable hash cap (links[i := s]) key' j" if "reachable hash cap links key' j" for key' j
    using that nf len by (intro reachable_update) simp_all
  have j: "j < cap" if "j \<in> set is" for j using key_at(1) [OF ok that] .
  note parts = slots_ok_parts [OF ok]
  show "slots_ok hash cap (links[i := s]) is"
  proof (rule slots_okI [OF ok])
    show "length (links[i := s]) = cap" "distinct is" using len parts(2) by simp_all
    show "kvp_key (links[i := s] ! l) \<noteq> None \<longleftrightarrow> l \<in> set is" if "l < cap" for l
      using parts(3) [OF that] by (simp add: key [OF that])
    show "l < cap \<and> \<not> is_removed (links[i := s] ! l)
        \<and> reachable hash cap (links[i := s]) (the (kvp_key (links[i := s] ! l))) l"
      if "l \<in> set is" for l
      using parts(4) [OF that] key [OF j [OF that]] r nf len by (cases "l = i") simp_all
    show "inj_on (\<lambda>j. the (kvp_key (links[i := s] ! j))) (set is)"
      using parts(5) j by (auto simp: inj_on_def key)
    show "links[i := s] ! l = free_kvp"
      if "l < cap" "l \<notin> set is" "\<not> is_removed (links[i := s] ! l)" for l
      using that parts(6) [of l] i(1) by (cases "l = i") simp_all
  qed
  show "removed (links[i := s]) = removed links"
    using length_filter_update [of i links is_removed s] key_at(3) [OF ok i(1)] len nf
    by (simp add: removed_def)
  have "key \<in> fst ` set (kvps links is)" using i by (auto simp: in_keys_iff [OF ok])
  then have "AList.update key v (kvps links is) = map (\<lambda>p. if fst p = key then (key, v) else p) (kvps links is)"
    by (rule update_present [OF distinct_kvps [OF ok]])
  also have "\<dots> = kvps (links[i := s]) is"
    unfolding kvps_def map_map
  proof (rule map_cong)
    fix l
    assume l: "l \<in> set is"
    have "the (kvp_key (links ! l)) = key \<longleftrightarrow> l = i"
      using inj_onD [OF parts(5) _ l i(1)] i(2) by auto
    then show "((\<lambda>p. if fst p = key then (key, v) else p)
        \<circ> (\<lambda>i. (the (kvp_key (links ! i)), kvp_value (links ! i)))) l
      = (the (kvp_key (links[i := s] ! l)), kvp_value (links[i := s] ! l))"
      using len i(2) by (cases "l = i") (simp_all add: s_def)
  qed simp
  finally show "kvps (links[i := s]) is = AList.update key v (kvps links is)" by (rule sym)
qed

lemma slots_ok_remove:
  fixes links :: "'k uo_kvp list"
  assumes ok: "slots_ok hash cap links (is @ i # js)" and key: "kvp_key (links ! i) = Some key"
  shows "slots_ok hash cap (links[i := removed_kvp]) (is @ js)"
    and "kvps (links[i := removed_kvp]) (is @ js) = AList.delete key (kvps links (is @ i # js))"
    and "removed (links[i := removed_kvp]) = removed links + 1"
proof -
  note parts = slots_ok_parts [OF ok]
  have i: "i < cap" "i \<in> set (is @ i # js)" using parts(4) [of i] by simp_all
  have len: "length links = cap" using parts(1) .
  have out: "i \<notin> set (is @ js)" using parts(2) by simp
  have nf: "\<not> is_free (removed_kvp :: 'k uo_kvp)" "is_removed (removed_kvp :: 'k uo_kvp)"
    by (simp_all add: is_free_def is_removed_def)
  have r: "reachable hash cap (links[i := removed_kvp]) key' j" if "reachable hash cap links key' j" for key' j
    using that i nf len by (intro reachable_update) simp_all
  show "slots_ok hash cap (links[i := removed_kvp]) (is @ js)"
  proof (rule slots_okI [OF ok])
    show "length (links[i := removed_kvp]) = cap" "distinct (is @ js)" using len parts(2) by simp_all
    show "kvp_key (links[i := removed_kvp] ! l) \<noteq> None \<longleftrightarrow> l \<in> set (is @ js)" if "l < cap" for l
      using parts(3) [OF that] out i(1) len by (cases "l = i") simp_all
    show "l < cap \<and> \<not> is_removed (links[i := removed_kvp] ! l)
        \<and> reachable hash cap (links[i := removed_kvp]) (the (kvp_key (links[i := removed_kvp] ! l))) l"
      if "l \<in> set (is @ js)" for l
    proof -
      have "l \<noteq> i" using out that by blast
      moreover have "l \<in> set (is @ i # js)" using that by auto
      ultimately show ?thesis using parts(4) [of l] r by simp
    qed
    show "inj_on (\<lambda>j. the (kvp_key (links[i := removed_kvp] ! j))) (set (is @ js))"
      using parts(5) out by (auto simp: inj_on_def nth_update_if)
    show "links[i := removed_kvp] ! l = free_kvp"
      if "l < cap" "l \<notin> set (is @ js)" "\<not> is_removed (links[i := removed_kvp] ! l)" for l
      using that parts(6) [of l] nf len by (cases "l = i") simp_all
  qed
  have "the (kvp_key (links ! l)) \<noteq> key" if "l \<in> set (is @ js)" for l
    using inj_onD [OF parts(5), of l i] that out key by auto
  then have "filter (\<lambda>(k', _). key \<noteq> k') (kvps links xs) = kvps links xs"
    if "set xs \<subseteq> set (is @ js)" for xs
    using that by (intro filter_True) (auto simp: kvps_def)
  from this [of "is"] this [of js]
  have "AList.delete key (kvps links (is @ i # js)) = kvps links (is @ js)"
    using key by (simp add: AList.delete_eq kvps_def)
  then show "kvps (links[i := removed_kvp]) (is @ js) = AList.delete key (kvps links (is @ i # js))"
    using kvps_update_other [OF out] by simp
  show "removed (links[i := removed_kvp]) = removed links + 1"
    using length_filter_update [of i links is_removed removed_kvp] parts(4) [of i] i len nf
    by (simp add: removed_def)
qed

section \<open>Tables and association lists\<close>

text \<open>
  \<open>linked_slots t is\<close>: the list of the table threads the slots \<open>is\<close> in that order, and no
  other slot is linked. \<open>table_rel hash t kvs\<close>: the table holds exactly the pairs \<open>kvs\<close>,
  and its list visits them in this order.
\<close>

definition linked_slots :: "node links \<Rightarrow> nat \<Rightarrow> nat list \<Rightarrow> bool" where
  "linked_slots h g is \<longleftrightarrow> clist h Head (map (Slot g) is)
     \<and> (\<forall>i. i \<notin> set is \<longrightarrow> \<not> uo_linklist_is_linked h (Slot g i))"

definition table_at :: "('k \<Rightarrow> 64 word) \<Rightarrow> 'k uo_hashtbl \<Rightarrow> nat list \<Rightarrow> bool" where
  "table_at hash t is \<longleftrightarrow>
     slots_ok hash (ht_capacity t) (ht_links t) is \<and> linked_slots (ht_heap t) (ht_gen t) is
     \<and> ht_count t = length is \<and> ht_removed_count t = removed (ht_links t)"

definition table_rel :: "('k \<Rightarrow> 64 word) \<Rightarrow> 'k uo_hashtbl \<Rightarrow> ('k \<times> 64 word) list \<Rightarrow> bool" where
  "table_rel hash t kvs \<longleftrightarrow>
     (\<exists>is. table_at hash t is \<and> kvps (ht_links t) is = kvs)
     \<and> UO_HASHTBL_MIN_CAPACITY \<le> ht_capacity t
     \<and> length kvs < ht_capacity t div 2 \<and> ht_removed_count t < ht_capacity t div 4"

lemma length_kvps [simp]: "length (kvps links is) = length is"
  by (simp add: kvps_def)

lemma table_relI:
  assumes "table_at hash t is" and "kvps (ht_links t) is = kvs" and "16 \<le> ht_capacity t"
    and "length is < ht_capacity t div 2" and "ht_removed_count t < ht_capacity t div 4"
  shows "table_rel hash t kvs"
  using assms by (auto simp: table_rel_def UO_HASHTBL_MIN_CAPACITY_def)

lemma linked_slots_link:
  assumes "linked_slots h g is" and "i \<notin> set is"
  shows "\<exists>h'. uo_linklist_link h Head (Slot g i) = Inr h' \<and> linked_slots h' g (is @ [i])
           \<and> (\<forall>g' j. g' \<noteq> g \<longrightarrow> nxt h' (Slot g' j) = nxt h (Slot g' j))"
proof -
  have "Slot g i \<notin> set (Head # map (Slot g) is)" using assms(2) by auto
  moreover have "\<not> uo_linklist_is_linked h (Slot g i)" using assms by (simp add: linked_slots_def)
  ultimately obtain h' where h': "uo_linklist_link h Head (Slot g i) = Inr h'"
    "clist h' Head (map (Slot g) is @ [Slot g i])"
    "\<forall>x. x \<notin> set (Head # map (Slot g) is) \<and> x \<noteq> Slot g i \<longrightarrow> nxt h' x = nxt h x"
    using clist_link_end [of h Head "map (Slot g) is" "Slot g i"] assms(1)
    by (auto simp: linked_slots_def)
  have "\<not> uo_linklist_is_linked h' (Slot g j)" if "j \<notin> set (is @ [i])" for j
  proof -
    have "nxt h' (Slot g j) = nxt h (Slot g j)" using h'(3) that by auto
    with assms(1) that show ?thesis by (auto simp: linked_slots_def uo_linklist_is_linked_def)
  qed
  moreover have "\<forall>g' j. g' \<noteq> g \<longrightarrow> nxt h' (Slot g' j) = nxt h (Slot g' j)" using h'(3) by auto
  ultimately show ?thesis using h' by (auto simp: linked_slots_def)
qed

lemma linked_slots_unlink:
  assumes "linked_slots h g (is @ i # js)"
  shows "\<exists>h'. uo_linklist_unlink h (Slot g i) = Inr h' \<and> linked_slots h' g (is @ js)"
proof -
  obtain h' where h': "uo_linklist_unlink h (Slot g i) = Inr h'"
    "clist h' Head (map (Slot g) is @ map (Slot g) js)" "\<not> uo_linklist_is_linked h' (Slot g i)"
    "\<forall>x. x \<notin> set (Head # map (Slot g) is @ Slot g i # map (Slot g) js) \<longrightarrow> nxt h' x = nxt h x"
    using clist_unlink [of h Head "map (Slot g) is" "Slot g i" "map (Slot g) js"] assms
    by (auto simp: linked_slots_def)
  have "\<not> uo_linklist_is_linked h' (Slot g j)" if "j \<notin> set (is @ js)" for j
  proof (cases "j = i")
    case False
    then have "nxt h' (Slot g j) = nxt h (Slot g j)" using h'(4) that by auto
    with assms that False show ?thesis by (auto simp: linked_slots_def uo_linklist_is_linked_def)
  qed (use h'(3) in simp)
  with h' show ?thesis by (auto simp: linked_slots_def)
qed

subsection \<open>Creation\<close>

lemma slots_ok_empty:
  "k < 64 \<Longrightarrow> cap = 2 ^ k \<Longrightarrow> slots_ok hash cap (replicate cap free_kvp) []"
  by (auto simp: slots_ok_def)

lemma removed_empty [simp]: "removed (replicate n free_kvp) = 0"
  by (simp add: removed_def is_removed_def UO_HASHTBL_TAG_REMOVED_def)

lemma table_rel_create:
  assumes "initial_capacity \<le> 2 ^ 63"
  shows "table_rel hash (uo_hashtbl_create_at initial_capacity) []"
proof -
  define cap where "cap = ht_capacity (uo_hashtbl_create_at initial_capacity :: 'a uo_hashtbl)"
  have "\<exists>k < 64. cap = 2 ^ k \<and> 4 \<le> k"
  proof (cases "16 \<le> initial_capacity")
    case True
    then have "0 < initial_capacity" by simp
    then obtain k where k: "k \<le> 63" "unat (uo_ceil_pow2 (of_nat initial_capacity)) = 2 ^ k"
      "initial_capacity \<le> 2 ^ k" using assms by (rule uo_ceil_pow2_least)
    have "(2::nat) ^ 4 \<le> 2 ^ k" using k(3) True by simp
    then have "4 \<le> k" by (rule power_le_imp_le_exp [rotated]) simp
    with k True show ?thesis
      by (intro exI [of _ k]) (simp add: cap_def uo_hashtbl_create_at_def Let_def UO_HASHTBL_MIN_CAPACITY_def)
  next
    case False
    then show ?thesis
      by (intro exI [of _ 4]) (simp add: cap_def uo_hashtbl_create_at_def Let_def UO_HASHTBL_MIN_CAPACITY_def)
  qed
  then obtain k where k: "k < 64" "cap = 2 ^ k" "4 \<le> k" by blast
  have "(2::nat) ^ 4 \<le> 2 ^ k" using k(3) by (intro power_increasing) simp_all
  then have c16: "16 \<le> cap" by (simp add: k(2))
  have "linked_slots (uo_linklist_selflink (calloc_links 0 \<lparr> nxt = \<lambda>_. None, prv = \<lambda>_. None \<rparr>) Head) 0 []"
    using clist_selflink
    by (auto simp: linked_slots_def uo_linklist_is_linked_def uo_linklist_selflink_def calloc_links_def)
  then have "table_at hash (uo_hashtbl_create_at initial_capacity) []"
    using slots_ok_empty [OF k(1,2), of hash]
    by (simp add: table_at_def uo_hashtbl_create_at_def Let_def cap_def)
  moreover have "removed (ht_links (uo_hashtbl_create_at initial_capacity :: 'a uo_hashtbl)) = 0"
    by (simp add: uo_hashtbl_create_at_def Let_def)
  moreover have "ht_removed_count (uo_hashtbl_create_at initial_capacity :: 'a uo_hashtbl) = 0"
    by (simp add: uo_hashtbl_create_at_def Let_def)
  ultimately show ?thesis
    using c16 by (auto simp: table_rel_def kvps_def cap_def [symmetric] UO_HASHTBL_MIN_CAPACITY_def
        intro!: exI [of _ "[]"])
qed

subsection \<open>Resizing\<close>

text \<open>
  The loop, when it still has to move the pairs of the slots \<open>is\<close> of the old array and the
  slots \<open>js\<close> of the new one hold those already moved.
\<close>

lemma resize_loop_moves:
  assumes old: "slots_ok hash oldcap (ht_links t) all" "set is \<subseteq> set all" "distinct is"
    and g: "g = ht_gen t"
    and p: "is \<noteq> [] \<Longrightarrow> p = Some (Slot g (hd is))"
    and nx: "\<And>a b i. is = a @ i # b \<Longrightarrow> b \<noteq> [] \<Longrightarrow> nxt h (Slot g i) = Some (Slot g (hd b))"
    and new: "slots_ok hash cap new js" "removed new = 0" "length js + length is < cap"
    and fresh: "\<And>i. i \<in> set is \<Longrightarrow> the (kvp_key (ht_links t ! i)) \<notin> fst ` set (kvps new js)"
    and lk: "linked_slots h (g + 1) js"
  shows "\<exists>new' h' js'. resize_loop hash t cap (length is) p new h = Some (Inr (new', h'))
      \<and> slots_ok hash cap new' js' \<and> removed new' = 0 \<and> linked_slots h' (g + 1) js'
      \<and> kvps new' js' = kvps new js @ kvps (ht_links t) is"
  using assms(2-)
proof (induction "is" arbitrary: p new js h)
  case Nil
  then show ?case by (auto simp: kvps_def)
next
  case (Cons i "is")
  have i: "i \<in> set all" using Cons.prems(1) by simp
  obtain key where key: "kvp_key (ht_links t ! i) = Some key" using key_at(2) [OF old(1) i] by blast
  have item: "ht_links t ! i = \<lparr> kvp_key = Some key, kvp_value = kvp_value (ht_links t ! i) \<rparr>"
    using key by simp
  have v: "kvp_value (ht_links t ! i) \<noteq> UO_HASHTBL_TAG_REMOVED"
    using key_at(3) [OF old(1) i] by (simp add: is_removed_def)
  have absent: "key \<notin> fst ` set (kvps new js)" using Cons.prems(9) [of i] key by simp
  have few: "length js + removed new < cap" using Cons.prems(7,8) by simp
  from Cons.prems(6) few obtain j where j: "uo_hashtbl_find_link hash new cap key = Some j"
    "j < cap" "j \<notin> set js" "new ! j = free_kvp" "reachable hash cap new key j"
    using absent by (rule find_link_absent)
  obtain h' where h': "uo_linklist_link h Head (Slot (g + 1) j) = Inr h'" "linked_slots h' (g + 1) (js @ [j])"
    "\<forall>g' l. g' \<noteq> g + 1 \<longrightarrow> nxt h' (Slot g' l) = nxt h (Slot g' l)"
    using linked_slots_link [OF Cons.prems(10) j(3)] by blast
  define new' where "new' = new[j := ht_links t ! i]"
  have step: "resize_step hash t i cap new h = Some (Inr (new', h'))"
    using key j(1) h'(1) Cons.prems(3) by (simp add: resize_step_def Let_def new'_def)
  note ins = slots_ok_insert [OF Cons.prems(6) j(2,3,4) absent j(5) v, folded item, folded new'_def]
  have old_nxt: "nxt h' (Slot g l) = nxt h (Slot g l)" for l using h'(3) by simp
  have keys: "the (kvp_key (ht_links t ! l)) \<noteq> key" if "l \<in> set is" for l
    using inj_onD [OF slots_ok_parts(5) [OF old(1)], of l i] that Cons.prems(1,2) key i by auto
  have "\<exists>new'' h'' js'. resize_loop hash t cap (length is) (nxt h' (Slot g i)) new' h' = Some (Inr (new'', h''))
      \<and> slots_ok hash cap new'' js' \<and> removed new'' = 0 \<and> linked_slots h'' (g + 1) js'
      \<and> kvps new'' js' = kvps new' (js @ [j]) @ kvps (ht_links t) is"
  proof (rule Cons.IH)
    show "set is \<subseteq> set all" "distinct is" "g = ht_gen t" using Cons.prems(1,2,3) by simp_all
    show "nxt h' (Slot g i) = Some (Slot g (hd is))" if "is \<noteq> []"
      using Cons.prems(5) [of "[]" i "is"] that by (simp add: old_nxt)
    show "nxt h' (Slot g l) = Some (Slot g (hd b))" if "is = a @ l # b" "b \<noteq> []" for a b l
      using Cons.prems(5) [of "i # a" l b] that by (simp add: old_nxt)
    show "slots_ok hash cap new' (js @ [j])" by (rule ins(1))
    show "removed new' = 0" using ins(3) Cons.prems(7) by simp
    show "length (js @ [j]) + length is < cap" using Cons.prems(8) by simp
    show "the (kvp_key (ht_links t ! l)) \<notin> fst ` set (kvps new' (js @ [j]))" if "l \<in> set is" for l
      using Cons.prems(9) [of l] that keys [OF that] by (simp add: ins(2))
    show "linked_slots h' (g + 1) (js @ [j])" by (rule h'(2))
  qed
  moreover have "kvps (ht_links t) (i # is) = (key, kvp_value (ht_links t ! i)) # kvps (ht_links t) is"
    using key by (simp add: kvps_def)
  moreover have "resize_loop hash t cap (length (i # is)) p new h
      = resize_loop hash t cap (length is) (nxt h' (Slot g i)) new' h'"
    using Cons.prems(4) step by simp
  ultimately show ?case by (simp add: ins(2))
qed

lemma calloc_links_simps [simp]:
  "nxt (calloc_links g h) Head = nxt h Head" "prv (calloc_links g h) Head = prv h Head"
  "nxt (calloc_links g h) (Slot g' i) = (if g' = g then None else nxt h (Slot g' i))"
  "prv (calloc_links g h) (Slot g' i) = (if g' = g then None else prv h (Slot g' i))"
  by (simp_all add: calloc_links_def)

lemma linked_next:
  assumes "clist h Head (map (Slot g) is)"
  shows "nxt h Head = Some (hd (map (Slot g) is @ [Head]))"
    and "is = a @ i # b \<Longrightarrow> b \<noteq> [] \<Longrightarrow> nxt h (Slot g i) = Some (Slot g (hd b))"
proof -
  show "nxt h Head = Some (hd (map (Slot g) is @ [Head]))"
    using assms chain_next_start by (auto simp: clist_def)
  assume "is = a @ i # b" "b \<noteq> []"
  then show "nxt h (Slot g i) = Some (Slot g (hd b))"
    using assms by (cases b) (auto simp: clist_def chain_append)
qed

lemma resize_rel:
  assumes t: "slots_ok hash cap (ht_links t) is" "linked_slots (ht_heap t) (ht_gen t) is"
      "ht_count t = length is"
    and new: "k < 64" "newcap = 2 ^ k" "length is < newcap"
  shows "\<exists>t' js. uo_hashtbl_resize hash t newcap = Some (Inr t') \<and> slots_ok hash newcap (ht_links t') js
      \<and> linked_slots (ht_heap t') (ht_gen t') js \<and> removed (ht_links t') = 0 \<and> ht_count t' = ht_count t
      \<and> ht_capacity t' = newcap \<and> kvps (ht_links t') js = kvps (ht_links t) is"
proof -
  define g where "g = ht_gen t"
  define h0 where "h0 = calloc_links (g + 1) (ht_heap t)"
  have cl: "clist h0 Head (map (Slot g) is)"
  proof -
    have c: "clist (ht_heap t) Head (map (Slot g) is)" using t(2) by (simp add: linked_slots_def g_def)
    then have "chain (ht_heap t) Head (map (Slot g) is) Head" by (simp add: clist_def)
    then have "chain h0 Head (map (Slot g) is) Head"
      by (rule chain_cong) (auto simp: h0_def)
    with c show ?thesis by (simp add: clist_def)
  qed
  obtain h1 where h1: "uo_linklist_unlink h0 Head = Inr h1"
    "\<forall>x. x \<noteq> Head \<and> x \<noteq> last (Head # map (Slot g) is) \<longrightarrow> nxt h1 x = nxt h0 x"
    using unlink_head [OF cl] by blast
  define h2 where "h2 = uo_linklist_selflink h1 Head"
  have nxt2: "nxt h2 x = nxt h0 x" if "x \<noteq> Head" "x \<noteq> last (Head # map (Slot g) is)" for x
    using h1(2) that by (simp add: h2_def uo_linklist_selflink_def)
  have lastg: "last (Head # map (Slot g) is) \<noteq> Slot (g + 1) i" for i
    using last_in_set [of "Head # map (Slot g) is"] by auto
  have nx: "nxt h2 (Slot g i) = Some (Slot g (hd b))" if "is = a @ i # b" "b \<noteq> []" for a b i
  proof -
    have "Slot g i \<noteq> last (Head # map (Slot g) is)"
      using that slots_ok_parts(2) [OF t(1)] by (cases b rule: rev_cases) auto
    then show ?thesis using linked_next(2) [OF cl that] by (simp add: nxt2)
  qed
  have "nxt h2 (Slot (g + 1) i) = None" for i
    using lastg [of i] by (subst nxt2) (simp_all add: h0_def)
  then have lk: "linked_slots h2 (g + 1) []"
    using clist_selflink [of h1 Head]
    by (simp add: linked_slots_def h2_def [symmetric] uo_linklist_is_linked_def)
  have "\<exists>new' h' js'. resize_loop hash t newcap (length is) (nxt h0 Head) (replicate newcap free_kvp) h2
        = Some (Inr (new', h'))
      \<and> slots_ok hash newcap new' js' \<and> removed new' = 0 \<and> linked_slots h' (g + 1) js'
      \<and> kvps new' js' = kvps (replicate newcap free_kvp) [] @ kvps (ht_links t) is"
  proof (rule resize_loop_moves [OF t(1)])
    show "nxt h0 Head = Some (Slot g (hd is))" if "is \<noteq> []"
      using linked_next(1) [OF cl] that by (cases "is") simp_all
  qed (use nx lk new slots_ok_empty [OF new(1,2)] slots_ok_parts(2) [OF t(1)]
      in \<open>simp_all add: g_def kvps_def\<close>)
  then obtain new' h' js' where loop:
    "resize_loop hash t newcap (length is) (nxt h0 Head) (replicate newcap free_kvp) h2 = Some (Inr (new', h'))"
    "slots_ok hash newcap new' js'" "removed new' = 0" "linked_slots h' (g + 1) js'"
    "kvps new' js' = kvps (ht_links t) is"
    by (auto simp: kvps_def)
  have "uo_hashtbl_resize hash t newcap
      = Some (Inr (t\<lparr>ht_capacity := newcap, ht_heap := h', ht_gen := g + 1, ht_links := new'\<rparr>))"
    unfolding uo_hashtbl_resize_def Let_def g_def [symmetric] h0_def [symmetric] h1(1) run_bind_simps
      h2_def [symmetric] t(3) loop(1) by simp
  with loop(2-) show ?thesis by (intro exI) auto
qed

subsection \<open>The operations\<close>

lemma table_relE:
  assumes "table_rel hash t kvs"
  obtains "is" where "slots_ok hash (ht_capacity t) (ht_links t) is"
    "linked_slots (ht_heap t) (ht_gen t) is" "ht_count t = length is"
    "ht_removed_count t = removed (ht_links t)" "kvps (ht_links t) is = kvs" "length kvs = length is"
    "length is < ht_capacity t div 2" "removed (ht_links t) < ht_capacity t div 4"
    "length is + removed (ht_links t) < ht_capacity t" "16 \<le> ht_capacity t"
proof -
  obtain "is" where "is": "table_at hash t is" "kvps (ht_links t) is = kvs"
    using assms by (auto simp: table_rel_def)
  then have "length kvs = length is" by (auto simp: kvps_def)
  with assms "is" show ?thesis
    by (intro that [of "is"]) (auto simp: table_rel_def table_at_def UO_HASHTBL_MIN_CAPACITY_def)
qed

lemma map_of_kvps:
  assumes "slots_ok hash cap links is" and "i \<in> set is" and "kvp_key (links ! i) = Some key"
  shows "map_of (kvps links is) key = Some (kvp_value (links ! i))"
  using assms distinct_kvps [OF assms(1)] by (force intro: map_of_is_SomeI simp: kvps_def)

lemma table_rel_get:
  assumes "table_rel hash t kvs"
  shows "uo_hashtbl_get hash t (Some key) = Some (case map_of kvs key of None \<Rightarrow> 0 | Some v \<Rightarrow> v)"
proof -
  from assms obtain "is" where "is": "slots_ok hash (ht_capacity t) (ht_links t) is"
    "kvps (ht_links t) is = kvs" "length is + removed (ht_links t) < ht_capacity t"
    by (rule table_relE)
  from "is"(1,3) show ?thesis
  proof (cases rule: find_link_cases [where key = key])
    case (found i)
    with map_of_kvps [OF "is"(1), of i key] show ?thesis by (simp add: uo_hashtbl_get_def "is"(2))
  next
    case (fresh i)
    then have "map_of kvs key = None" by (simp add: map_of_eq_None_iff "is"(2))
    with fresh show ?thesis by (simp add: uo_hashtbl_get_def)
  qed
qed

text \<open>Resizing a table, packaged as a step from one well-formed table to another.\<close>

lemma table_rel_resize:
  assumes t: "slots_ok hash cap (ht_links t) is" "linked_slots (ht_heap t) (ht_gen t) is"
      "ht_count t = length is"
    and new: "k < 64" "newcap = 2 ^ k" "16 \<le> newcap" "length is < newcap div 2"
  shows "\<exists>t'. run_bind (uo_hashtbl_resize hash t newcap) (\<lambda>t. Some (Inr (t\<lparr>ht_removed_count := 0\<rparr>)))
           = Some (Inr t') \<and> table_rel hash t' (kvps (ht_links t) is) \<and> ht_capacity t' = newcap"
proof -
  have "length is < newcap" using new(4) by simp
  then obtain t' js where t': "uo_hashtbl_resize hash t newcap = Some (Inr t')"
    "slots_ok hash newcap (ht_links t') js" "linked_slots (ht_heap t') (ht_gen t') js"
    "removed (ht_links t') = 0" "ht_count t' = ht_count t" "ht_capacity t' = newcap"
    "kvps (ht_links t') js = kvps (ht_links t) is"
    using resize_rel [OF t new(1,2)] by blast
  have "length js = length is" using arg_cong [OF t'(7), of length] by (simp add: kvps_def)
  with t' t(3) have "table_at hash (t'\<lparr>ht_removed_count := 0\<rparr>) js" by (simp add: table_at_def)
  then have "table_rel hash (t'\<lparr>ht_removed_count := 0\<rparr>) (kvps (ht_links t) is)"
    using t'(6,7) new(3,4) by (auto simp: table_rel_def UO_HASHTBL_MIN_CAPACITY_def kvps_def)
  with t' show ?thesis by simp
qed

lemma table_rel_set:
  assumes rel: "table_rel hash t kvs" and v: "v \<noteq> UO_HASHTBL_TAG_REMOVED" and small: "ht_capacity t < 2 ^ 63"
  shows "\<exists>t'. uo_hashtbl_set hash t (Some key) v = Some (Inr t') \<and> table_rel hash t' (AList.update key v kvs)
           \<and> ht_capacity t' \<le> max (ht_capacity t) (4 * (length kvs + 1))"
proof -
  from rel obtain "is" where "is": "slots_ok hash (ht_capacity t) (ht_links t) is"
    "linked_slots (ht_heap t) (ht_gen t) is" "ht_count t = length is"
    "ht_removed_count t = removed (ht_links t)" "kvps (ht_links t) is = kvs" "length kvs = length is"
    "length is < ht_capacity t div 2" "removed (ht_links t) < ht_capacity t div 4"
    "length is + removed (ht_links t) < ht_capacity t" "16 \<le> ht_capacity t"
    by (rule table_relE)
  from "is"(1) obtain k where k: "k < 64" "ht_capacity t = 2 ^ k" by (rule slots_okD)
  from "is"(1,9) show ?thesis
  proof (cases rule: find_link_cases [where key = key])
    case (found i)
    note ov = slots_ok_overwrite [OF "is"(1) found(2,3) v]
    let ?t = "t\<lparr>ht_links := (ht_links t)[i := (ht_links t ! i)\<lparr>kvp_value := v\<rparr>]\<rparr>"
    have "uo_hashtbl_set hash t (Some key) v = Some (Inr ?t)"
      using found by (simp add: uo_hashtbl_set_def Let_def)
    moreover have "table_rel hash ?t (AList.update key v kvs)"
    proof (rule table_relI)
      show "table_at hash ?t is" using ov(1,3) "is"(2-4) by (simp add: table_at_def)
      show "kvps (ht_links ?t) is = AList.update key v kvs" using ov(2) "is"(5) by simp
    qed (use "is"(4,7,8,10) in simp_all)
    ultimately show ?thesis by auto
  next
    case (fresh i)
    note ins = slots_ok_insert [OF "is"(1) fresh(2,3,4,5,6) v]
    define links where "links = (ht_links t)[i := \<lparr>kvp_key = Some key, kvp_value = v\<rparr>]"
    obtain h' where h': "uo_linklist_link (ht_heap t) Head (Slot (ht_gen t) i) = Inr h'"
      "linked_slots h' (ht_gen t) (is @ [i])"
      using linked_slots_link [OF "is"(2) fresh(3)] by blast
    define t1 where "t1 = t\<lparr>ht_links := links, ht_heap := h', ht_count := length is + 1\<rparr>"
    have upd: "AList.update key v kvs = kvps links (is @ [i])"
      using update_absent [of key kvs v] fresh(5) ins(2) "is"(5) by (simp add: links_def)
    have set_eq: "uo_hashtbl_set hash t (Some key) v =
        (if length is + 1 = ht_capacity t div 2
         then run_bind (uo_hashtbl_resize hash t1 (2 * ht_capacity t)) (\<lambda>t. Some (Inr (t\<lparr>ht_removed_count := 0\<rparr>)))
         else Some (Inr t1))"
      using fresh(1,4) h'(1) "is"(3) by (simp add: uo_hashtbl_set_def Let_def t1_def links_def)
    show ?thesis
    proof (cases "length is + 1 = ht_capacity t div 2")
      case True
      have k1: "Suc k < 64"
      proof -
        have "(2::nat) ^ k < 2 ^ 63" using small k(2) by simp
        then have "k < 63" by (rule power_less_imp_less_exp [rotated]) simp
        then show ?thesis by simp
      qed
      have "\<exists>t'. run_bind (uo_hashtbl_resize hash t1 (2 * ht_capacity t))
            (\<lambda>t. Some (Inr (t\<lparr>ht_removed_count := 0\<rparr>))) = Some (Inr t')
          \<and> table_rel hash t' (kvps (ht_links t1) (is @ [i])) \<and> ht_capacity t' = 2 * ht_capacity t"
        using k1 ins(1) h'(2) "is"(10) True
        by (intro table_rel_resize [of hash "ht_capacity t" _ _ "Suc k"]) (simp_all add: t1_def links_def k(2))
      moreover have "even (ht_capacity t)" using "is"(10) k(2) by (cases k) simp_all
      then have "2 * ht_capacity t \<le> 4 * (length kvs + 1)" using True "is"(6) by auto
      ultimately show ?thesis using True set_eq upd by (auto simp: t1_def)
    next
      case False
      have "table_at hash t1 (is @ [i])"
        using ins h'(2) "is"(4) by (simp add: table_at_def t1_def links_def)
      then have "table_rel hash t1 (kvps links (is @ [i]))"
        by (rule table_relI) (use False "is"(4,7,8,10) in \<open>simp_all add: t1_def\<close>)
      with False set_eq upd show ?thesis by (auto simp: t1_def)
    qed
  qed
qed

lemma table_rel_remove:
  assumes rel: "table_rel hash t kvs"
  shows "\<exists>t'. uo_hashtbl_remove hash t (Some key) = Some (Inr (case map_of kvs key of None \<Rightarrow> 0 | Some v \<Rightarrow> v, t'))
           \<and> table_rel hash t' (AList.delete key kvs) \<and> ht_capacity t' = ht_capacity t"
proof -
  from rel obtain "is" where "is": "slots_ok hash (ht_capacity t) (ht_links t) is"
    "linked_slots (ht_heap t) (ht_gen t) is" "ht_count t = length is"
    "ht_removed_count t = removed (ht_links t)" "kvps (ht_links t) is = kvs" "length kvs = length is"
    "length is < ht_capacity t div 2" "removed (ht_links t) < ht_capacity t div 4"
    "length is + removed (ht_links t) < ht_capacity t" "16 \<le> ht_capacity t"
    by (rule table_relE)
  from "is"(1) obtain k where k: "k < 64" "ht_capacity t = 2 ^ k" by (rule slots_okD)
  from "is"(1,9) show ?thesis
  proof (cases rule: find_link_cases [where key = key])
    case (fresh i)
    then have "map_of kvs key = None" "AList.delete key kvs = kvs"
      by (auto simp: map_of_eq_None_iff "is"(5) AList.delete_id)
    with fresh rel show ?thesis by (simp add: uo_hashtbl_remove_def)
  next
    case (found i)
    obtain as bs where ab: "is = as @ i # bs" using split_list [OF found(2)] by blast
    note rem = slots_ok_remove [OF "is"(1) [unfolded ab] found(3)]
    obtain h' where h': "uo_linklist_unlink (ht_heap t) (Slot (ht_gen t) i) = Inr h'"
      "linked_slots h' (ht_gen t) (as @ bs)"
      using linked_slots_unlink [OF "is"(2) [unfolded ab]] by blast
    define t1 where "t1 = t\<lparr>ht_links := (ht_links t)[i := removed_kvp], ht_heap := h',
        ht_removed_count := ht_removed_count t + 1, ht_count := length (as @ bs)\<rparr>"
    have val: "map_of kvs key = Some (kvp_value (ht_links t ! i))"
      using map_of_kvps [OF "is"(1) found(2,3)] by (simp add: "is"(5))
    have never: "\<not> UO_HASHTBL_MIN_CAPACITY \<le> of_bool b" for b
      by (simp add: UO_HASHTBL_MIN_CAPACITY_def)
    have del: "kvps (ht_links t1) (as @ bs) = AList.delete key kvs"
      using rem(2) "is"(5) by (simp add: t1_def ab)
    have rem_eq: "uo_hashtbl_remove hash t (Some key) = run_bind
        (if ht_capacity t div 4 \<le> ht_removed_count t + 1
         then run_bind (uo_hashtbl_resize hash t1 (ht_capacity t)) (\<lambda>t. Some (Inr (t\<lparr>ht_removed_count := 0\<rparr>)))
         else Some (Inr t1)) (\<lambda>t'. Some (Inr (kvp_value (ht_links t ! i), t')))"
      using found(1,3) h'(1) "is"(3) never by (simp add: uo_hashtbl_remove_def Let_def t1_def ab)
    show ?thesis
    proof (cases "ht_capacity t div 4 \<le> ht_removed_count t + 1")
      case True
      have "\<exists>t'. run_bind (uo_hashtbl_resize hash t1 (ht_capacity t))
            (\<lambda>t. Some (Inr (t\<lparr>ht_removed_count := 0\<rparr>))) = Some (Inr t')
          \<and> table_rel hash t' (kvps (ht_links t1) (as @ bs)) \<and> ht_capacity t' = ht_capacity t"
        using k(1) rem(1) h'(2) "is"(7,10)
        by (intro table_rel_resize [of hash "ht_capacity t" _ _ k]) (simp_all add: t1_def k(2) ab)
      with True rem_eq val del show ?thesis by auto
    next
      case False
      have "table_at hash t1 (as @ bs)"
        using rem h'(2) "is"(4) by (simp add: table_at_def t1_def)
      then have "table_rel hash t1 (AList.delete key kvs)"
        using del by (rule table_relI) (use False "is"(4,7,8,10) in \<open>simp_all add: t1_def ab\<close>)
      with False rem_eq val show ?thesis by (auto simp: t1_def)
    qed
  qed
qed

subsection \<open>Iteration\<close>

text \<open>The pairs in the order in which a client that follows the list sees them.\<close>

definition uo_hashtbl_list :: "'k uo_hashtbl \<Rightarrow> ('k option \<times> 64 word) list cres" where
  "uo_hashtbl_list t =
     res_bind (walk (ht_heap t) Head (ht_count t)) (\<lambda>ns.
       Inr (map (\<lambda>n. case n of Slot g i \<Rightarrow> (kvp_key (ht_links t ! i), kvp_value (ht_links t ! i))
                           | Head \<Rightarrow> (None, 0)) ns))"

lemma table_rel_list:
  assumes "table_rel hash t kvs"
  shows "uo_hashtbl_list t = Inr (map (\<lambda>(k, v). (Some k, v)) kvs)"
proof -
  from assms obtain "is" where "is": "slots_ok hash (ht_capacity t) (ht_links t) is"
    "linked_slots (ht_heap t) (ht_gen t) is" "ht_count t = length is" "kvps (ht_links t) is = kvs"
    by (rule table_relE)
  have "walk (ht_heap t) Head (length (map (Slot (ht_gen t)) is)) = Inr (map (Slot (ht_gen t)) is)"
    using "is"(2) by (intro walk_chain [of _ _ _ Head]) (simp add: linked_slots_def clist_def)
  moreover have "kvp_key (ht_links t ! i) = Some (the (kvp_key (ht_links t ! i)))" if "i \<in> set is" for i
    using key_at(2) [OF "is"(1) that] by auto
  ultimately show ?thesis
    by (auto simp: uo_hashtbl_list_def "is"(3) kvps_def simp flip: "is"(4))
qed

section \<open>The interface of an ordered table\<close>

text \<open>
  What the clients of the table rely on: insertion and removal keep the relation to the
  association list, as long as the capacity stays below a limit, and capacity grows at most
  to four times the number of pairs.
\<close>

datatype 'k table_op = TSet 'k "64 word" | TRemove 'k

fun replay :: "('k \<times> 64 word) list \<Rightarrow> 'k table_op list \<Rightarrow> ('k \<times> 64 word) list" where
  "replay kvs [] = kvs"
| "replay kvs (TSet k v # ops) = replay (AList.update k v kvs) ops"
| "replay kvs (TRemove k # ops) = replay (AList.delete k kvs) ops"

fun run_ops :: "('t \<Rightarrow> 'k \<Rightarrow> 64 word \<Rightarrow> 't run) \<Rightarrow> ('t \<Rightarrow> 'k \<Rightarrow> (64 word \<times> 't) run) \<Rightarrow> 't
    \<Rightarrow> 'k table_op list \<Rightarrow> 't run" where
  "run_ops st rm t [] = Some (Inr t)"
| "run_ops st rm t (TSet k v # ops) = run_bind (st t k v) (\<lambda>t. run_ops st rm t ops)"
| "run_ops st rm t (TRemove k # ops) = run_bind (rm t k) (\<lambda>(_, t). run_ops st rm t ops)"

definition op_ok :: "'k table_op \<Rightarrow> bool" where
  "op_ok p = (case p of TSet k v \<Rightarrow> v \<noteq> UO_HASHTBL_TAG_REMOVED | TRemove k \<Rightarrow> True)"

lemma length_update_le: "length (AList.update k v kvs) \<le> length kvs + 1"
  by (induction kvs) auto

lemma length_delete_le: "length (AList.delete k kvs) \<le> length kvs"
  by (simp add: AList.delete_eq)

locale ordered_table =
  fixes rel :: "'t \<Rightarrow> ('k \<times> 64 word) list \<Rightarrow> bool"
    and capac :: "'t \<Rightarrow> nat"
    and getv :: "'t \<Rightarrow> 'k \<Rightarrow> 64 word option"
    and setv :: "'t \<Rightarrow> 'k \<Rightarrow> 64 word \<Rightarrow> 't run"
    and remv :: "'t \<Rightarrow> 'k \<Rightarrow> (64 word \<times> 't) run"
  assumes get_law: "rel t kvs \<Longrightarrow> getv t k = Some (case map_of kvs k of None \<Rightarrow> 0 | Some v \<Rightarrow> v)"
    and set_law: "rel t kvs \<Longrightarrow> v \<noteq> UO_HASHTBL_TAG_REMOVED \<Longrightarrow> capac t < 2 ^ 63 \<Longrightarrow>
      \<exists>t'. setv t k v = Some (Inr t') \<and> rel t' (AList.update k v kvs)
        \<and> capac t' \<le> max (capac t) (4 * (length kvs + 1))"
    and remove_law: "rel t kvs \<Longrightarrow>
      \<exists>t'. remv t k = Some (Inr (case map_of kvs k of None \<Rightarrow> 0 | Some v \<Rightarrow> v, t'))
        \<and> rel t' (AList.delete k kvs) \<and> capac t' = capac t"
begin

lemma run_ops_replay:
  assumes "rel t kvs" and "list_all op_ok ops" and "capac t < 2 ^ 63" and "length kvs + length ops < 2 ^ 60"
  shows "\<exists>t'. run_ops setv remv t ops = Some (Inr t') \<and> rel t' (replay kvs ops) \<and> capac t' < 2 ^ 63"
  using assms
proof (induction ops arbitrary: t kvs)
  case (Cons p ops)
  show ?case
  proof (cases p)
    case (TSet k v)
    obtain t' where t': "setv t k v = Some (Inr t')" "rel t' (AList.update k v kvs)"
      "capac t' \<le> max (capac t) (4 * (length kvs + 1))"
      using set_law [OF Cons.prems(1) _ Cons.prems(3), of v k] Cons.prems(2) by (auto simp: TSet op_ok_def)
    have "capac t' < 2 ^ 63" using t'(3) Cons.prems(3,4) by simp
    moreover have "length (AList.update k v kvs) + length ops < 2 ^ 60"
      using length_update_le [of k v kvs] Cons.prems(4) by simp
    ultimately show ?thesis using Cons.IH [OF t'(2)] Cons.prems(2) t'(1) by (simp add: TSet)
  next
    case (TRemove k)
    obtain w t' where t': "remv t k = Some (Inr (w, t'))" "rel t' (AList.delete k kvs)" "capac t' = capac t"
      using remove_law [OF Cons.prems(1), of k] by blast
    have "length (AList.delete k kvs) + length ops < 2 ^ 60"
      using length_delete_le [of k kvs] Cons.prems(4) by simp
    then show ?thesis using Cons.IH [OF t'(2)] Cons.prems(2,3) t'(1,3) by (simp add: TRemove)
  qed
qed auto

lemma get_after_run:
  assumes "rel t kvs" and "list_all op_ok ops" and "capac t < 2 ^ 63" and "length kvs + length ops < 2 ^ 60"
  shows "\<exists>t'. run_ops setv remv t ops = Some (Inr t')
    \<and> getv t' k = Some (case map_of (replay kvs ops) k of None \<Rightarrow> 0 | Some v \<Rightarrow> v)"
  using run_ops_replay [OF assms] get_law by blast

end

interpretation hashtbl: ordered_table "table_rel hash" ht_capacity "\<lambda>t k. uo_hashtbl_get hash t (Some k)"
  "\<lambda>t k. uo_hashtbl_set hash t (Some k)" "\<lambda>t k. uo_hashtbl_remove hash t (Some k)" for hash
  by unfold_locales (rule table_rel_get table_rel_set table_rel_remove; assumption)+

section \<open>The tables of the library\<close>

text \<open>
  \<^verbatim>\<open>uo_hashtbl.c\<close> instantiates the macros three times: for C strings with the djb2 hash, for
  pointers with their value as the hash, and for \<^verbatim>\<open>int\<close>, sign-extended. The key 0 of the
  latter two is the null key.
\<close>

definition uo_strhashtbl_get :: "string uo_hashtbl \<Rightarrow> string option \<Rightarrow> 64 word option" where
  "uo_strhashtbl_get = uo_hashtbl_get uo_strhash_djb2"

definition uo_strhashtbl_set :: "string uo_hashtbl \<Rightarrow> string option \<Rightarrow> 64 word \<Rightarrow> string uo_hashtbl run" where
  "uo_strhashtbl_set = uo_hashtbl_set uo_strhash_djb2"

definition uo_strhashtbl_remove ::
  "string uo_hashtbl \<Rightarrow> string option \<Rightarrow> (64 word \<times> string uo_hashtbl) run" where
  "uo_strhashtbl_remove = uo_hashtbl_remove uo_strhash_djb2"

definition null_key :: "'a::zero \<Rightarrow> 'a option" where
  "null_key k = (if k = 0 then None else Some k)"

definition uo_hashtbl_set_ptr :: "64 word uo_hashtbl \<Rightarrow> 64 word \<Rightarrow> 64 word \<Rightarrow> 64 word uo_hashtbl run" where
  "uo_hashtbl_set_ptr t key = uo_hashtbl_set (\<lambda>p. p) t (null_key key)"

definition uo_inthashtbl_get :: "32 word uo_hashtbl \<Rightarrow> 32 word \<Rightarrow> 64 word option" where
  "uo_inthashtbl_get t key = uo_hashtbl_get scast t (null_key key)"

definition uo_inthashtbl_set :: "32 word uo_hashtbl \<Rightarrow> 32 word \<Rightarrow> 64 word \<Rightarrow> 32 word uo_hashtbl run" where
  "uo_inthashtbl_set t key = uo_hashtbl_set scast t (null_key key)"

definition uo_inthashtbl_remove :: "32 word uo_hashtbl \<Rightarrow> 32 word \<Rightarrow> (64 word \<times> 32 word uo_hashtbl) run" where
  "uo_inthashtbl_remove t key = uo_hashtbl_remove scast t (null_key key)"

interpretation strhashtbl: ordered_table "table_rel uo_strhash_djb2" ht_capacity
  "\<lambda>t k. uo_strhashtbl_get t (Some k)" "\<lambda>t k. uo_strhashtbl_set t (Some k)"
  "\<lambda>t k. uo_strhashtbl_remove t (Some k)"
  unfolding uo_strhashtbl_get_def uo_strhashtbl_set_def uo_strhashtbl_remove_def
  by (rule hashtbl.ordered_table_axioms)

section \<open>Properties\<close>

text \<open>
  C9: any sequence of insertions and removals on a newly created string table returns, with
  no access through a null link and no failed assertion, whatever resizes and rehashes
  happen; afterwards a lookup returns what the same operations give on an association list,
  and the list of the table visits the pairs in insertion order.
\<close>

theorem uo_strhashtbl_refines_alist:
  assumes "initial_capacity < 2 ^ 62" and "list_all op_ok ops" and "length ops < 2 ^ 60"
  shows "\<exists>t. run_ops (\<lambda>t k. uo_strhashtbl_set t (Some k)) (\<lambda>t k. uo_strhashtbl_remove t (Some k))
             (uo_hashtbl_create_at initial_capacity) ops = Some (Inr t)
      \<and> (\<forall>k. uo_strhashtbl_get t (Some k) = Some (case map_of (replay [] ops) k of None \<Rightarrow> 0 | Some v \<Rightarrow> v))
      \<and> uo_hashtbl_list t = Inr (map (\<lambda>(k, v). (Some k, v)) (replay [] ops))"
proof -
  have rel: "table_rel uo_strhash_djb2 (uo_hashtbl_create_at initial_capacity) []"
    using assms(1) by (intro table_rel_create) simp
  have "ht_capacity (uo_hashtbl_create_at initial_capacity :: string uo_hashtbl) < 2 ^ 63"
  proof (cases "16 \<le> initial_capacity")
    case True
    then have "0 < initial_capacity" "initial_capacity \<le> 2 ^ 63" using assms(1) by simp_all
    then obtain k where k: "unat (uo_ceil_pow2 (of_nat initial_capacity)) = 2 ^ k"
      "k = 0 \<or> 2 ^ (k - 1) < initial_capacity" by (rule uo_ceil_pow2_least)
    have "(2::nat) ^ k < 2 ^ 63"
      using k(2) assms(1) by (cases k) simp_all
    with k(1) True show ?thesis
      by (simp add: uo_hashtbl_create_at_def Let_def UO_HASHTBL_MIN_CAPACITY_def)
  qed (simp add: uo_hashtbl_create_at_def Let_def UO_HASHTBL_MIN_CAPACITY_def)
  from strhashtbl.run_ops_replay [OF rel assms(2) this] assms(3)
  obtain t where "run_ops (\<lambda>t k. uo_strhashtbl_set t (Some k)) (\<lambda>t k. uo_strhashtbl_remove t (Some k))
      (uo_hashtbl_create_at initial_capacity) ops = Some (Inr t)" "table_rel uo_strhash_djb2 t (replay [] ops)"
    by auto
  with strhashtbl.get_law table_rel_list show ?thesis by blast
qed

theorem uo_strhashtbl_refines_alist_witness:
  "\<exists>t. run_ops (\<lambda>t k. uo_strhashtbl_set t (Some k)) (\<lambda>t k. uo_strhashtbl_remove t (Some k))
         (uo_hashtbl_create_at 0) [TSet ''a'' 1, TSet ''b'' 2, TRemove ''a'', TSet ''a'' 3] = Some (Inr t)
     \<and> uo_strhashtbl_get t (Some ''a'') = Some 3
     \<and> uo_hashtbl_list t = Inr [(Some ''b'', 2), (Some ''a'', 3)]"
  using uo_strhashtbl_refines_alist [of 0 "[TSet ''a'' 1, TSet ''b'' 2, TRemove ''a'', TSet ''a'' 3]"]
  by (auto simp: op_ok_def UO_HASHTBL_TAG_REMOVED_def AList.delete_eq)

text \<open>
  With any hash function, \<^verbatim>\<open>uo_hashtbl_set\<close> on a well-formed table returns a well-formed
  table that holds the updated association list: an existing key keeps its position, a new
  one goes to the end of the list. Probing ends, and the table grows before it is half full.
\<close>

theorem uo_hashtbl_set_refines:
  assumes "table_rel hash t kvs" and "v \<noteq> UO_HASHTBL_TAG_REMOVED" and "ht_capacity t < 2 ^ 63"
  shows "\<exists>t'. uo_hashtbl_set hash t (Some key) v = Some (Inr t') \<and> table_rel hash t' (AList.update key v kvs)
           \<and> length (AList.update key v kvs) < ht_capacity t' div 2"
proof -
  obtain t' where "uo_hashtbl_set hash t (Some key) v = Some (Inr t')"
    "table_rel hash t' (AList.update key v kvs)"
    using table_rel_set [OF assms] by blast
  then show ?thesis by (auto simp: table_rel_def)
qed

theorem uo_hashtbl_set_refines_witness:
  "\<exists>t'. uo_hashtbl_set (\<lambda>_. 0) (uo_hashtbl_create_at 0) (Some ''k'') 5 = Some (Inr t')
     \<and> table_rel (\<lambda>_. 0) t' [(''k'', 5)] \<and> 1 < ht_capacity t' div 2"
  using uo_hashtbl_set_refines [OF table_rel_create, of 0 5 "\<lambda>_. 0" "''k''"]
  by (simp add: UO_HASHTBL_TAG_REMOVED_def uo_hashtbl_create_at_def UO_HASHTBL_MIN_CAPACITY_def)

text \<open>
  \<^verbatim>\<open>uo_hashtbl_remove\<close> returns the value of the key (\<^verbatim>\<open>NULL\<close> when absent) and a well-formed
  table without it; rehashing away the removed slots loses nothing. The capacity never
  shrinks: the condition meant to halve it compares a truth value with the minimum capacity.
\<close>

theorem uo_hashtbl_remove_refines:
  assumes "table_rel hash t kvs"
  shows "\<exists>t'. uo_hashtbl_remove hash t (Some key)
             = Some (Inr (case map_of kvs key of None \<Rightarrow> 0 | Some v \<Rightarrow> v, t'))
           \<and> table_rel hash t' (AList.delete key kvs) \<and> ht_capacity t' = ht_capacity t"
  using assms by (rule table_rel_remove)

theorem uo_hashtbl_remove_refines_witness:
  "\<exists>t'. uo_hashtbl_remove (\<lambda>_. 0) (uo_hashtbl_create_at 64) (Some ''k'') = Some (Inr (0, t'))
     \<and> table_rel (\<lambda>_. 0) t' []"
  using uo_hashtbl_remove_refines [OF table_rel_create, of 64 "\<lambda>_. 0" "''k''"] by auto

end
