(* ===== verification/Tcp_Conn.thy ===== *)
theory Tcp_Conn
  imports Buf Hashtbl
begin

text \<open>
  \<^verbatim>\<open>uo_tcp/src/uo_tcp_conn.c\<close> with the parts of \<^verbatim>\<open>uo_io/src/uo_io.c\<close> that it runs on. A connection is
  driven by one callback: each function works on the connection, may add functions to the
  callback, and hands on by invoking it again, so a run of the callback is a loop over its list
  of functions. Callbacks are the pairs of data and functions that \<^verbatim>\<open>uo_cb\<close> implements.

  What the operating system answers is input of the model: the results of the coming writes,
  whether registering for a readiness event succeeds, and the event that ends a wait. The
  functions of the client of the library are a parameter.
\<close>

section \<open>Data\<close>

datatype uo_io_err = UO_IO_ERR_NONE | UO_IO_ERR_UNKNOWN

text \<open>
  A pending operation. The buffer is given by its offset in the receive buffer of the
  connection, and the callback is the one the connection runs on.
\<close>

record uo_ioop =
  io_fd :: int
  io_buf :: int
  io_len :: nat

text \<open>What lies on the stack of the callback; \<^verbatim>\<open>Ptr\<close> are pointers of the client.\<close>

datatype 'p cb_data = TcpConn | Num nat | IoErr uo_io_err | Epevt uo_ioop | Ptr 'p

datatype 'u conn_func = After_close | Close | After_send | Send | Recv | Before_recv | Advance
  | Before_send_length_prefixed_msg | After_recv_length_prefixed_msg
  | Next_recv_cb_func | Next_send_cb_func | Next_close_cb_func
  | Execute_io | Server_after_close | Usr 'u

type_synonym ('u, 'p) handler = "'p cb_data list \<times> 'u conn_func list"

record ('u, 'p) uo_tcp_conn_evt_handlers =
  eh_after_open :: "('u, 'p) handler"
  eh_before_recv :: "('u, 'p) handler"
  eh_after_recv :: "('u, 'p) handler"
  eh_before_send :: "('u, 'p) handler"
  eh_after_send :: "('u, 'p) handler"
  eh_before_close :: "('u, 'p) handler"
  eh_after_close :: "('u, 'p) handler"

record ('u, 'p) uo_tcp_conn =
  tc_user_data :: "string uo_hashtbl"
  tc_shared_user_data :: "string uo_hashtbl"
  tc_evt_handlers :: "('u, 'p) uo_tcp_conn_evt_handlers"
  tc_rbuf :: uo_buf
  tc_wbuf :: uo_buf
  tc_last_recv_len :: nat
  tc_is_msg_fully_received :: bool
  tc_sockfd :: int
  tc_state :: char

text \<open>The branch that the events of a readiness notification select, with the result of the call made there.\<close>

datatype io_event = EPOLLIN "string option" | EPOLLOUT "nat option" | EPOLLHUP | EPOLLOTHER

datatype phase = Running | Waiting | Ended

text \<open>
  A connection, the callback that drives it, and its surroundings. \<open>conn\<close> is \<^term>\<open>None\<close> once the
  connection is freed; \<open>sent\<close> are the bytes given to the socket, \<open>closes\<close> the descriptors closed
  and \<open>closing\<close> those reported to the server; \<open>writes\<close>, \<open>ctls\<close> and \<open>event\<close> are the answers of the
  operating system.
\<close>

record ('u, 'p) tcp =
  conn :: "('u, 'p) uo_tcp_conn option"
  cb_data :: "'p cb_data list"
  cb_funcs :: "'u conn_func list"
  phase :: phase
  sent :: string
  closes :: "int list"
  closing :: "int list"
  writes :: "nat list"
  ctls :: "bool list"
  event :: "io_event option"

section \<open>The callback of a connection\<close>

definition cb_pop :: "('u, 'p, 'z) tcp_scheme \<Rightarrow> ('p cb_data \<times> ('u, 'p, 'z) tcp_scheme) cres" where
  "cb_pop s = (if cb_data s = [] then Inl OutOfBounds
     else Inr (last (cb_data s), s\<lparr> cb_data := butlast (cb_data s) \<rparr>))"

definition cb_push :: "('u, 'p, 'z) tcp_scheme \<Rightarrow> 'p cb_data \<Rightarrow> ('u, 'p, 'z) tcp_scheme" where
  "cb_push s d = s\<lparr> cb_data := cb_data s @ [d] \<rparr>"

definition cb_append :: "('u, 'p, 'z) tcp_scheme \<Rightarrow> ('u, 'p) handler \<Rightarrow> ('u, 'p, 'z) tcp_scheme" where
  "cb_append s h = s\<lparr> cb_data := fst h @ cb_data s, cb_funcs := cb_funcs s @ snd h \<rparr>"

definition cb_prepend :: "('u, 'p, 'z) tcp_scheme \<Rightarrow> ('u, 'p) handler \<Rightarrow> ('u, 'p, 'z) tcp_scheme" where
  "cb_prepend s h = s\<lparr> cb_data := cb_data s @ fst h, cb_funcs := snd h @ cb_funcs s \<rparr>"

abbreviation func :: "'u conn_func \<Rightarrow> ('u, 'p) handler" where
  "func f \<equiv> ([], [f])"

text \<open>\<^verbatim>\<open>uo_cb_stack_index(cb, 0)\<close>, taken for the connection.\<close>

definition the_conn :: "('u, 'p, 'z) tcp_scheme \<Rightarrow> ('u, 'p) uo_tcp_conn cres" where
  "the_conn s = (case cb_data s of
       [] \<Rightarrow> Inl OutOfBounds
     | d # _ \<Rightarrow> (case d of
           TcpConn \<Rightarrow> (case conn s of None \<Rightarrow> Inl UseAfterFree | Some c \<Rightarrow> Inr c)
         | _ \<Rightarrow> Inl WrongPointer))"

section \<open>Input and output\<close>

text \<open>The outcome of an operation is pushed on the stack: an error code and zero, or a length.\<close>

definition io_failed :: "('u, 'p, 'z) tcp_scheme \<Rightarrow> uo_io_err \<Rightarrow> ('u, 'p, 'z) tcp_scheme" where
  "io_failed s e = cb_push (cb_push s (IoErr e)) (Num 0)"

definition uo_io_execute_io :: "('u, 'p, 'z) tcp_scheme \<Rightarrow> ('u, 'p, 'z) tcp_scheme run" where
  "uo_io_execute_io s =
     run_bind (Some (cb_pop s)) (\<lambda>(d, s).
       case d of
         Epevt ioop \<Rightarrow>
           (case event s of
              None \<Rightarrow> None
            | Some ev \<Rightarrow>
                let s = s\<lparr> event := None \<rparr> in
                (case ev of
                   EPOLLIN None \<Rightarrow> Some (Inr (io_failed s UO_IO_ERR_UNKNOWN))
                 | EPOLLIN (Some bs) \<Rightarrow>
                     if bs = [] then Some (Inr (io_failed s UO_IO_ERR_NONE))
                     else (case conn s of
                         None \<Rightarrow> Some (Inl UseAfterFree)
                       | Some c \<Rightarrow>
                           run_bind (Some (buf_store (tc_rbuf c) (io_buf ioop) bs)) (\<lambda>rbuf.
                             Some (Inr (cb_push (s\<lparr> conn := Some (c\<lparr> tc_rbuf := rbuf \<rparr>) \<rparr>) (Num (length bs))))))
                 | EPOLLOUT None \<Rightarrow> Some (Inr (io_failed s UO_IO_ERR_UNKNOWN))
                 | EPOLLOUT (Some n) \<Rightarrow>
                     if n = 0 then Some (Inr (io_failed s UO_IO_ERR_NONE)) else Some (Inr (cb_push s (Num n)))
                 | EPOLLHUP \<Rightarrow> Some (Inr (io_failed s UO_IO_ERR_NONE))
                 | EPOLLOTHER \<Rightarrow> Some (Inr (io_failed s UO_IO_ERR_UNKNOWN))))
       | _ \<Rightarrow> Some (Inl WrongPointer))"

definition uo_io_read_async :: "int \<Rightarrow> int \<Rightarrow> nat \<Rightarrow> ('u, 'p, 'z) tcp_scheme \<Rightarrow> ('u, 'p, 'z) tcp_scheme run" where
  "uo_io_read_async rfd buf len s =
     (if len = 0 then Some (Inr (io_failed s UO_IO_ERR_NONE))
      else
        let s = cb_push s (Epevt \<lparr> io_fd = rfd, io_buf = buf, io_len = len \<rparr>) in
        (case ctls s of
           [] \<Rightarrow> None
         | ok # oks \<Rightarrow>
             let s = s\<lparr> ctls := oks \<rparr> in
             if ok then Some (Inr (s\<lparr> phase := Waiting \<rparr>))
             else Some (Inr (io_failed s UO_IO_ERR_UNKNOWN))))"

text \<open>The thread that waits for events hands the callback on when one arrives.\<close>

definition uo_io_accept_async_io :: "io_event \<Rightarrow> ('u, 'p, 'z) tcp_scheme \<Rightarrow> ('u, 'p, 'z) tcp_scheme" where
  "uo_io_accept_async_io ev s = (cb_prepend s (func Execute_io))\<lparr> phase := Running, event := Some ev \<rparr>"

section \<open>Functions of a connection\<close>

definition uo_tcp_conn_destroy :: "('u, 'p, 'z) tcp_scheme \<Rightarrow> ('u, 'p) uo_tcp_conn \<Rightarrow> ('u, 'p, 'z) tcp_scheme" where
  "uo_tcp_conn_destroy s c = s\<lparr> closes := closes s @ [tc_sockfd c], conn := None \<rparr>"

text \<open>
  \<open>seen\<close> is the state at the second exchange: the one of the first, unless another thread has
  changed it in between. The result says whether the connection is advanced on a callback of
  its own.
\<close>

definition uo_tcp_conn_next_state :: "char \<Rightarrow> ('u, 'p) uo_tcp_conn \<Rightarrow> char \<Rightarrow> bool \<times> ('u, 'p) uo_tcp_conn" where
  "uo_tcp_conn_next_state seen c state =
     (if tc_state c = NUL then (False, c\<lparr> tc_state := state \<rparr>)
      else if tc_state c \<noteq> CHR ''i'' then (False, c)
      else if seen = CHR ''i'' then (False, c\<lparr> tc_state := state \<rparr>)
      else (True, c\<lparr> tc_state := seen \<rparr>))"

text \<open>The three requests, made by the functions that run on the connection's own callback.\<close>

definition uo_tcp_conn_next_recv :: "('u, 'p) uo_tcp_conn \<Rightarrow> ('u, 'p) uo_tcp_conn" where
  "uo_tcp_conn_next_recv c = snd (uo_tcp_conn_next_state (tc_state c) c (CHR ''r''))"

definition uo_tcp_conn_next_send :: "('u, 'p) uo_tcp_conn \<Rightarrow> ('u, 'p) uo_tcp_conn" where
  "uo_tcp_conn_next_send c = snd (uo_tcp_conn_next_state (tc_state c) c (CHR ''s''))"

definition uo_tcp_conn_next_close :: "('u, 'p) uo_tcp_conn \<Rightarrow> ('u, 'p) uo_tcp_conn" where
  "uo_tcp_conn_next_close c = snd (uo_tcp_conn_next_state (tc_state c) c (CHR ''c''))"

definition uo_tcp_conn_reset_evt_arg :: "('u, 'p) uo_tcp_conn \<Rightarrow> ('u, 'p) uo_tcp_conn" where
  "uo_tcp_conn_reset_evt_arg c = c\<lparr> tc_last_recv_len := 0, tc_is_msg_fully_received := False \<rparr>"

definition uo_tcp_conn_after_close :: "('u, 'p, 'z) tcp_scheme \<Rightarrow> ('u, 'p, 'z) tcp_scheme run" where
  "uo_tcp_conn_after_close s =
     run_bind (Some (the_conn s)) (\<lambda>c. Some (Inr (uo_tcp_conn_destroy s c)))"

definition uo_tcp_conn_close :: "('u, 'p, 'z) tcp_scheme \<Rightarrow> ('u, 'p, 'z) tcp_scheme run" where
  "uo_tcp_conn_close s =
     run_bind (Some (the_conn s)) (\<lambda>c.
       let s = s\<lparr> closes := closes s @ [tc_sockfd c] \<rparr>;
           s = cb_append s (eh_after_close (tc_evt_handlers c));
           s = cb_append s (func After_close)
       in Some (Inr s))"

definition uo_tcp_conn_after_send :: "('u, 'p, 'z) tcp_scheme \<Rightarrow> ('u, 'p, 'z) tcp_scheme run" where
  "uo_tcp_conn_after_send s =
     run_bind (Some (the_conn s)) (\<lambda>c.
       let c = c\<lparr> tc_rbuf := uo_buf_set_ptr_abs (tc_rbuf c) 0, tc_wbuf := uo_buf_set_ptr_abs (tc_wbuf c) 0 \<rparr>
       in Some (Inr (s\<lparr> conn := Some (uo_tcp_conn_reset_evt_arg c) \<rparr>)))"

text \<open>
  The loop that writes: a result of zero is an error, and there is no result when a write does
  not return.
\<close>

fun send_loop :: "nat list \<Rightarrow> string \<Rightarrow> string \<Rightarrow> (bool \<times> string \<times> nat list) option" where
  "send_loop ws p out =
     (if p = [] then Some (True, out, ws)
      else case ws of
        [] \<Rightarrow> None
      | w # ws \<Rightarrow> if w = 0 then Some (False, out, ws) else send_loop ws (drop w p) (out @ take w p))"

declare send_loop.simps [simp del]

definition uo_tcp_conn_send :: "('u, 'p, 'z) tcp_scheme \<Rightarrow> ('u, 'p, 'z) tcp_scheme run" where
  "uo_tcp_conn_send s =
     run_bind (Some (the_conn s)) (\<lambda>c.
     run_bind (Some (buf_text (tc_wbuf c))) (\<lambda>p.
       case send_loop (writes s) p (sent s) of
         None \<Rightarrow> None
       | Some (ok, out, ws) \<Rightarrow>
           let s = s\<lparr> sent := out, writes := ws \<rparr> in
           if \<not> ok
           then run_bind (Some (cb_pop s)) (\<lambda>(_, s).
                  Some (Inr (s\<lparr> conn := Some (uo_tcp_conn_next_close c) \<rparr>)))
           else
             let s = cb_append s (eh_after_send (tc_evt_handlers c));
                 s = cb_append s (func After_send);
                 s = cb_append s (func Advance)
             in Some (Inr s)))"

definition uo_tcp_conn_recv :: "('u, 'p, 'z) tcp_scheme \<Rightarrow> ('u, 'p, 'z) tcp_scheme run" where
  "uo_tcp_conn_recv s =
     run_bind (Some (the_conn s)) (\<lambda>c.
     run_bind (Some (cb_pop s)) (\<lambda>(d, s).
       case d of
         Num len \<Rightarrow>
           run_bind
             (if len \<noteq> 0
              then let c = c\<lparr> tc_last_recv_len := len, tc_rbuf := uo_buf_set_ptr_rel (tc_rbuf c) (int len) \<rparr>
                   in Some (Inr (cb_append (s\<lparr> conn := Some c \<rparr>) (eh_after_recv (tc_evt_handlers c))))
              else run_bind (Some (cb_pop s)) (\<lambda>(_, s).
                     Some (Inr (s\<lparr> conn := Some (uo_tcp_conn_next_close c) \<rparr>))))
             (\<lambda>s. Some (Inr (cb_append s (func Advance))))
       | _ \<Rightarrow> Some (Inl WrongPointer)))"

definition uo_tcp_conn_before_recv :: "('u, 'p, 'z) tcp_scheme \<Rightarrow> ('u, 'p, 'z) tcp_scheme run" where
  "uo_tcp_conn_before_recv s =
     run_bind (Some (the_conn s)) (\<lambda>c.
       let rbuf = tc_rbuf c;
           rbuf = (if uo_buf_get_len_after_ptr rbuf = 0 then uo_buf_realloc_2x rbuf else rbuf);
           s = s\<lparr> conn := Some (c\<lparr> tc_rbuf := rbuf \<rparr>) \<rparr>;
           s = cb_prepend s (func Recv)
       in uo_io_read_async (tc_sockfd c) (uo_buf_get_ptr rbuf)
            (unat (of_int (uo_buf_get_len_after_ptr rbuf) :: 64 word)) s)"

text \<open>
  The exchange that makes the connection idle fails only when another thread has made a request
  since the first one; \<open>seen\<close> is what it sees.
\<close>

definition uo_tcp_conn_advance :: "char \<Rightarrow> ('u, 'p, 'z) tcp_scheme \<Rightarrow> ('u, 'p, 'z) tcp_scheme run" where
  "uo_tcp_conn_advance seen s =
     run_bind (Some (the_conn s)) (\<lambda>c.
       let state = tc_state c;
           hs = tc_evt_handlers c;
           taken = (\<lambda>st. s\<lparr> conn := Some (c\<lparr> tc_state := st \<rparr>) \<rparr>)
       in Some (Inr
         (if state = CHR ''r'' then cb_append (cb_append (taken NUL) (eh_before_recv hs)) (func Before_recv)
          else if state = CHR ''s'' then cb_append (cb_append (taken NUL) (eh_before_send hs)) (func Send)
          else if state = CHR ''c'' then cb_append (cb_append (taken NUL) (eh_before_close hs)) (func Close)
          else if state = NUL
          then (if seen = NUL then taken (CHR ''i'') else cb_append (taken seen) (func Advance))
          else taken NUL)))"

definition uo_tcp_conn_get_user_data :: "('u, 'p) uo_tcp_conn \<Rightarrow> string \<Rightarrow> 64 word option" where
  "uo_tcp_conn_get_user_data c key =
     (case uo_strhashtbl_get (tc_user_data c) (Some key) of
        None \<Rightarrow> None
      | Some user_data \<Rightarrow>
          if user_data \<noteq> 0 then Some user_data
          else uo_strhashtbl_get (tc_shared_user_data c) (Some key))"

definition uo_tcp_conn_set_user_data :: "('u, 'p) uo_tcp_conn \<Rightarrow> string \<Rightarrow> 64 word \<Rightarrow> ('u, 'p) uo_tcp_conn run" where
  "uo_tcp_conn_set_user_data c key user_data =
     run_bind (uo_strhashtbl_set (tc_user_data c) (Some key) user_data) (\<lambda>t.
       Some (Inr (c\<lparr> tc_user_data := t \<rparr>)))"

definition UO_TCP_BUF_SIZE :: nat where
  "UO_TCP_BUF_SIZE = 0x200"

text \<open>A server and a client differ only in where the handlers and the shared data are kept.\<close>

definition uo_tcp_conn_create_for_server ::
  "int \<Rightarrow> string uo_hashtbl \<Rightarrow> ('u, 'p) uo_tcp_conn_evt_handlers \<Rightarrow> ('u, 'p) uo_tcp_conn" where
  "uo_tcp_conn_create_for_server sockfd server_user_data evt_handlers =
     \<lparr> tc_user_data = uo_hashtbl_create_at 0, tc_shared_user_data = server_user_data,
       tc_evt_handlers = evt_handlers, tc_rbuf = uo_buf_alloc UO_TCP_BUF_SIZE,
       tc_wbuf = uo_buf_alloc UO_TCP_BUF_SIZE, tc_last_recv_len = 0, tc_is_msg_fully_received = False,
       tc_sockfd = sockfd, tc_state = NUL \<rparr>"

definition uo_tcp_conn_create_for_client ::
  "int \<Rightarrow> string uo_hashtbl \<Rightarrow> ('u, 'p) uo_tcp_conn_evt_handlers \<Rightarrow> ('u, 'p) uo_tcp_conn" where
  "uo_tcp_conn_create_for_client sockfd client_user_data evt_handlers =
     \<lparr> tc_user_data = uo_hashtbl_create_at 0, tc_shared_user_data = client_user_data,
       tc_evt_handlers = evt_handlers, tc_rbuf = uo_buf_alloc UO_TCP_BUF_SIZE,
       tc_wbuf = uo_buf_alloc UO_TCP_BUF_SIZE, tc_last_recv_len = 0, tc_is_msg_fully_received = False,
       tc_sockfd = sockfd, tc_state = NUL \<rparr>"

text \<open>Opening clones the callback of the event and puts the connection on its stack.\<close>

definition uo_tcp_conn_open :: "('u, 'p) uo_tcp_conn \<Rightarrow> ('u, 'p, 'z) tcp_scheme \<Rightarrow> ('u, 'p, 'z) tcp_scheme" where
  "uo_tcp_conn_open c s =
     (let (ds, fs) = eh_after_open (tc_evt_handlers c)
      in s\<lparr> conn := Some c, cb_data := ds @ [TcpConn], cb_funcs := fs @ [Advance], phase := Running \<rparr>)"

section \<open>Messages with their length in front\<close>

text \<open>A 32-bit integer in network byte order.\<close>

definition htonl_bytes :: "32 word \<Rightarrow> string" where
  "htonl_bytes w = map (\<lambda>i. char_of (unat (drop_bit (24 - 8 * i) w) mod 256)) [0, 1, 2, 3]"

definition ntohl_bytes :: "string \<Rightarrow> nat" where
  "ntohl_bytes bs = foldl (\<lambda>n c. 256 * n + of_char c) 0 bs"

definition uo_tcp_conn_before_send_length_prefixed_msg ::
  "('u, 'p, 'z) tcp_scheme \<Rightarrow> ('u, 'p, 'z) tcp_scheme run" where
  "uo_tcp_conn_before_send_length_prefixed_msg s =
     run_bind (Some (the_conn s)) (\<lambda>c.
       let wbuf = tc_wbuf c;
           len = of_int (uo_buf_get_len_before_ptr wbuf) :: 32 word;
           wbuf = (if unat (of_int (uo_buf_get_len_after_ptr wbuf) :: 64 word) < 4
                   then uo_buf_realloc_2x wbuf else wbuf);
           wbuf = uo_buf_set_ptr_rel wbuf 4;
           msg = take (unat len) (bf_data wbuf)
       in if length msg < unat len \<or> None \<in> set msg then Some (Inl Uninitialised)
          else
            run_bind (Some (buf_store wbuf 4 (map the msg))) (\<lambda>wbuf.
            run_bind (Some (buf_store wbuf 0 (htonl_bytes len))) (\<lambda>wbuf.
              Some (Inr (s\<lparr> conn := Some (c\<lparr> tc_wbuf := wbuf \<rparr>) \<rparr>)))))"

definition uo_tcp_conn_after_recv_length_prefixed_msg ::
  "('u, 'p, 'z) tcp_scheme \<Rightarrow> ('u, 'p, 'z) tcp_scheme run" where
  "uo_tcp_conn_after_recv_length_prefixed_msg s =
     run_bind (Some (the_conn s)) (\<lambda>c.
       let rbuf = tc_rbuf c;
           len = unat (of_int (uo_buf_get_len_before_ptr rbuf) :: 32 word)
       in if len < 4 then Some (Inr (s\<lparr> conn := Some (uo_tcp_conn_next_close c) \<rparr>))
          else
            run_bind (Some (buf_text rbuf)) (\<lambda>text.
              let len = len - 4 in
              if ntohl_bytes (take 4 text) > len
              then Some (Inr (s\<lparr> conn := Some (uo_tcp_conn_next_recv c) \<rparr>))
              else
                run_bind (Some (buf_store rbuf 0 (take len (drop 4 text)))) (\<lambda>rbuf.
                  Some (Inr (s\<lparr> conn := Some (c\<lparr> tc_is_msg_fully_received := True,
                    tc_rbuf := uo_buf_set_ptr_rel rbuf (- 4) \<rparr>) \<rparr>)))))"

definition uo_tcp_conn_next_recv_cb_func :: "('u, 'p, 'z) tcp_scheme \<Rightarrow> ('u, 'p, 'z) tcp_scheme run" where
  "uo_tcp_conn_next_recv_cb_func s =
     run_bind (Some (the_conn s)) (\<lambda>c. Some (Inr (s\<lparr> conn := Some (uo_tcp_conn_next_recv c) \<rparr>)))"

definition uo_tcp_conn_next_send_cb_func :: "('u, 'p, 'z) tcp_scheme \<Rightarrow> ('u, 'p, 'z) tcp_scheme run" where
  "uo_tcp_conn_next_send_cb_func s =
     run_bind (Some (the_conn s)) (\<lambda>c. Some (Inr (s\<lparr> conn := Some (uo_tcp_conn_next_send c) \<rparr>)))"

definition uo_tcp_conn_next_close_cb_func :: "('u, 'p, 'z) tcp_scheme \<Rightarrow> ('u, 'p, 'z) tcp_scheme run" where
  "uo_tcp_conn_next_close_cb_func s =
     run_bind (Some (the_conn s)) (\<lambda>c. Some (Inr (s\<lparr> conn := Some (uo_tcp_conn_next_close c) \<rparr>)))"

text \<open>The handler with which a server learns of closed connections (\<^verbatim>\<open>uo_tcp_server.c\<close>).\<close>

definition server_after_close :: "('u, 'p, 'z) tcp_scheme \<Rightarrow> ('u, 'p, 'z) tcp_scheme run" where
  "server_after_close s =
     run_bind (Some (the_conn s)) (\<lambda>c. Some (Inr (s\<lparr> closing := closing s @ [tc_sockfd c] \<rparr>)))"

section \<open>Running the callback\<close>

primrec exec ::
  "('u \<Rightarrow> ('u, 'p, 'z) tcp_scheme \<Rightarrow> ('u, 'p, 'z) tcp_scheme run) \<Rightarrow> 'u conn_func
     \<Rightarrow> ('u, 'p, 'z) tcp_scheme \<Rightarrow> ('u, 'p, 'z) tcp_scheme run" where
  "exec usr After_close = uo_tcp_conn_after_close"
| "exec usr Close = uo_tcp_conn_close"
| "exec usr After_send = uo_tcp_conn_after_send"
| "exec usr Send = uo_tcp_conn_send"
| "exec usr Recv = uo_tcp_conn_recv"
| "exec usr Before_recv = uo_tcp_conn_before_recv"
| "exec usr Advance = uo_tcp_conn_advance NUL"
| "exec usr Before_send_length_prefixed_msg = uo_tcp_conn_before_send_length_prefixed_msg"
| "exec usr After_recv_length_prefixed_msg = uo_tcp_conn_after_recv_length_prefixed_msg"
| "exec usr Next_recv_cb_func = uo_tcp_conn_next_recv_cb_func"
| "exec usr Next_send_cb_func = uo_tcp_conn_next_send_cb_func"
| "exec usr Next_close_cb_func = uo_tcp_conn_next_close_cb_func"
| "exec usr Execute_io = uo_io_execute_io"
| "exec usr Server_after_close = server_after_close"
| "exec usr (Usr u) = usr u"

text \<open>\<^verbatim>\<open>uo_cb_invoke\<close>: the next function is taken off the list and called; without one the callback ends.\<close>

definition invoke ::
  "('u \<Rightarrow> ('u, 'p, 'z) tcp_scheme \<Rightarrow> ('u, 'p, 'z) tcp_scheme run) \<Rightarrow> ('u, 'p, 'z) tcp_scheme
     \<Rightarrow> ('u, 'p, 'z) tcp_scheme run" where
  "invoke usr s = (case cb_funcs s of
       [] \<Rightarrow> Some (Inr (s\<lparr> phase := Ended \<rparr>))
     | f # fs \<Rightarrow> exec usr f (s\<lparr> cb_funcs := fs \<rparr>))"

fun run_cb ::
  "('u \<Rightarrow> ('u, 'p, 'z) tcp_scheme \<Rightarrow> ('u, 'p, 'z) tcp_scheme run) \<Rightarrow> nat \<Rightarrow> ('u, 'p, 'z) tcp_scheme
     \<Rightarrow> ('u, 'p, 'z) tcp_scheme run" where
  "run_cb usr n s =
     (if phase s \<noteq> Running then Some (Inr s)
      else case n of 0 \<Rightarrow> None | Suc n \<Rightarrow> run_bind (invoke usr s) (run_cb usr n))"

declare run_cb.simps [simp del]

end
