(* ===== verification/Tcp_Flow.thy ===== *)
theory Tcp_Flow
  imports Tcp_Conn
begin

text \<open>
  How a connection behaves: the cycle of receiving and sending that a server runs, the closing of
  a connection, what happens when nothing more is requested of it, and messages with their
  length in front.
\<close>

section \<open>Steps of a run\<close>

definition leads ::
  "('u \<Rightarrow> ('u, 'p, 'z) tcp_scheme \<Rightarrow> ('u, 'p, 'z) tcp_scheme run) \<Rightarrow> ('u, 'p, 'z) tcp_scheme
     \<Rightarrow> ('u, 'p, 'z) tcp_scheme \<Rightarrow> bool" where
  "leads usr s s' \<longleftrightarrow> (\<exists>n. \<forall>k. run_cb usr (n + k) s = run_cb usr k s')"

lemma leads_refl: "leads usr s s"
  unfolding leads_def by (intro exI [of _ 0]) simp

lemma leads_trans [trans]: "leads usr s t \<Longrightarrow> leads usr t u \<Longrightarrow> leads usr s u"
  unfolding leads_def by (metis add.assoc)

lemma leads_step:
  assumes "phase s = Running" and "cb_funcs s = f # fs" and "exec usr f (s\<lparr> cb_funcs := fs \<rparr>) = Some (Inr s')"
  shows "leads usr s s'"
  unfolding leads_def using assms
  by (intro exI [of _ 1]) (simp add: run_cb.simps [of usr "Suc _" s] invoke_def)

lemma leads_stops: "leads usr s s' \<Longrightarrow> phase s' \<noteq> Running \<Longrightarrow> \<exists>n. run_cb usr n s = Some (Inr s')"
  unfolding leads_def by (metis run_cb.simps)

text \<open>A running state, given by the connection, the stack and the functions that are left.\<close>

definition on ::
  "('u, 'p, 'z) tcp_scheme \<Rightarrow> ('u, 'p) uo_tcp_conn \<Rightarrow> 'p cb_data list \<Rightarrow> 'u conn_func list \<Rightarrow> ('u, 'p, 'z) tcp_scheme" where
  "on s c ds fs = s\<lparr> conn := Some c, cb_data := ds, cb_funcs := fs, phase := Running \<rparr>"

lemma on_simps [simp]:
  "conn (on s c ds fs) = Some c" "cb_data (on s c ds fs) = ds" "cb_funcs (on s c ds fs) = fs"
  "phase (on s c ds fs) = Running" "sent (on s c ds fs) = sent s" "closes (on s c ds fs) = closes s"
  "closing (on s c ds fs) = closing s" "writes (on s c ds fs) = writes s" "ctls (on s c ds fs) = ctls s"
  "event (on s c ds fs) = event s"
  by (simp_all add: on_def)

lemma the_conn_on [simp]: "the_conn (on s c (TcpConn # ds) fs) = Inr c"
  by (simp add: the_conn_def)

lemma on_upds:
  "(on s c ds gs)\<lparr> cb_funcs := fs \<rparr> = on s c ds fs" "(on s c ds fs)\<lparr> conn := Some c' \<rparr> = on s c' ds fs"
  "(on s c es fs)\<lparr> cb_data := ds \<rparr> = on s c ds fs"
  "(on s c ds fs)\<lparr> sent := out, writes := ws \<rparr> = on (s\<lparr> sent := out, writes := ws \<rparr>) c ds fs"
  "(on s c ds fs)\<lparr> event := ev \<rparr> = on (s\<lparr> event := ev \<rparr>) c ds fs"
  "(on s c ds fs)\<lparr> ctls := oks \<rparr> = on (s\<lparr> ctls := oks \<rparr>) c ds fs"
  "(on s c ds fs)\<lparr> closes := fds \<rparr> = on (s\<lparr> closes := fds \<rparr>) c ds fs"
  "(on s c ds fs)\<lparr> closing := fds \<rparr> = on (s\<lparr> closing := fds \<rparr>) c ds fs"
  by (cases s; simp add: on_def)+

lemma on_step:
  assumes "exec usr f (on s c ds fs) = Some (Inr s')"
  shows "leads usr (on s c ds (f # fs)) s'"
  using assms by (intro leads_step [of _ f fs]) (simp_all add: on_upds)

text \<open>Functions of the client that work on the connection and leave its control to the library.\<close>

definition client_ok ::
  "('u \<Rightarrow> ('u, 'p, 'z) tcp_scheme \<Rightarrow> ('u, 'p, 'z) tcp_scheme run)
     \<Rightarrow> ('u \<Rightarrow> ('u, 'p) uo_tcp_conn \<Rightarrow> ('u, 'p) uo_tcp_conn) \<Rightarrow> bool" where
  "client_ok usr act \<longleftrightarrow>
     (\<forall>u s c. conn s = Some c \<longrightarrow> usr u s = Some (Inr (s\<lparr> conn := Some (act u c) \<rparr>)))
     \<and> (\<forall>u c. tc_evt_handlers (act u c) = tc_evt_handlers c \<and> tc_sockfd (act u c) = tc_sockfd c
          \<and> tc_state (act u c) = tc_state c)"

definition acts ::
  "('u \<Rightarrow> ('u, 'p) uo_tcp_conn \<Rightarrow> ('u, 'p) uo_tcp_conn) \<Rightarrow> 'u list \<Rightarrow> ('u, 'p) uo_tcp_conn \<Rightarrow> ('u, 'p) uo_tcp_conn" where
  "acts act us c = foldl (\<lambda>c u. act u c) c us"

lemma acts_simps [simp]: "acts act [] c = c" "acts act (u # us) c = acts act us (act u c)"
  by (simp_all add: acts_def)

lemma acts_keep:
  assumes "client_ok usr act"
  shows "tc_evt_handlers (acts act us c) = tc_evt_handlers c" "tc_sockfd (acts act us c) = tc_sockfd c"
    "tc_state (acts act us c) = tc_state c"
  using assms by (induction us arbitrary: c) (auto simp: client_ok_def)

lemma leads_users:
  assumes "client_ok usr act"
  shows "leads usr (on s c ds (map Usr us @ fs)) (on s (acts act us c) ds fs)"
proof (induction us arbitrary: c)
  case Nil
  then show ?case by (simp add: leads_refl)
next
  case (Cons u us)
  have "exec usr (Usr u) (on s c ds (map Usr us @ fs)) = Some (Inr (on s (act u c) ds (map Usr us @ fs)))"
    using assms by (simp add: client_ok_def on_upds)
  from leads_trans [OF on_step [OF this] Cons.IH] show ?case by simp
qed

lemma on_append: "cb_append (on s c ds fs) ([], gs) = on s c ds (fs @ gs)"
  by (simp add: on_def cb_append_def)

lemma leads_next_send:
  "leads usr (on s c (TcpConn # ds) (Next_send_cb_func # fs)) (on s (uo_tcp_conn_next_send c) (TcpConn # ds) fs)"
  by (rule on_step) (simp add: uo_tcp_conn_next_send_cb_func_def on_upds)

lemma leads_next_recv:
  "leads usr (on s c (TcpConn # ds) (Next_recv_cb_func # fs)) (on s (uo_tcp_conn_next_recv c) (TcpConn # ds) fs)"
  by (rule on_step) (simp add: uo_tcp_conn_next_recv_cb_func_def on_upds)

lemma leads_advance_send:
  assumes "tc_state c = CHR ''s''" and "eh_before_send (tc_evt_handlers c) = ([], hs)"
  shows "leads usr (on s c (TcpConn # ds) (Advance # fs)) (on s (c\<lparr> tc_state := NUL \<rparr>) (TcpConn # ds) (fs @ hs @ [Send]))"
  using assms by (intro on_step) (simp add: uo_tcp_conn_advance_def on_upds on_append)

lemma leads_advance_recv:
  assumes "tc_state c = CHR ''r''" and "eh_before_recv (tc_evt_handlers c) = ([], hs)"
  shows "leads usr (on s c (TcpConn # ds) (Advance # fs)) (on s (c\<lparr> tc_state := NUL \<rparr>) (TcpConn # ds) (fs @ hs @ [Before_recv]))"
  using assms by (intro on_step) (simp add: uo_tcp_conn_advance_def on_upds on_append)

lemma leads_advance_close:
  assumes "tc_state c = CHR ''c''" and "eh_before_close (tc_evt_handlers c) = ([], hs)"
  shows "leads usr (on s c (TcpConn # ds) (Advance # fs)) (on s (c\<lparr> tc_state := NUL \<rparr>) (TcpConn # ds) (fs @ hs @ [Close]))"
  using assms by (intro on_step) (simp add: uo_tcp_conn_advance_def on_upds on_append)

lemma leads_send:
  assumes "buf_rel (tc_wbuf c) t" and "send_loop (writes s) t (sent s) = Some (True, out, ws)"
    and "eh_after_send (tc_evt_handlers c) = ([], hs)"
  shows "leads usr (on s c (TcpConn # ds) (Send # fs))
    (on (s\<lparr> sent := out, writes := ws \<rparr>) c (TcpConn # ds) (fs @ hs @ [After_send, Advance]))"
  using assms by (intro on_step) (simp add: uo_tcp_conn_send_def buf_text_rel Let_def on_append on_upds)

lemma leads_after_send:
  "leads usr (on s c (TcpConn # ds) (After_send # fs))
    (on s (uo_tcp_conn_reset_evt_arg (c\<lparr> tc_rbuf := uo_buf_set_ptr_abs (tc_rbuf c) 0,
        tc_wbuf := uo_buf_set_ptr_abs (tc_wbuf c) 0 \<rparr>)) (TcpConn # ds) fs)"
  by (rule on_step) (simp add: uo_tcp_conn_after_send_def Let_def on_upds)

text \<open>
  Every write makes progress as long as none fails, and a whole message is written when the
  writes do not fail before.
\<close>

lemma send_loop_all:
  assumes "list_all (\<lambda>w. 0 < w) ws" and "length t \<le> length ws"
  shows "\<exists>ws'. send_loop ws t out = Some (True, out @ t, ws') \<and> suffix ws' ws"
  using assms
proof (induction ws arbitrary: t out)
  case Nil
  then show ?case by (simp add: send_loop.simps)
next
  case (Cons w ws)
  show ?case
  proof (cases "t = []")
    case True
    then show ?thesis by (simp add: send_loop.simps)
  next
    case False
    have "length (drop w t) \<le> length ws" using Cons.prems False by (cases w) auto
    with Cons.IH [of "drop w t" "out @ take w t"] Cons.prems(1) False show ?thesis
      by (subst send_loop.simps) (auto intro: suffix_ConsI)
  qed
qed

section \<open>Receiving\<close>

text \<open>A connection that waits for data has registered the room behind the position of its buffer.\<close>

definition waiting :: "('u, 'p, 'z) tcp_scheme \<Rightarrow> ('u, 'p) uo_tcp_conn \<Rightarrow> bool" where
  "waiting s c \<longleftrightarrow> conn s = Some c \<and> phase s = Waiting \<and> cb_funcs s = [Recv]
     \<and> cb_data s = [TcpConn, Epevt \<lparr> io_fd = tc_sockfd c, io_buf = bf_ptr (tc_rbuf c),
          io_len = nat (uo_buf_get_len_after_ptr (tc_rbuf c)) \<rparr>]"

lemma waiting_event:
  assumes "waiting s c"
  shows "uo_io_accept_async_io ev s = on (s\<lparr> event := Some ev \<rparr>) c
     [TcpConn, Epevt \<lparr> io_fd = tc_sockfd c, io_buf = bf_ptr (tc_rbuf c),
        io_len = nat (uo_buf_get_len_after_ptr (tc_rbuf c)) \<rparr>] [Execute_io, Recv]"
  using assms by (cases s) (simp add: waiting_def uo_io_accept_async_io_def cb_prepend_def on_def)

lemma leads_read:
  assumes "event s = Some (EPOLLIN (Some bs))" and "bs \<noteq> []" and "buf_store (tc_rbuf c) (io_buf ioop) bs = Inr rb"
  shows "leads usr (on s c [TcpConn, Epevt ioop] (Execute_io # fs))
    (on (s\<lparr> event := None \<rparr>) (c\<lparr> tc_rbuf := rb \<rparr>) [TcpConn, Num (length bs)] fs)"
  using assms by (intro on_step) (simp add: uo_io_execute_io_def cb_pop_def cb_push_def on_upds Let_def)

definition read_fails :: "io_event \<Rightarrow> bool" where
  "read_fails ev \<longleftrightarrow> ev \<in> {EPOLLIN None, EPOLLIN (Some []), EPOLLHUP, EPOLLOTHER}"

lemma leads_read_fails:
  assumes "event s = Some ev" and "read_fails ev"
  shows "\<exists>e. leads usr (on s c [TcpConn, Epevt ioop] (Execute_io # fs))
    (on (s\<lparr> event := None \<rparr>) c [TcpConn, IoErr e, Num 0] fs)"
proof -
  obtain e where "exec usr Execute_io (on s c [TcpConn, Epevt ioop] fs)
      = Some (Inr (on (s\<lparr> event := None \<rparr>) c [TcpConn, IoErr e, Num 0] fs))"
    using assms by (auto simp: read_fails_def uo_io_execute_io_def cb_pop_def cb_push_def io_failed_def on_upds Let_def)
  then show ?thesis by (blast intro: on_step)
qed

lemma leads_recv:
  assumes "n \<noteq> 0" and "eh_after_recv (tc_evt_handlers c) = ([], hs)"
  shows "leads usr (on s c [TcpConn, Num n] (Recv # fs))
    (on s (c\<lparr> tc_last_recv_len := n, tc_rbuf := uo_buf_set_ptr_rel (tc_rbuf c) (int n) \<rparr>) [TcpConn] (fs @ hs @ [Advance]))"
  using assms by (intro on_step) (simp add: uo_tcp_conn_recv_def cb_pop_def on_upds on_append Let_def)

lemma leads_recv_fails:
  "leads usr (on s c [TcpConn, IoErr e, Num 0] (Recv # fs)) (on s (uo_tcp_conn_next_close c) [TcpConn] (fs @ [Advance]))"
  by (rule on_step) (simp add: uo_tcp_conn_recv_def cb_pop_def on_upds on_append Let_def)

text \<open>What a connection is after it has received the bytes \<open>bs\<close>.\<close>

definition received :: "string \<Rightarrow> ('u, 'p) uo_tcp_conn \<Rightarrow> ('u, 'p) uo_tcp_conn" where
  "received bs c = c\<lparr> tc_last_recv_len := length bs,
     tc_rbuf := uo_buf_set_ptr_rel (projr (buf_store (tc_rbuf c) (bf_ptr (tc_rbuf c)) bs)) (int (length bs)) \<rparr>"

lemma leads_received:
  assumes "waiting s c" and "buf_rel (tc_rbuf c) r" and "bs \<noteq> []" and "length r + length bs \<le> bf_size (tc_rbuf c)"
    and "eh_after_recv (tc_evt_handlers c) = ([], hs)"
  shows "leads usr (uo_io_accept_async_io (EPOLLIN (Some bs)) s)
      (on (s\<lparr> event := None \<rparr>) (received bs c) [TcpConn] (hs @ [Advance]))"
    and "buf_rel (tc_rbuf (received bs c)) (r @ bs)"
proof -
  obtain rb where rb: "buf_store (tc_rbuf c) (bf_ptr (tc_rbuf c)) bs = Inr rb" "buf_rel rb r"
    "bf_size rb = bf_size (tc_rbuf c)" "take (length r + length bs) (bf_data rb) = map Some (r @ bs)"
    using buf_store_at_ptr [OF assms(2,4)] by blast
  show "buf_rel (tc_rbuf (received bs c)) (r @ bs)"
    using buf_rel_advance [OF rb(2,4)] rb(1,3) assms(4) by (simp add: received_def)
  let ?s = "s\<lparr> event := Some (EPOLLIN (Some bs)) \<rparr>"
  have "leads usr (uo_io_accept_async_io (EPOLLIN (Some bs)) s)
      (on (?s\<lparr> event := None \<rparr>) (c\<lparr> tc_rbuf := rb \<rparr>) [TcpConn, Num (length bs)] [Recv])"
    unfolding waiting_event [OF assms(1)] using assms(3) rb(1) by (intro leads_read) simp_all
  also have "leads usr \<dots> (on (?s\<lparr> event := None \<rparr>) (received bs c) [TcpConn] (hs @ [Advance]))"
    using leads_recv [of "length bs" "c\<lparr> tc_rbuf := rb \<rparr>" hs usr "?s\<lparr> event := None \<rparr>" "[]"] assms(3,5) rb(1)
    by (simp add: received_def)
  finally show "leads usr (uo_io_accept_async_io (EPOLLIN (Some bs)) s)
      (on (s\<lparr> event := None \<rparr>) (received bs c) [TcpConn] (hs @ [Advance]))" by simp
qed

text \<open>Waiting again: a buffer without room is doubled first.\<close>

lemma leads_before_recv:
  assumes rb: "buf_rel (tc_rbuf c) r" "0 < bf_size (tc_rbuf c)" "bf_size (tc_rbuf c) < 2 ^ 63" and "ctls s = True # oks"
  shows "\<exists>rb' s'. leads usr (on s c [TcpConn] [Before_recv]) s' \<and> waiting s' (c\<lparr> tc_rbuf := rb' \<rparr>) \<and> buf_rel rb' r
     \<and> sent s' = sent s \<and> closes s' = closes s \<and> writes s' = writes s \<and> ctls s' = oks \<and> length r < bf_size rb'
     \<and> bf_size (tc_rbuf c) \<le> bf_size rb' \<and> bf_size rb' \<le> 2 * bf_size (tc_rbuf c) \<and> tcp.more s' = tcp.more s"
proof -
  define rb' where "rb' = (if uo_buf_get_len_after_ptr (tc_rbuf c) = 0 then uo_buf_realloc_2x (tc_rbuf c) else tc_rbuf c)"
  have rel: "buf_rel rb' r" "length r < bf_size rb'" "bf_size rb' < 2 ^ 64" "bf_size (tc_rbuf c) \<le> bf_size rb'"
    "bf_size rb' \<le> 2 * bf_size (tc_rbuf c)"
    using rb buf_relD [OF rb(1)]
    by (auto simp: rb'_def uo_buf_realloc_2x_def uo_buf_get_size_def uo_buf_get_len_after_ptr_def
        uo_buf_realloc_def intro!: buf_rel_realloc [unfolded uo_buf_realloc_def])
  have room: "uo_buf_get_len_after_ptr rb' = int (bf_size rb' - length r)"
    using rel buf_relD(2) [OF rel(1)] by (simp add: uo_buf_get_len_after_ptr_def)
  then have u: "unat (of_int (uo_buf_get_len_after_ptr rb') :: 64 word) = nat (uo_buf_get_len_after_ptr rb')"
    using rel(3) unat_of_nat_64 [of "bf_size rb' - length r"] by simp
  let ?op = "\<lparr> io_fd = tc_sockfd c, io_buf = bf_ptr rb', io_len = nat (uo_buf_get_len_after_ptr rb') \<rparr>"
  let ?s = "(on (s\<lparr> ctls := oks \<rparr>) (c\<lparr> tc_rbuf := rb' \<rparr>) [TcpConn, Epevt ?op] [Recv])\<lparr> phase := Waiting \<rparr>"
  have pre: "cb_prepend (on s (c\<lparr> tc_rbuf := rb' \<rparr>) [TcpConn] []) (func Recv) = on s (c\<lparr> tc_rbuf := rb' \<rparr>) [TcpConn] [Recv]"
    by (simp add: cb_prepend_def on_upds)
  have "uo_io_read_async (tc_sockfd c) (bf_ptr rb') (nat (uo_buf_get_len_after_ptr rb'))
      (on s (c\<lparr> tc_rbuf := rb' \<rparr>) [TcpConn] [Recv]) = Some (Inr ?s)"
    using assms(4) room rel(2) by (simp add: uo_io_read_async_def Let_def cb_push_def on_upds)
  then have "exec usr Before_recv (on s c [TcpConn] []) = Some (Inr ?s)"
    by (simp add: uo_tcp_conn_before_recv_def Let_def rb'_def [symmetric] on_upds pre u uo_buf_get_ptr_def)
  from on_step [OF this] have "leads usr (on s c [TcpConn] [Before_recv]) ?s" .
  moreover have "waiting ?s (c\<lparr> tc_rbuf := rb' \<rparr>)" by (simp add: waiting_def)
  moreover have "sent ?s = sent s \<and> closes ?s = closes s \<and> writes ?s = writes s \<and> ctls ?s = oks \<and> tcp.more ?s = tcp.more s"
    by (simp add: on_def)
  ultimately show ?thesis using rel(1,2,4,5) by blast
qed

section \<open>The flows of a server\<close>

text \<open>
  The handlers of a server that receives, sends and repeats, with the functions of the client
  for each event in front of those of the library.
\<close>

definition flow_recv_send_repeat ::
  "'u list \<Rightarrow> 'u list \<Rightarrow> 'u list \<Rightarrow> ('u, 'p) uo_tcp_conn_evt_handlers \<Rightarrow> bool" where
  "flow_recv_send_repeat ar bs as hs \<longleftrightarrow>
     eh_before_recv hs = ([], []) \<and> eh_after_recv hs = ([], map Usr ar @ [Next_send_cb_func])
     \<and> eh_before_send hs = ([], map Usr bs) \<and> eh_after_send hs = ([], map Usr as @ [Next_recv_cb_func])"

lemma next_from_none:
  assumes "tc_state c = NUL"
  shows "uo_tcp_conn_next_send c = c\<lparr> tc_state := CHR ''s'' \<rparr>" "uo_tcp_conn_next_recv c = c\<lparr> tc_state := CHR ''r'' \<rparr>"
    "uo_tcp_conn_next_close c = c\<lparr> tc_state := CHR ''c'' \<rparr>"
  using assms by (simp_all add: uo_tcp_conn_next_send_def uo_tcp_conn_next_recv_def uo_tcp_conn_next_close_def
      uo_tcp_conn_next_state_def)

lemma state_again: "tc_state c = st \<Longrightarrow> c\<lparr> tc_state := st', tc_state := st \<rparr> = c"
  by simp

lemma leads_reply:
  assumes ok: "client_ok usr act" and fl: "flow_recv_send_repeat ar bs as (tc_evt_handlers c)"
    and st: "tc_state c = NUL" and t: "buf_rel (tc_wbuf (acts act (ar @ bs) c)) t"
    and w: "send_loop (writes s) t (sent s) = Some (True, out, ws)"
  shows "leads usr (on s c [TcpConn] (map Usr ar @ [Next_send_cb_func, Advance]))
    (on (s\<lparr> sent := out, writes := ws \<rparr>) (acts act (ar @ bs) c) [TcpConn]
      (map Usr as @ [Next_recv_cb_func, After_send, Advance]))"
proof -
  let ?c = "acts act ar c" and ?d = "acts act (ar @ bs) c"
  note K = acts_keep [OF ok]
  have F: "flow_recv_send_repeat ar bs as (tc_evt_handlers ?c)" "flow_recv_send_repeat ar bs as (tc_evt_handlers ?d)"
    "tc_state ?c = NUL" using K fl st by simp_all
  have "leads usr (on s c [TcpConn] (map Usr ar @ [Next_send_cb_func, Advance])) (on s ?c [TcpConn] [Next_send_cb_func, Advance])"
    by (rule leads_users [OF ok])
  also have "leads usr \<dots> (on s (?c\<lparr> tc_state := CHR ''s'' \<rparr>) [TcpConn] [Advance])"
    using leads_next_send [of usr s ?c "[]"] next_from_none [OF F(3)] by simp
  also have "leads usr \<dots> (on s ?c [TcpConn] (map Usr bs @ [Send]))"
    using leads_advance_send [of "?c\<lparr> tc_state := CHR ''s'' \<rparr>" "map Usr bs" usr s "[]" "[]"] F(1) state_again [OF F(3)]
    by (simp add: flow_recv_send_repeat_def)
  also have "leads usr \<dots> (on s ?d [TcpConn] [Send])"
    using leads_users [OF ok, of s ?c "[TcpConn]" bs "[Send]"] by (simp add: acts_def)
  also have "leads usr \<dots> (on (s\<lparr> sent := out, writes := ws \<rparr>) ?d [TcpConn]
      (map Usr as @ [Next_recv_cb_func, After_send, Advance]))"
    using leads_send [OF t w, of "map Usr as @ [Next_recv_cb_func]" usr "[]" "[]"] F(2)
    by (simp add: flow_recv_send_repeat_def)
  finally show ?thesis .
qed

text \<open>A connection that has sent and is to receive again empties its buffers and waits.\<close>

definition emptied :: "('u, 'p) uo_tcp_conn \<Rightarrow> ('u, 'p) uo_tcp_conn" where
  "emptied c = uo_tcp_conn_reset_evt_arg (c\<lparr> tc_rbuf := uo_buf_set_ptr_abs (tc_rbuf c) 0,
     tc_wbuf := uo_buf_set_ptr_abs (tc_wbuf c) 0, tc_state := NUL \<rparr>)"

lemma emptied_simps [simp]:
  "tc_evt_handlers (emptied c) = tc_evt_handlers c" "tc_state (emptied c) = NUL" "tc_sockfd (emptied c) = tc_sockfd c"
  "tc_user_data (emptied c) = tc_user_data c" "tc_shared_user_data (emptied c) = tc_shared_user_data c"
  "tc_wbuf (emptied c) = uo_buf_set_ptr_abs (tc_wbuf c) 0" "tc_rbuf (emptied c) = uo_buf_set_ptr_abs (tc_rbuf c) 0"
  by (simp_all add: emptied_def uo_tcp_conn_reset_evt_arg_def)

lemma leads_wait_again:
  assumes st: "tc_state c = CHR ''r''" and hs: "eh_before_recv (tc_evt_handlers c) = ([], [])"
    and rb: "length (bf_data (tc_rbuf c)) = bf_size (tc_rbuf c)" "0 < bf_size (tc_rbuf c)" "bf_size (tc_rbuf c) < 2 ^ 63"
    and ctl: "ctls s = True # oks"
  shows "\<exists>rb' s'. leads usr (on s c [TcpConn] [After_send, Advance]) s' \<and> waiting s' ((emptied c)\<lparr> tc_rbuf := rb' \<rparr>)
    \<and> buf_rel rb' [] \<and> 0 < bf_size rb' \<and> sent s' = sent s \<and> writes s' = writes s \<and> ctls s' = oks
    \<and> tcp.more s' = tcp.more s \<and> closes s' = closes s
    \<and> bf_size (tc_rbuf c) \<le> bf_size rb' \<and> bf_size rb' \<le> 2 * bf_size (tc_rbuf c)"
proof -
  let ?d = "emptied c"
  have rel: "buf_rel (tc_rbuf ?d) []" "0 < bf_size (tc_rbuf ?d)" "bf_size (tc_rbuf ?d) < 2 ^ 63"
    using rb by (simp_all add: buf_rel_def uo_buf_set_ptr_abs_def)
  have "leads usr (on s c [TcpConn] [After_send, Advance]) (on s (?d\<lparr> tc_state := CHR ''r'' \<rparr>) [TcpConn] [Advance])"
    using leads_after_send [of usr s c "[]" "[Advance]"] st
    by (cases c) (simp add: emptied_def uo_tcp_conn_reset_evt_arg_def)
  also have "leads usr \<dots> (on s ?d [TcpConn] [Before_recv])"
    using leads_advance_recv [of "?d\<lparr> tc_state := CHR ''r'' \<rparr>" "[]" usr s "[]" "[]"] hs state_again [of ?d NUL] by simp
  finally have 1: "leads usr (on s c [TcpConn] [After_send, Advance]) (on s ?d [TcpConn] [Before_recv])" .
  have "bf_size (tc_rbuf ?d) = bf_size (tc_rbuf c)" by (simp add: uo_buf_set_ptr_abs_def)
  with leads_before_recv [OF rel ctl, of usr] leads_trans [OF 1] show ?thesis by fastforce
qed

lemma leads_to_waiting:
  assumes ok: "client_ok usr act" and fl: "flow_recv_send_repeat ar bs as (tc_evt_handlers c)"
    and st: "tc_state c = NUL" and rb: "length (bf_data (tc_rbuf (acts act as c))) = bf_size (tc_rbuf (acts act as c))"
      "0 < bf_size (tc_rbuf (acts act as c))" "bf_size (tc_rbuf (acts act as c)) < 2 ^ 63"
    and ctl: "ctls s = True # oks"
  shows "\<exists>c' s'. leads usr (on s c [TcpConn] (map Usr as @ [Next_recv_cb_func, After_send, Advance])) s'
    \<and> waiting s' c' \<and> buf_rel (tc_rbuf c') [] \<and> bf_ptr (tc_wbuf c') = 0 \<and> tc_state c' = NUL
    \<and> tc_evt_handlers c' = tc_evt_handlers c \<and> sent s' = sent s"
proof -
  let ?c = "acts act as c"
  let ?d = "?c\<lparr> tc_state := CHR ''r'' \<rparr>"
  note K = acts_keep [OF ok, of as c]
  have F: "eh_before_recv (tc_evt_handlers ?d) = ([], [])" "tc_state ?c = NUL"
    using K fl st by (simp_all add: flow_recv_send_repeat_def)
  have "leads usr (on s c [TcpConn] (map Usr as @ [Next_recv_cb_func, After_send, Advance]))
      (on s ?c [TcpConn] [Next_recv_cb_func, After_send, Advance])" by (rule leads_users [OF ok])
  also have "leads usr \<dots> (on s ?d [TcpConn] [After_send, Advance])"
    using leads_next_recv [of usr s ?c "[]"] next_from_none [OF F(2)] by simp
  finally have 1: "leads usr (on s c [TcpConn] (map Usr as @ [Next_recv_cb_func, After_send, Advance]))
      (on s ?d [TcpConn] [After_send, Advance])" .
  obtain rb' s' where s': "leads usr (on s ?d [TcpConn] [After_send, Advance]) s'" "waiting s' ((emptied ?d)\<lparr> tc_rbuf := rb' \<rparr>)"
    "buf_rel rb' []" "sent s' = sent s"
    using leads_wait_again [OF _ F(1), of s oks usr] rb ctl by auto
  show ?thesis
    using leads_trans [OF 1 s'(1)] s'(2-4) K
    by (intro exI [of _ "(emptied ?d)\<lparr> tc_rbuf := rb' \<rparr>"] exI [of _ s']) (simp add: uo_buf_set_ptr_abs_def)
qed

section \<open>Lengths in network byte order\<close>

lemma unat_of_nat_32: "n < 2 ^ 32 \<Longrightarrow> unat (of_nat n :: 32 word) = n"
  by (simp add: unat_of_nat)

lemma htonl_length [simp]: "length (htonl_bytes w) = 4"
  by (simp add: htonl_bytes_def)

lemma ntohl_htonl: "ntohl_bytes (htonl_bytes w) = unat w"
proof -
  let ?n = "unat w"
  have lt: "?n < 2 ^ 32" using unsigned_less [of w] by simp
  have d: "unat (drop_bit k w) = ?n div 2 ^ k" for k
    unfolding unsigned_drop_bit_eq using lt by (simp add: drop_bit_eq_div take_bit_nat_eq_self)
  have s: "m = 256 * (m div 256) + m mod 256" for m :: nat by simp
  have 1: "?n div 65536 = 256 * (?n div 16777216) + ?n div 65536 mod 256" using s [of "?n div 65536"] by (simp add: div_mult2_eq [symmetric])
  have 2: "?n div 256 = 256 * (?n div 65536) + ?n div 256 mod 256" using s [of "?n div 256"] by (simp add: div_mult2_eq [symmetric])
  have 3: "?n div 16777216 mod 256 = ?n div 16777216" using lt by simp
  have "ntohl_bytes (htonl_bytes w) = 256 * (256 * (256 * (?n div 16777216 mod 256) + ?n div 65536 mod 256)
      + ?n div 256 mod 256) + ?n mod 256"
    by (simp add: ntohl_bytes_def htonl_bytes_def d)
  also have "\<dots> = 256 * (?n div 256) + ?n mod 256" unfolding 3 1 [symmetric] 2 [symmetric] ..
  finally show ?thesis by simp
qed

lemma buf_store_over:
  assumes "length (bf_data b) = bf_size b" and "i + length t \<le> bf_size b"
  shows "\<exists>b'. buf_store b (int i) t = Inr b' \<and> bf_size b' = bf_size b \<and> bf_ptr b' = bf_ptr b
           \<and> bf_data b' = take i (bf_data b) @ map Some t @ drop (i + length t) (bf_data b)"
  using assms by (auto simp: buf_store_def store_def)

lemma length_prefix_added:
  assumes "cb_data s = [TcpConn]" and "conn s = Some c" and "buf_rel (tc_wbuf c) m" and "4 \<le> bf_size (tc_wbuf c)"
    and "length m + 4 < 2 ^ 32"
  shows "\<exists>s1 c1. uo_tcp_conn_before_send_length_prefixed_msg s = Some (Inr s1) \<and> conn s1 = Some c1
    \<and> buf_rel (tc_wbuf c1) (htonl_bytes (of_nat (length m)) @ m)"
proof -
  let ?wb = "tc_wbuf c" and ?h = "htonl_bytes (of_nat (length m))"
  define wb where "wb = (if unat (of_int (uo_buf_get_len_after_ptr ?wb) :: 64 word) < 4 then uo_buf_realloc_2x ?wb else ?wb)"
  note B = buf_relD [OF assms(3)]
  have wb: "buf_rel wb m" "length m + 4 \<le> bf_size wb"
  proof -
    have la: "uo_buf_get_len_after_ptr ?wb = int (bf_size ?wb - length m)" using B by (simp add: uo_buf_get_len_after_ptr_def)
    have "4 \<le> bf_size ?wb - length m" if "\<not> unat (of_nat (bf_size ?wb - length m) :: 64 word) < 4"
      using that mod_less_eq_dividend [of "bf_size ?wb - length m" "2 ^ 64"] by (simp add: unat_of_nat)
    then show "buf_rel wb m" "length m + 4 \<le> bf_size wb"
      using B assms(3,4) la
      by (auto simp: wb_def uo_buf_realloc_2x_def uo_buf_get_size_def uo_buf_realloc_def
          intro!: buf_rel_realloc [unfolded uo_buf_realloc_def] split: if_splits)
  qed
  have u: "unat (of_int (uo_buf_get_len_before_ptr ?wb) :: 32 word) = length m"
    using assms(5) B(2) by (simp add: uo_buf_get_len_before_ptr_def unat_of_nat_32)
  have len: "(of_int (uo_buf_get_len_before_ptr ?wb) :: 32 word) = of_nat (length m)"
    using B(2) by (simp add: uo_buf_get_len_before_ptr_def)
  have tc: "the_conn s = Inr c" using assms(1,2) by (simp add: the_conn_def)
  let ?b0 = "uo_buf_set_ptr_rel wb 4"
  have b0: "bf_data ?b0 = bf_data wb" "bf_size ?b0 = bf_size wb" "bf_ptr ?b0 = int (length m + 4)"
    using buf_relD(2) [OF wb(1)] by (simp_all add: uo_buf_set_ptr_rel_def)
  note W = buf_relD [OF wb(1)]
  obtain b1 where b1: "buf_store ?b0 (int 4) m = Inr b1" "bf_size b1 = bf_size wb" "bf_ptr b1 = int (length m + 4)"
    "bf_data b1 = take 4 (bf_data wb) @ map Some m @ drop (4 + length m) (bf_data wb)"
    using buf_store_over [of ?b0 4 m] W(1) wb(2) b0 by auto
  have l1: "length (bf_data b1) = bf_size b1" using b1(2,4) W(1) wb(2) by simp
  obtain b2 where b2: "buf_store b1 (int 0) ?h = Inr b2" "bf_size b2 = bf_size wb" "bf_ptr b2 = int (length m + 4)"
    "bf_data b2 = map Some ?h @ drop 4 (bf_data b1)"
    using buf_store_over [of b1 0 ?h] l1 b1(2,3) wb(2) by auto
  have "drop 4 (bf_data b1) = map Some m @ drop (4 + length m) (bf_data wb)" using b1(4) W(1) wb(2) by simp
  then have "buf_rel b2 (?h @ m)" using b2 l1 b1(2) wb(2) W(1) by (simp add: buf_rel_def)
  moreover have "uo_tcp_conn_before_send_length_prefixed_msg s = Some (Inr (s\<lparr> conn := Some (c\<lparr> tc_wbuf := b2 \<rparr>) \<rparr>))"
    using W(1,4) wb(2) b1(1) b2(1)
    unfolding uo_tcp_conn_before_send_length_prefixed_msg_def tc run_bind_simps Let_def wb_def [symmetric] u len b0(1)
    by (simp add: comp_def u [unfolded len])
  ultimately show ?thesis by (intro exI [of _ "s\<lparr> conn := Some (c\<lparr> tc_wbuf := b2 \<rparr>) \<rparr>"]) simp
qed

lemma length_prefix_removed:
  assumes "cb_data r = [TcpConn]" and "conn r = Some d" and "buf_rel (tc_rbuf d) (h @ m)" and "length h = 4"
    and "ntohl_bytes h = length m" and "length m + 4 < 2 ^ 32"
  shows "\<exists>r' d'. uo_tcp_conn_after_recv_length_prefixed_msg r = Some (Inr r') \<and> conn r' = Some d'
    \<and> buf_rel (tc_rbuf d') m \<and> tc_is_msg_fully_received d'"
proof -
  let ?rb = "tc_rbuf d"
  note B = buf_relD [OF assms(3)]
  have u: "unat (of_int (uo_buf_get_len_before_ptr ?rb) :: 32 word) = length m + 4"
    using assms(4,6) B(2) unat_of_nat_32 [of "length m + 4"] by (simp add: uo_buf_get_len_before_ptr_def add.commute)
  obtain b1 where b1: "buf_store ?rb (int 0) m = Inr b1" "bf_size b1 = bf_size ?rb" "bf_ptr b1 = bf_ptr ?rb"
    "bf_data b1 = map Some m @ drop (length m) (bf_data ?rb)"
    using buf_store_over [of ?rb 0 m] B(1,3) by auto
  have "buf_rel (uo_buf_set_ptr_rel b1 (- 4)) m"
    using b1 B assms(4) by (simp add: buf_rel_def uo_buf_set_ptr_rel_def)
  moreover have "uo_tcp_conn_after_recv_length_prefixed_msg r = Some (Inr (r\<lparr> conn := Some
      (d\<lparr> tc_is_msg_fully_received := True, tc_rbuf := uo_buf_set_ptr_rel b1 (- 4) \<rparr>) \<rparr>))"
    using assms(1,2,4,5) b1(1) buf_text_rel [OF assms(3)]
    by (simp add: uo_tcp_conn_after_recv_length_prefixed_msg_def the_conn_def Let_def u)
  ultimately show ?thesis by auto
qed

section \<open>Properties\<close>

text \<open>
  C10: a server that receives, sends and repeats answers every request. When data arrives on a
  waiting connection, the functions of the client for the received data and before sending
  are run in order on a receive buffer that holds exactly what arrived; then the whole content
  of the send buffer goes to the socket, however the writes split it, both buffers are empty
  again and the connection waits for the next request.
\<close>

theorem uo_tcp_conn_answers:
  assumes "client_ok usr act" and "waiting s c" and "flow_recv_send_repeat ar bs as (tc_evt_handlers c)"
    and "tc_state c = NUL" and "buf_rel (tc_rbuf c) []" and "req \<noteq> []" and "length req \<le> bf_size (tc_rbuf c)"
    and "buf_rel (tc_wbuf (acts act (ar @ bs) (received req c))) reply"
    and "list_all (\<lambda>w. 0 < w) (writes s)" and "length reply \<le> length (writes s)" and "ctls s = True # oks"
    and "let rb = tc_rbuf (acts act (ar @ bs @ as) (received req c))
         in length (bf_data rb) = bf_size rb \<and> 0 < bf_size rb \<and> bf_size rb < 2 ^ 63"
  shows "buf_rel (tc_rbuf (received req c)) req
    \<and> (\<exists>n s' c'. run_cb usr n (uo_io_accept_async_io (EPOLLIN (Some req)) s) = Some (Inr s')
        \<and> sent s' = sent s @ reply \<and> waiting s' c' \<and> buf_rel (tc_rbuf c') [] \<and> bf_ptr (tc_wbuf c') = 0
        \<and> tc_state c' = NUL \<and> tc_evt_handlers c' = tc_evt_handlers c)"
proof -
  let ?c = "received req c" and ?s = "s\<lparr> event := None \<rparr>" and ?f = "[Next_recv_cb_func, After_send, Advance]"
  let ?d = "acts act (ar @ bs) ?c"
  have c: "tc_evt_handlers ?c = tc_evt_handlers c" "tc_state ?c = NUL" using assms(4) by (simp_all add: received_def)
  have d: "tc_evt_handlers ?d = tc_evt_handlers c" "tc_state ?d = NUL" using acts_keep [OF assms(1), of "ar @ bs" ?c] c by simp_all
  have hs: "eh_after_recv (tc_evt_handlers c) = ([], map Usr ar @ [Next_send_cb_func])"
    using assms(3) by (simp add: flow_recv_send_repeat_def)
  have rcv: "leads usr (uo_io_accept_async_io (EPOLLIN (Some req)) s)
      (on ?s ?c [TcpConn] (map Usr ar @ [Next_send_cb_func, Advance]))" "buf_rel (tc_rbuf ?c) req"
    using leads_received [OF assms(2,5,6) _ hs] assms(7) by simp_all
  obtain ws where ws: "send_loop (writes ?s) reply (sent ?s) = Some (True, sent s @ reply, ws)"
    using send_loop_all [OF assms(9,10), of "sent s"] by auto
  let ?t = "?s\<lparr> sent := sent s @ reply, writes := ws \<rparr>"
  note rcv(1)
  also have "leads usr (on ?s ?c [TcpConn] (map Usr ar @ [Next_send_cb_func, Advance])) (on ?t ?d [TcpConn] (map Usr as @ ?f))"
    using assms(3) c by (intro leads_reply [OF assms(1) _ c(2) assms(8) ws]) simp
  finally have 1: "leads usr (uo_io_accept_async_io (EPOLLIN (Some req)) s) (on ?t ?d [TcpConn] (map Usr as @ ?f))" .
  have "acts act as ?d = acts act (ar @ bs @ as) ?c" by (simp add: acts_def)
  then obtain c' s' where s': "leads usr (on ?t ?d [TcpConn] (map Usr as @ ?f)) s'" "waiting s' c'"
    "buf_rel (tc_rbuf c') []" "bf_ptr (tc_wbuf c') = 0" "tc_state c' = NUL" "tc_evt_handlers c' = tc_evt_handlers ?d"
    "sent s' = sent ?t"
    using leads_to_waiting [OF assms(1) _ d(2), of ar bs as ?t oks] assms(3,11,12) d(1) unfolding Let_def by auto
  obtain n where "run_cb usr n (uo_io_accept_async_io (EPOLLIN (Some req)) s) = Some (Inr s')"
    using leads_stops [OF leads_trans [OF 1 s'(1)]] s'(2) by (auto simp: waiting_def)
  with rcv(2) s' d(1) show ?thesis by auto
qed

text \<open>A server that sends back what it receives, for the witnesses.\<close>

definition echo :: "unit \<Rightarrow> (unit, unit) tcp \<Rightarrow> (unit, unit) tcp run" where
  "echo u s = (case conn s of None \<Rightarrow> Some (Inl UseAfterFree)
     | Some c \<Rightarrow> Some (Inr (s\<lparr> conn := Some (c\<lparr> tc_wbuf := tc_rbuf c \<rparr>) \<rparr>)))"

definition echo_handlers :: "(unit, unit) uo_tcp_conn_evt_handlers" where
  "echo_handlers = \<lparr> eh_after_open = ([], [Next_recv_cb_func]), eh_before_recv = ([], []),
     eh_after_recv = ([], [Usr (), Next_send_cb_func]), eh_before_send = ([], []),
     eh_after_send = ([], [Next_recv_cb_func]), eh_before_close = ([], []), eh_after_close = ([], [Server_after_close]) \<rparr>"

definition echo_conn :: "(unit, unit) uo_tcp_conn" where
  "echo_conn = uo_tcp_conn_create_for_server 7 (uo_hashtbl_create_at 0) echo_handlers"

definition echo_start :: "nat list \<Rightarrow> bool list \<Rightarrow> (unit, unit) tcp" where
  "echo_start ws oks = uo_tcp_conn_open echo_conn \<lparr> conn = None, cb_data = [], cb_funcs = [], phase = Ended, sent = [],
     closes = [], closing = [], writes = ws, ctls = oks, event = None \<rparr>"

lemma echo_ok: "client_ok echo (\<lambda>u c. c\<lparr> tc_wbuf := tc_rbuf c \<rparr>)"
  by (simp add: client_ok_def echo_def)

lemma echo_waits:
  "\<exists>s c. run_cb echo 4 (echo_start ws (True # oks)) = Some (Inr s) \<and> waiting s c \<and> tc_evt_handlers c = echo_handlers
     \<and> tc_state c = NUL \<and> buf_rel (tc_rbuf c) [] \<and> bf_size (tc_rbuf c) = 0x200 \<and> tc_sockfd c = 7
     \<and> sent s = [] \<and> closes s = [] \<and> closing s = [] \<and> writes s = ws \<and> ctls s = oks"
proof -
  define c1 where "c1 = echo_conn\<lparr> tc_state := CHR ''r'' \<rparr>"
  define e :: "(unit, unit) tcp" where "e = \<lparr> conn = None, cb_data = [], cb_funcs = [], phase = Ended, sent = [], closes = [], closing = [],
     writes = ws, ctls = True # oks, event = None \<rparr>"
  have c: "tc_state echo_conn = NUL" "tc_evt_handlers echo_conn = echo_handlers"
    by (simp_all add: echo_conn_def uo_tcp_conn_create_for_server_def)
  have start: "echo_start ws (True # oks) = on e echo_conn [TcpConn] [Next_recv_cb_func, Advance]"
    by (simp add: echo_start_def uo_tcp_conn_open_def c echo_handlers_def on_def e_def)
  have 1: "invoke echo (on e echo_conn [TcpConn] [Next_recv_cb_func, Advance]) = Some (Inr (on e c1 [TcpConn] [Advance]))"
    by (simp add: invoke_def on_upds uo_tcp_conn_next_recv_cb_func_def next_from_none [OF c(1)] c1_def)
  have 2: "invoke echo (on e c1 [TcpConn] [Advance]) = Some (Inr (on e echo_conn [TcpConn] [Before_recv]))"
    using state_again [OF c(1)]
    by (simp add: invoke_def on_upds uo_tcp_conn_advance_def c1_def c echo_handlers_def on_append Let_def)
  let ?op = "Epevt \<lparr> io_fd = 7, io_buf = 0, io_len = 0x200 \<rparr>"
  let ?s = "(on (e\<lparr> ctls := oks \<rparr>) echo_conn [TcpConn, ?op] [Recv])\<lparr> phase := Waiting \<rparr>"
  have room: "uo_buf_get_len_after_ptr (tc_rbuf echo_conn) = 0x200" "bf_ptr (tc_rbuf echo_conn) = 0" "tc_sockfd echo_conn = 7"
    by (simp_all add: echo_conn_def uo_tcp_conn_create_for_server_def uo_buf_alloc_def UO_TCP_BUF_SIZE_def uo_buf_get_len_after_ptr_def)
  have 3: "invoke echo (on e echo_conn [TcpConn] [Before_recv]) = Some (Inr ?s)"
    using room by (simp add: invoke_def on_upds uo_tcp_conn_before_recv_def Let_def cb_prepend_def uo_io_read_async_def
        uo_buf_get_ptr_def cb_push_def e_def)
  have "run_cb echo 4 (echo_start ws (True # oks)) = Some (Inr ?s)"
    unfolding start by (simp add: run_cb.simps eval_nat_numeral 1 2 3)
  moreover have "waiting ?s echo_conn" using room by (simp add: waiting_def)
  moreover have "buf_rel (tc_rbuf echo_conn) []" "bf_size (tc_rbuf echo_conn) = 0x200"
    by (simp_all add: echo_conn_def uo_tcp_conn_create_for_server_def buf_rel_alloc) (simp add: uo_buf_alloc_def UO_TCP_BUF_SIZE_def)
  ultimately show ?thesis using c room(3) by (intro exI [of _ ?s] exI [of _ echo_conn]) (simp add: on_def e_def)
qed

theorem uo_tcp_conn_answers_witness:
  "\<exists>s s' n. run_cb echo 4 (echo_start [1, 5, 1, 1] [True, True]) = Some (Inr s)
     \<and> run_cb echo n (uo_io_accept_async_io (EPOLLIN (Some ''ping'')) s) = Some (Inr s') \<and> sent s' = ''ping''
     \<and> phase s' = Waiting"
proof -
  obtain s c where s: "run_cb echo 4 (echo_start [1, 5, 1, 1] [True, True]) = Some (Inr s)" "waiting s c"
    "tc_evt_handlers c = echo_handlers" "tc_state c = NUL" "buf_rel (tc_rbuf c) []" "bf_size (tc_rbuf c) = 0x200"
    "sent s = []" "writes s = [1, 5, 1, 1]" "ctls s = [True]" using echo_waits by blast
  have fl: "flow_recv_send_repeat [()] [] [] (tc_evt_handlers c)" by (simp add: s(3) flow_recv_send_repeat_def echo_handlers_def)
  have rb: "buf_rel (tc_rbuf (received ''ping'' c)) ''ping''"
    using leads_received(2) [OF s(2,5)] s(3,6) by (simp add: echo_handlers_def)
  have size: "bf_size (tc_rbuf (received ''ping'' c)) = 0x200" using s(6)
    by (auto simp: received_def uo_buf_set_ptr_rel_def buf_store_def store_def buf_relD [OF s(5)])
  have "buf_rel (tc_rbuf (received ''ping'' c)) ''ping'' \<and> (\<exists>n s' c'.
      run_cb echo n (uo_io_accept_async_io (EPOLLIN (Some ''ping'')) s) = Some (Inr s')
      \<and> sent s' = sent s @ ''ping'' \<and> waiting s' c' \<and> buf_rel (tc_rbuf c') [] \<and> bf_ptr (tc_wbuf c') = 0
      \<and> tc_state c' = NUL \<and> tc_evt_handlers c' = tc_evt_handlers c)"
    by (rule uo_tcp_conn_answers [OF echo_ok s(2) fl s(4,5), where oks = "[]"])
       (use s(6,8,9) rb buf_relD(1) [OF rb] size in \<open>simp_all\<close>)
  then show ?thesis using s(1,7) by (auto simp: waiting_def)
qed

text \<open>
  C38: when the peer closes the connection or reading fails, the functions of the client for
  the closing are run, the connection is freed, and the server is told its descriptor. The
  descriptor is closed twice, and the server hears of it between the two: a descriptor that is
  opened anew in the meantime is closed by the second.
\<close>

theorem uo_tcp_conn_closes:
  assumes "client_ok usr act" and "waiting s c" and "read_fails ev" and "tc_state c = NUL"
    and "eh_before_close (tc_evt_handlers c) = ([], map Usr bc)"
    and "eh_after_close (tc_evt_handlers c) = ([], Server_after_close # map Usr ac)"
  shows "\<exists>n s'. run_cb usr n (uo_io_accept_async_io ev s) = Some (Inr s') \<and> phase s' = Ended \<and> conn s' = None
    \<and> closes s' = closes s @ [tc_sockfd c, tc_sockfd c] \<and> closing s' = closing s @ [tc_sockfd c] \<and> sent s' = sent s"
proof -
  let ?e = "s\<lparr> event := None \<rparr>" and ?c = "acts act bc c" and ?fd = "tc_sockfd c"
  let ?t = "?e\<lparr> closes := closes s @ [?fd] \<rparr>" and ?u = "?e\<lparr> closes := closes s @ [?fd], closing := closing s @ [?fd] \<rparr>"
  note K = acts_keep [OF assms(1)]
  obtain e where "leads usr (uo_io_accept_async_io ev s) (on ?e c [TcpConn, IoErr e, Num 0] [Recv])"
    using leads_read_fails [of "s\<lparr> event := Some ev \<rparr>" ev] assms(3) unfolding waiting_event [OF assms(2)] by fastforce
  also have "leads usr \<dots> (on ?e (c\<lparr> tc_state := CHR ''c'' \<rparr>) [TcpConn] [Advance])"
    using leads_recv_fails [of usr ?e c e "[]"] next_from_none(3) [OF assms(4)] by simp
  also have "leads usr \<dots> (on ?e c [TcpConn] (map Usr bc @ [Close]))"
    using leads_advance_close [of "c\<lparr> tc_state := CHR ''c'' \<rparr>" "map Usr bc" usr ?e "[]" "[]"] assms(5) state_again [OF assms(4)]
    by simp
  also have "leads usr \<dots> (on ?e ?c [TcpConn] [Close])" by (rule leads_users [OF assms(1)])
  also have "leads usr \<dots> (on ?t ?c [TcpConn] (Server_after_close # map Usr ac @ [After_close]))"
    using assms(6) K by (intro on_step) (simp add: uo_tcp_conn_close_def on_upds on_append Let_def)
  also have "leads usr \<dots> (on ?u ?c [TcpConn] (map Usr ac @ [After_close]))"
    using K by (intro on_step) (simp add: server_after_close_def on_upds)
  also have "leads usr \<dots> (on ?u (acts act ac ?c) [TcpConn] [After_close])" by (rule leads_users [OF assms(1)])
  also have "leads usr \<dots> (uo_tcp_conn_destroy (on ?u (acts act ac ?c) [TcpConn] []) (acts act ac ?c))"
    by (intro on_step) (simp add: uo_tcp_conn_after_close_def)
  finally obtain n where n: "run_cb usr (n + Suc k) (uo_io_accept_async_io ev s)
      = run_cb usr (Suc k) (uo_tcp_conn_destroy (on ?u (acts act ac ?c) [TcpConn] []) (acts act ac ?c))" for k
    unfolding leads_def by blast
  let ?w = "(uo_tcp_conn_destroy (on ?u (acts act ac ?c) [TcpConn] []) (acts act ac ?c))\<lparr> phase := Ended \<rparr>"
  have "run_cb usr (Suc 0) (uo_tcp_conn_destroy (on ?u (acts act ac ?c) [TcpConn] []) (acts act ac ?c)) = Some (Inr ?w)"
    by (simp add: run_cb.simps invoke_def uo_tcp_conn_destroy_def)
  with n [of 0] have "run_cb usr (n + Suc 0) (uo_io_accept_async_io ev s) = Some (Inr ?w)" by simp
  moreover have "phase ?w = Ended \<and> conn ?w = None \<and> closes ?w = closes s @ [?fd, ?fd] \<and> closing ?w = closing s @ [?fd]
      \<and> sent ?w = sent s" using K by (simp add: uo_tcp_conn_destroy_def)
  ultimately show ?thesis by blast
qed

theorem uo_tcp_conn_closes_witness:
  "\<exists>s n s'. run_cb echo 4 (echo_start [] [True]) = Some (Inr s)
     \<and> run_cb echo n (uo_io_accept_async_io (EPOLLIN (Some [])) s) = Some (Inr s') \<and> conn s' = None
     \<and> closes s' = [7, 7] \<and> closing s' = [7]"
proof -
  obtain s c where s: "run_cb echo 4 (echo_start [] [True]) = Some (Inr s)" "waiting s c"
    "tc_evt_handlers c = echo_handlers" "tc_state c = NUL" "tc_sockfd c = 7" "closes s = []" "closing s = []"
    using echo_waits [of "[]" "[]"] by blast
  have "read_fails (EPOLLIN (Some []))" by (simp add: read_fails_def)
  from uo_tcp_conn_closes [OF echo_ok s(2) this s(4), of "[]" "[]"] s show ?thesis by (auto simp: echo_handlers_def)
qed

text \<open>
  A connection for which nothing is requested before its functions have run is lost. It is
  marked idle and its callback ends; a later request from any thread only changes the mark,
  since the second exchange succeeds and its success is taken for a failure: nothing runs on the
  connection again.
\<close>

theorem uo_tcp_conn_idle_is_lost:
  assumes "tc_state c = NUL" and "ds = TcpConn # ds'"
  shows "\<exists>s'. run_cb usr 2 (on s c ds [Advance]) = Some (Inr s') \<and> phase s' = Ended
    \<and> conn s' = Some (c\<lparr> tc_state := CHR ''i'' \<rparr>) \<and> closes s' = closes s
    \<and> (\<forall>st. uo_tcp_conn_next_state (CHR ''i'') (c\<lparr> tc_state := CHR ''i'' \<rparr>) st = (False, c\<lparr> tc_state := st \<rparr>))"
  using assms
  by (simp add: run_cb.simps eval_nat_numeral invoke_def on_upds uo_tcp_conn_advance_def Let_def uo_tcp_conn_next_state_def)

theorem uo_tcp_conn_idle_is_lost_witness:
  "\<exists>s'. run_cb echo 2 (on (echo_start [] []) echo_conn [TcpConn] [Advance]) = Some (Inr s') \<and> phase s' = Ended
    \<and> conn s' = Some (echo_conn\<lparr> tc_state := CHR ''i'' \<rparr>)
    \<and> uo_tcp_conn_next_state (CHR ''i'') (echo_conn\<lparr> tc_state := CHR ''i'' \<rparr>) (CHR ''r'')
      = (False, echo_conn\<lparr> tc_state := CHR ''r'' \<rparr>)"
  using uo_tcp_conn_idle_is_lost [of echo_conn "[TcpConn]" "[]" echo "echo_start [] []"]
  by (auto simp: echo_conn_def uo_tcp_conn_create_for_server_def)

text \<open>
  A connection whose write fails is never closed: the function that sends asks for the
  closing but does not advance the connection, so the callback ends, with the connection
  neither closed nor freed nor reported to the server. What it takes off the stack as an error
  code is the connection itself, since a write that fails at once pushes no error code.
\<close>

theorem uo_tcp_conn_send_fails:
  assumes "tc_state c = NUL" and "buf_rel (tc_wbuf c) t" and "send_loop (writes s) t (sent s) = Some (False, out, ws)"
  shows "\<exists>s'. run_cb usr 2 (on s c [TcpConn] [Send]) = Some (Inr s') \<and> phase s' = Ended \<and> cb_data s' = []
    \<and> conn s' = Some (c\<lparr> tc_state := CHR ''c'' \<rparr>) \<and> closes s' = closes s \<and> closing s' = closing s"
  using assms
  by (simp add: run_cb.simps eval_nat_numeral invoke_def on_upds uo_tcp_conn_send_def buf_text_rel Let_def cb_pop_def
      next_from_none)

theorem uo_tcp_conn_send_fails_witness:
  "\<exists>b s'. uo_buf_printf_append (uo_buf_alloc 8) ''ab'' = Inr (2, b)
    \<and> run_cb echo 2 (on (echo_start [1, 0] []) (echo_conn\<lparr> tc_wbuf := b \<rparr>) [TcpConn] [Send]) = Some (Inr s')
    \<and> phase s' = Ended \<and> cb_data s' = [] \<and> closes s' = []"
proof -
  obtain b where b: "uo_buf_printf_append (uo_buf_alloc 8) ''ab'' = Inr (2, b)" "buf_rel b ''ab''"
    using buf_rel_printf [OF buf_rel_alloc, of "''ab''" 8] by auto
  have sl: "send_loop (writes (echo_start [1, 0] [])) ''ab'' (sent (echo_start [1, 0] [])) = Some (False, ''a'', [])"
    by (simp add: echo_start_def uo_tcp_conn_open_def split_beta send_loop.simps)
  have "tc_state (echo_conn\<lparr> tc_wbuf := b \<rparr>) = NUL" "closes (echo_start [1, 0] []) = []"
    by (simp_all add: echo_conn_def uo_tcp_conn_create_for_server_def echo_start_def uo_tcp_conn_open_def split_beta)
  with uo_tcp_conn_send_fails [OF this(1) _ sl, of echo] b show ?thesis by auto
qed

text \<open>
  C39: messages with their length in front survive the connection: what the sender's handler
  makes of a message in its send buffer is, once it has arrived completely, turned back into
  the message in the receiver's buffer, and marked as complete. As long as a part of it is
  missing, but the length is there, the receiver asks for more and keeps what it has.
\<close>

theorem uo_tcp_length_prefix_roundtrip:
  assumes "cb_data s = [TcpConn]" and "conn s = Some c" and "buf_rel (tc_wbuf c) m" and "4 \<le> bf_size (tc_wbuf c)"
    and "length m + 4 < 2 ^ 32"
  shows "\<exists>s1 c1 w. uo_tcp_conn_before_send_length_prefixed_msg s = Some (Inr s1) \<and> conn s1 = Some c1
    \<and> buf_rel (tc_wbuf c1) w \<and> length w = length m + 4
    \<and> (\<forall>r d. cb_data r = [TcpConn] \<longrightarrow> conn r = Some d \<longrightarrow> buf_rel (tc_rbuf d) w \<longrightarrow>
         (\<exists>r' d'. uo_tcp_conn_after_recv_length_prefixed_msg r = Some (Inr r') \<and> conn r' = Some d'
            \<and> buf_rel (tc_rbuf d') m \<and> tc_is_msg_fully_received d'))
    \<and> (\<forall>r d v. cb_data r = [TcpConn] \<longrightarrow> conn r = Some d \<longrightarrow> strict_prefix v w \<longrightarrow> 4 \<le> length v
         \<longrightarrow> buf_rel (tc_rbuf d) v \<longrightarrow>
         uo_tcp_conn_after_recv_length_prefixed_msg r = Some (Inr (r\<lparr> conn := Some (uo_tcp_conn_next_recv d) \<rparr>)))"
proof -
  define w where "w = htonl_bytes (of_nat (length m)) @ m"
  have u: "unat (of_nat (length m) :: 32 word) = length m" using assms(5) by (simp add: unat_of_nat_32)
  have nt: "ntohl_bytes (htonl_bytes (of_nat (length m))) = length m" by (simp add: ntohl_htonl u)
  obtain s1 c1 where s1: "uo_tcp_conn_before_send_length_prefixed_msg s = Some (Inr s1)" "conn s1 = Some c1"
    "buf_rel (tc_wbuf c1) w" using length_prefix_added [OF assms] unfolding w_def by blast
  have a: "\<exists>r' d'. uo_tcp_conn_after_recv_length_prefixed_msg r = Some (Inr r') \<and> conn r' = Some d'
            \<and> buf_rel (tc_rbuf d') m \<and> tc_is_msg_fully_received d'"
    if "cb_data r = [TcpConn]" "conn r = Some d" "buf_rel (tc_rbuf d) w" for r d
    by (rule length_prefix_removed [OF that(1,2) that(3) [unfolded w_def] htonl_length nt assms(5)])
  have b: "uo_tcp_conn_after_recv_length_prefixed_msg r = Some (Inr (r\<lparr> conn := Some (uo_tcp_conn_next_recv d) \<rparr>))"
    if "cb_data r = [TcpConn]" "conn r = Some d" "strict_prefix v w" "4 \<le> length v" "buf_rel (tc_rbuf d) v" for r d v
  proof -
    from that(3) obtain z where z: "w = v @ z" "z \<noteq> []" by (auto simp: strict_prefix_def prefix_def)
    have "take 4 w = htonl_bytes (of_nat (length m))" by (simp add: w_def)
    then have t4: "take 4 v = htonl_bytes (of_nat (length m))" using z(1) that(4) by simp
    have lw: "length v < length m + 4" using arg_cong [OF z(1), of length] z(2) by (cases z) (auto simp: w_def)
    then have uv: "unat (of_nat (length v) :: 32 word) = length v" using assms(5) by (simp add: unat_of_nat_32)
    have "length v - 4 < length m" using lw that(4) by simp
    then show ?thesis using that(1,2,4) t4 nt uv buf_text_rel [OF that(5)] buf_relD(2) [OF that(5)]
      by (simp add: uo_tcp_conn_after_recv_length_prefixed_msg_def the_conn_def Let_def uo_buf_get_len_before_ptr_def)
  qed
  have "length w = length m + 4" by (simp add: w_def)
  with s1 a b show ?thesis by blast
qed

theorem uo_tcp_length_prefix_roundtrip_witness:
  "\<exists>b s1 c1 w r' d'. uo_buf_printf_append (uo_buf_alloc 8) ''hello'' = Inr (5, b)
    \<and> uo_tcp_conn_before_send_length_prefixed_msg (on (echo_start [] []) (echo_conn\<lparr> tc_wbuf := b \<rparr>) [TcpConn] [])
        = Some (Inr s1) \<and> conn s1 = Some c1 \<and> buf_rel (tc_wbuf c1) w \<and> length w = 9
    \<and> uo_tcp_conn_after_recv_length_prefixed_msg (on (echo_start [] []) (echo_conn\<lparr> tc_rbuf := tc_wbuf c1 \<rparr>) [TcpConn] [])
        = Some (Inr r') \<and> conn r' = Some d' \<and> buf_rel (tc_rbuf d') ''hello'' \<and> tc_is_msg_fully_received d'"
proof -
  obtain b where b: "uo_buf_printf_append (uo_buf_alloc 8) ''hello'' = Inr (5, b)" "buf_rel b ''hello''" "5 < bf_size b"
    using buf_rel_printf [OF buf_rel_alloc, of "''hello''" 8] by auto
  let ?s = "on (echo_start [] []) (echo_conn\<lparr> tc_wbuf := b \<rparr>) [TcpConn] []"
  obtain s1 c1 w where w: "uo_tcp_conn_before_send_length_prefixed_msg ?s = Some (Inr s1)" "conn s1 = Some c1"
    "buf_rel (tc_wbuf c1) w" "length w = 9"
    "\<forall>(r :: (unit, unit) tcp) d. cb_data r = [TcpConn] \<longrightarrow> conn r = Some d \<longrightarrow> buf_rel (tc_rbuf d) w \<longrightarrow>
       (\<exists>r' d'. uo_tcp_conn_after_recv_length_prefixed_msg r = Some (Inr r') \<and> conn r' = Some d'
          \<and> buf_rel (tc_rbuf d') ''hello'' \<and> tc_is_msg_fully_received d')"
    using uo_tcp_length_prefix_roundtrip [of ?s "echo_conn\<lparr> tc_wbuf := b \<rparr>" "''hello''"] b(2,3) by auto
  let ?r = "on (echo_start [] []) (echo_conn\<lparr> tc_rbuf := tc_wbuf c1 \<rparr>) [TcpConn] []"
  have "\<exists>r' d'. uo_tcp_conn_after_recv_length_prefixed_msg ?r = Some (Inr r') \<and> conn r' = Some d'
      \<and> buf_rel (tc_rbuf d') ''hello'' \<and> tc_is_msg_fully_received d'"
    using w(5) w(3) by (metis on_simps(1,2) uo_tcp_conn.select_convs(4) uo_tcp_conn.surjective uo_tcp_conn.update_convs(4))
  then show ?thesis using b(1) w(1-4) by blast
qed

end
