(* ===== verification/Tcp_Server.thy ===== *)
theory Tcp_Server
  imports Tcp_Flow Queue
begin

text \<open>
  \<^verbatim>\<open>uo_tcp/src/uo_tcp_server.c\<close> and \<^verbatim>\<open>uo_tcp/src/uo_tcp_client.c\<close>: the two ends that open connections. The
  answers of the socket calls are arguments: a descriptor, or whether the call succeeds.
\<close>

section \<open>The server\<close>

record ('u, 'p) uo_tcp_server =
  ts_user_data :: "string uo_hashtbl"
  ts_evt_handlers :: "('u, 'p) uo_tcp_conn_evt_handlers"
  ts_conns :: "32 word uo_hashtbl"
  ts_closing_conns :: "32 word uo_queue"
  ts_port :: string
  ts_sockfd :: "32 word"
  ts_is_closing :: bool

definition no_handlers :: "('u, 'p) uo_tcp_conn_evt_handlers" where
  "no_handlers = \<lparr> eh_after_open = ([], []), eh_before_recv = ([], []), eh_after_recv = ([], []),
     eh_before_send = ([], []), eh_after_send = ([], []), eh_before_close = ([], []), eh_after_close = ([], []) \<rparr>"

definition append_handler :: "('u, 'p) handler \<Rightarrow> 'u conn_func \<Rightarrow> ('u, 'p) handler" where
  "append_handler h f = (fst h, snd h @ [f])"

definition prepend_handler :: "('u, 'p) handler \<Rightarrow> 'u conn_func \<Rightarrow> ('u, 'p) handler" where
  "prepend_handler h f = (fst h, f # snd h)"

text \<open>The server, or nothing, and the descriptors that were closed again.\<close>

definition uo_tcp_server_create ::
  "string \<Rightarrow> 32 word \<Rightarrow> bool \<Rightarrow> bool \<Rightarrow> ('u, 'p) uo_tcp_server option \<times> 32 word list" where
  "uo_tcp_server_create port sockfd bind_ok listen_ok =
     (if sockfd = - 1 then (None, [])
      else if \<not> bind_ok then (None, [sockfd])
      else if \<not> listen_ok then (None, [sockfd])
      else (Some \<lparr> ts_user_data = uo_hashtbl_create_at 0,
        ts_evt_handlers = no_handlers\<lparr> eh_after_close := append_handler ([], []) Server_after_close \<rparr>,
        ts_conns = uo_hashtbl_create_at 0, ts_closing_conns = uo_queue_create 0x10,
        ts_port = port, ts_sockfd = sockfd, ts_is_closing = False \<rparr>, []))"

definition use_length_prefixed_messages :: "('u, 'p) uo_tcp_conn_evt_handlers \<Rightarrow> ('u, 'p) uo_tcp_conn_evt_handlers" where
  "use_length_prefixed_messages hs =
     hs\<lparr> eh_before_send := append_handler (eh_before_send hs) Before_send_length_prefixed_msg,
         eh_after_recv := prepend_handler (eh_after_recv hs) After_recv_length_prefixed_msg \<rparr>"

definition uo_tcp_server_set_opt_use_length_prefixed_messages ::
  "('u, 'p) uo_tcp_server \<Rightarrow> ('u, 'p) uo_tcp_server" where
  "uo_tcp_server_set_opt_use_length_prefixed_messages srv =
     srv\<lparr> ts_evt_handlers := use_length_prefixed_messages (ts_evt_handlers srv) \<rparr>"

definition uo_tcp_server_set_opt_use_flow_recv_send_repeat ::
  "('u, 'p) uo_tcp_server \<Rightarrow> ('u, 'p) uo_tcp_server" where
  "uo_tcp_server_set_opt_use_flow_recv_send_repeat srv =
     (let hs = ts_evt_handlers srv in
      srv\<lparr> ts_evt_handlers := hs\<lparr>
        eh_after_open := append_handler (eh_after_open hs) Next_recv_cb_func,
        eh_after_recv := append_handler (eh_after_recv hs) Next_send_cb_func,
        eh_after_send := append_handler (eh_after_send hs) Next_recv_cb_func \<rparr> \<rparr>)"

definition uo_tcp_server_set_opt_use_flow_recv_send_close ::
  "('u, 'p) uo_tcp_server \<Rightarrow> ('u, 'p) uo_tcp_server" where
  "uo_tcp_server_set_opt_use_flow_recv_send_close srv =
     (let hs = ts_evt_handlers srv in
      srv\<lparr> ts_evt_handlers := hs\<lparr>
        eh_after_open := append_handler (eh_after_open hs) Next_recv_cb_func,
        eh_after_recv := append_handler (eh_after_recv hs) Next_send_cb_func,
        eh_after_send := append_handler (eh_after_send hs) Next_close_cb_func \<rparr> \<rparr>)"

definition uo_tcp_server_get_user_data :: "('u, 'p) uo_tcp_server \<Rightarrow> string \<Rightarrow> 64 word option" where
  "uo_tcp_server_get_user_data srv key = uo_strhashtbl_get (ts_user_data srv) (Some key)"

definition uo_tcp_server_set_user_data ::
  "('u, 'p) uo_tcp_server \<Rightarrow> string \<Rightarrow> 64 word \<Rightarrow> ('u, 'p) uo_tcp_server run" where
  "uo_tcp_server_set_user_data srv key user_data =
     run_bind (uo_strhashtbl_set (ts_user_data srv) (Some key) user_data) (\<lambda>t.
       Some (Inr (srv\<lparr> ts_user_data := t \<rparr>)))"

text \<open>
  The descriptors of closed connections that have been reported are taken from the queue. A
  descriptor zero cannot be told from an empty queue and ends the loop.
\<close>

lemma dequeue_shrinks:
  "uo_queue_dequeue q b = Some (Some x, q') \<Longrightarrow> q_dequeue_sem q' < q_dequeue_sem q"
  by (auto simp: uo_queue_dequeue_def Let_def split: if_splits)

function drain_closing :: "32 word uo_queue \<Rightarrow> 32 word uo_hashtbl \<Rightarrow> (32 word uo_queue \<times> 32 word uo_hashtbl) run" where
  "drain_closing q conns =
     (case uo_queue_dequeue q False of
        None \<Rightarrow> None
      | Some (None, q) \<Rightarrow> Some (Inr (q, conns))
      | Some (Some sockfd, q) \<Rightarrow>
          if sockfd = 0 then Some (Inr (q, conns))
          else if sockfd = - 1 then drain_closing q conns
          else run_bind (uo_inthashtbl_remove conns sockfd) (\<lambda>(_, conns). drain_closing q conns))"
  by pat_completeness auto
termination
  by (relation "measure (\<lambda>(q, _). q_dequeue_sem q)") (auto dest: dequeue_shrinks)

text \<open>Before the thread ends, all connections must have been reported; it waits for them.\<close>

function await_closing :: "32 word uo_queue \<Rightarrow> 32 word uo_hashtbl \<Rightarrow> (32 word uo_queue \<times> 32 word uo_hashtbl) run" where
  "await_closing q conns =
     (if ht_count conns = 0 then Some (Inr (q, conns))
      else case uo_queue_dequeue q True of
        None \<Rightarrow> None
      | Some (None, q') \<Rightarrow> None
      | Some (Some sockfd, q) \<Rightarrow>
          if sockfd = - 1 then await_closing q conns
          else run_bind (uo_inthashtbl_remove conns sockfd) (\<lambda>(_, conns). await_closing q conns))"
  by pat_completeness auto
termination
  by (relation "measure (\<lambda>(q, _). q_dequeue_sem q)") (auto dest: dequeue_shrinks)

declare drain_closing.simps [simp del] await_closing.simps [simp del]

text \<open>
  One round of the accepting thread, from the result of \<^verbatim>\<open>accept\<close>; \<open>ptr\<close> is the address of the
  connection if one is made. The first component says whether the thread goes on.
\<close>

definition uo_tcp_server_accept ::
  "32 word \<Rightarrow> 64 word \<Rightarrow> ('u, 'p) uo_tcp_server
     \<Rightarrow> (bool \<times> ('u, 'p) uo_tcp_conn option \<times> ('u, 'p) uo_tcp_server) run" where
  "uo_tcp_server_accept sockfd ptr srv =
     (if ts_is_closing srv
      then run_bind (await_closing (ts_closing_conns srv) (ts_conns srv)) (\<lambda>(q, conns).
             Some (Inr (False, None, srv\<lparr> ts_closing_conns := q, ts_conns := conns \<rparr>)))
      else if sockfd = - 1 then Some (Inr (True, None, srv))
      else
        let c = uo_tcp_conn_create_for_server (sint sockfd) (ts_user_data srv) (ts_evt_handlers srv) in
        run_bind (uo_inthashtbl_set (ts_conns srv) sockfd ptr) (\<lambda>conns.
        run_bind (drain_closing (ts_closing_conns srv) conns) (\<lambda>(q, conns).
          Some (Inr (True, Some c, srv\<lparr> ts_closing_conns := q, ts_conns := conns \<rparr>)))))"

text \<open>
  Destruction: the flag is set, the accepting thread is woken by a mark in the queue and by a
  connection to the server itself, and waited for. The result is the server as that thread
  finds it; putting the mark in the queue may have to wait.
\<close>

definition uo_tcp_server_destroy :: "('u, 'p) uo_tcp_server \<Rightarrow> ('u, 'p) uo_tcp_server option" where
  "uo_tcp_server_destroy srv =
     map_option (\<lambda>(_, q). srv\<lparr> ts_is_closing := True, ts_closing_conns := q \<rparr>)
       (uo_queue_enqueue (ts_closing_conns srv) (- 1) True)"

section \<open>The client\<close>

record ('u, 'p) uo_tcp_client =
  tl_user_data :: "string uo_hashtbl"
  tl_evt_handlers :: "('u, 'p) uo_tcp_conn_evt_handlers"
  tl_hostname :: string
  tl_port :: string

definition uo_tcp_client_create :: "string \<Rightarrow> string \<Rightarrow> ('u, 'p) uo_tcp_client" where
  "uo_tcp_client_create hostname port =
     \<lparr> tl_user_data = uo_hashtbl_create_at 0, tl_evt_handlers = no_handlers, tl_hostname = hostname, tl_port = port \<rparr>"

text \<open>The connection that is made, if any, and the descriptors that were closed again.\<close>

definition uo_tcp_client_connect ::
  "bool \<Rightarrow> 32 word \<Rightarrow> bool \<Rightarrow> ('u, 'p) uo_tcp_client \<Rightarrow> ('u, 'p) uo_tcp_conn option \<times> 32 word list" where
  "uo_tcp_client_connect addr_ok sockfd connect_ok cl =
     (if \<not> addr_ok then (None, [])
      else if sockfd = - 1 then (None, [])
      else if \<not> connect_ok then (None, [sockfd])
      else (Some (uo_tcp_conn_create_for_client (sint sockfd) (tl_user_data cl) (tl_evt_handlers cl)), []))"

definition uo_tcp_client_set_opt_use_flow_send_recv_repeat ::
  "('u, 'p) uo_tcp_client \<Rightarrow> ('u, 'p) uo_tcp_client" where
  "uo_tcp_client_set_opt_use_flow_send_recv_repeat cl =
     (let hs = tl_evt_handlers cl in
      cl\<lparr> tl_evt_handlers := hs\<lparr>
        eh_after_open := append_handler (eh_after_open hs) Next_send_cb_func,
        eh_after_send := append_handler (eh_after_send hs) Next_recv_cb_func,
        eh_after_recv := append_handler (eh_after_recv hs) Next_send_cb_func \<rparr> \<rparr>)"

definition uo_tcp_client_set_opt_use_flow_send_recv_close ::
  "('u, 'p) uo_tcp_client \<Rightarrow> ('u, 'p) uo_tcp_client" where
  "uo_tcp_client_set_opt_use_flow_send_recv_close cl =
     (let hs = tl_evt_handlers cl in
      cl\<lparr> tl_evt_handlers := hs\<lparr>
        eh_after_open := append_handler (eh_after_open hs) Next_send_cb_func,
        eh_after_send := append_handler (eh_after_send hs) Next_recv_cb_func,
        eh_after_recv := append_handler (eh_after_recv hs) Next_close_cb_func \<rparr> \<rparr>)"

definition uo_tcp_client_set_opt_use_length_prefixed_messages ::
  "('u, 'p) uo_tcp_client \<Rightarrow> ('u, 'p) uo_tcp_client" where
  "uo_tcp_client_set_opt_use_length_prefixed_messages cl =
     cl\<lparr> tl_evt_handlers := use_length_prefixed_messages (tl_evt_handlers cl) \<rparr>"

definition uo_tcp_client_get_user_data :: "('u, 'p) uo_tcp_client \<Rightarrow> string \<Rightarrow> 64 word option" where
  "uo_tcp_client_get_user_data cl key = uo_strhashtbl_get (tl_user_data cl) (Some key)"

definition uo_tcp_client_set_user_data ::
  "('u, 'p) uo_tcp_client \<Rightarrow> string \<Rightarrow> 64 word \<Rightarrow> ('u, 'p) uo_tcp_client run" where
  "uo_tcp_client_set_user_data cl key user_data =
     run_bind (uo_strhashtbl_set (tl_user_data cl) (Some key) user_data) (\<lambda>t.
       Some (Inr (cl\<lparr> tl_user_data := t \<rparr>)))"

section \<open>The connections of a server\<close>

text \<open>\<open>server_rel srv kvs fds\<close>: the table holds the connections \<open>kvs\<close>, and \<open>fds\<close> are reported as closed.\<close>

definition server_rel :: "('u, 'p) uo_tcp_server \<Rightarrow> (32 word \<times> 64 word) list \<Rightarrow> 32 word list \<Rightarrow> bool" where
  "server_rel srv kvs fds \<longleftrightarrow> table_rel scast (ts_conns srv) kvs \<and> queue_rel (ts_closing_conns srv) fds"

definition forget :: "32 word list \<Rightarrow> (32 word \<times> 64 word) list \<Rightarrow> (32 word \<times> 64 word) list" where
  "forget fds kvs = filter (\<lambda>(k, v). k \<notin> set fds) kvs"

lemma forget_Cons: "forget (fd # fds) kvs = forget fds (AList.delete fd kvs)"
  by (induction kvs) (auto simp: forget_def AList.delete_eq)

lemma inthashtbl_remove_rel:
  assumes "table_rel scast t kvs" and "fd \<noteq> 0"
  shows "\<exists>v t'. uo_inthashtbl_remove t fd = Some (Inr (v, t')) \<and> table_rel scast t' (AList.delete fd kvs)"
  using table_rel_remove [OF assms(1), of fd] assms(2) by (auto simp: uo_inthashtbl_remove_def null_key_def)

lemma drain_closing_rel:
  assumes "queue_rel q fds" and "table_rel scast conns kvs" and "0 \<notin> set fds" and "- 1 \<notin> set fds"
  shows "\<exists>q' conns'. drain_closing q conns = Some (Inr (q', conns')) \<and> queue_rel q' [] \<and> table_rel scast conns' (forget fds kvs)"
  using assms
proof (induction fds arbitrary: q conns kvs)
  case Nil
  then show ?case using uo_queue_dequeue_rel [OF Nil(1), of False] by (simp add: drain_closing.simps [of q] forget_def)
next
  case (Cons fd fds)
  have d: "uo_queue_dequeue q False = Some (Some fd, dequeued q)" using uo_queue_dequeue_rel [OF Cons.prems(1)] by simp
  have q: "queue_rel (dequeued q) fds" by (rule queue_rel_dequeued(1) [OF Cons.prems(1)])
  obtain v t' where t': "uo_inthashtbl_remove conns fd = Some (Inr (v, t'))" "table_rel scast t' (AList.delete fd kvs)"
    using inthashtbl_remove_rel [OF Cons.prems(2), of fd] Cons.prems(3) by auto
  show ?case using Cons.IH [OF q t'(2)] Cons.prems(3,4) d t'(1) by (auto simp: drain_closing.simps [of q] forget_Cons)
qed

lemma await_closing_rel:
  assumes "queue_rel q fds" and "table_rel scast conns kvs" and "0 \<notin> set fds" and "- 1 \<notin> set fds"
    and "fst ` set kvs \<subseteq> set fds"
  shows "\<exists>q' conns'. await_closing q conns = Some (Inr (q', conns')) \<and> ht_count conns' = 0"
  using assms
proof (induction fds arbitrary: q conns kvs)
  case Nil
  then have "kvs = []" by simp
  moreover have "ht_count conns = length kvs" using Nil(2) by (auto simp: table_rel_def table_at_def)
  ultimately have "ht_count conns = 0" by simp
  then show ?case by (simp add: await_closing.simps [of q])
next
  case (Cons fd fds)
  have d: "uo_queue_dequeue q True = Some (Some fd, dequeued q)" using uo_queue_dequeue_rel [OF Cons.prems(1)] by simp
  have q: "queue_rel (dequeued q) fds" by (rule queue_rel_dequeued(1) [OF Cons.prems(1)])
  obtain v t' where t': "uo_inthashtbl_remove conns fd = Some (Inr (v, t'))" "table_rel scast t' (AList.delete fd kvs)"
    using inthashtbl_remove_rel [OF Cons.prems(2), of fd] Cons.prems(3) by auto
  have "fst ` set (AList.delete fd kvs) \<subseteq> set fds" using Cons.prems(5) by (auto simp: AList.delete_eq)
  from Cons.IH [OF q t'(2) _ _ this] Cons.prems(3,4) d t'(1) show ?case
    by (auto simp: await_closing.simps [of q])
qed

section \<open>Properties\<close>



end
