(* ===== verification/Strtab.thy ===== *)
theory Strtab
  imports Hashtbl
begin

text \<open>
  String tables whose values are pointers to strings, as the tables of headers, of request data
  and of settings are. The table stores addresses: the \<open>i\<close>th string of \<open>strs\<close> is at the address
  \<open>i + 1\<close>, and \<^verbatim>\<open>NULL\<close> is zero. The abstraction is the association list of the strings.
\<close>

definition strtab_set ::
  "string uo_hashtbl \<Rightarrow> string list \<Rightarrow> string \<Rightarrow> string option \<Rightarrow> (string uo_hashtbl \<times> string list) run" where
  "strtab_set tb strs k s =
     (let (ptr, strs) = (case s of None \<Rightarrow> (0, strs) | Some s \<Rightarrow> (of_nat (length strs + 1), strs @ [s]))
      in run_bind (uo_strhashtbl_set tb (Some k) ptr) (\<lambda>tb. Some (Inr (tb, strs))))"

definition str_at :: "string list \<Rightarrow> 64 word \<Rightarrow> string option cres" where
  "str_at strs ptr =
     (if ptr = 0 then Inr None
      else if unat ptr \<le> length strs then Inr (Some (strs ! (unat ptr - 1)))
      else Inl OutOfBounds)"

definition strtab_get :: "string uo_hashtbl \<Rightarrow> string list \<Rightarrow> string \<Rightarrow> string option run" where
  "strtab_get tb strs k =
     (case uo_strhashtbl_get tb (Some k) of
        None \<Rightarrow> None
      | Some ptr \<Rightarrow> Some (str_at strs ptr))"

text \<open>
  \<open>strtab_rel tb strs hs\<close>: the table holds the pairs \<open>hs\<close>, in the order of their first setting.
\<close>

definition strtab_at :: "string uo_hashtbl \<Rightarrow> string list \<Rightarrow> (string \<times> 64 word) list \<Rightarrow> bool" where
  "strtab_at tb strs kvs \<longleftrightarrow>
     table_rel uo_strhash_djb2 tb kvs
     \<and> (\<forall>(k, v) \<in> set kvs. v \<noteq> 0 \<and> unat v \<le> length strs)
     \<and> length kvs \<le> length strs \<and> ht_capacity tb \<le> 16 + 4 * length strs"

definition deref_vals :: "string list \<Rightarrow> (string \<times> 64 word) list \<Rightarrow> (string \<times> string) list" where
  "deref_vals strs kvs = map (\<lambda>(k, v). (k, strs ! (unat v - 1))) kvs"

definition strtab_rel :: "string uo_hashtbl \<Rightarrow> string list \<Rightarrow> (string \<times> string) list \<Rightarrow> bool" where
  "strtab_rel t strs hs \<longleftrightarrow> (\<exists>kvs. strtab_at t strs kvs \<and> deref_vals strs kvs = hs)"

lemma strtab_rel_create: "strtab_rel (uo_hashtbl_create_at 0) [] []"
proof -
  have "strtab_at (uo_hashtbl_create_at 0) [] []"
    using table_rel_create [of 0] by (simp add: strtab_at_def uo_hashtbl_create_at_def UO_HASHTBL_MIN_CAPACITY_def)
  then show ?thesis by (auto simp: strtab_rel_def deref_vals_def)
qed

lemma deref_extend:
  assumes "\<forall>(k, v) \<in> set kvs. v \<noteq> 0 \<and> unat v \<le> length strs"
  shows "deref_vals (strs @ ts) kvs = deref_vals strs kvs"
proof -
  have "(strs @ ts) ! (unat v - 1) = strs ! (unat v - 1)" if "(k, v) \<in> set kvs" for k v
  proof -
    have "v \<noteq> 0" "unat v \<le> length strs" using assms that by auto
    then have "unat v - 1 < length strs" by (cases "unat v") (auto simp: unat_eq_0)
    then show ?thesis by (simp add: nth_append)
  qed
  then show ?thesis by (auto simp: deref_vals_def)
qed

lemma map_update: "map (\<lambda>(k, v). (k, f v)) (AList.update k v xs) = AList.update k (f v) (map (\<lambda>(k, v). (k, f v)) xs)"
  by (induction xs) auto

lemma set_update_subset: "set (AList.update k v xs) \<subseteq> insert (k, v) (set xs)"
  by (induction xs) auto

lemma strtab_set_rel:
  assumes "strtab_rel tb strs hs" and "length strs < 2 ^ 60"
  shows "\<exists>t. strtab_set tb strs k (Some s) = Some (Inr (t, strs @ [s]))
           \<and> strtab_rel t (strs @ [s]) (AList.update k s hs)"
proof -
  obtain kvs where kvs: "strtab_at tb strs kvs" "deref_vals strs kvs = hs" using assms(1) by (auto simp: strtab_rel_def)
  let ?n = "length strs"
  define ptr :: "64 word" where "ptr = of_nat (?n + 1)"
  have "?n + 1 < 2 ^ 64" using assms(2) by simp
  then have u: "unat ptr = ?n + 1" unfolding ptr_def by (rule unat_of_nat_64)
  have removed: "ptr \<noteq> UO_HASHTBL_TAG_REMOVED"
  proof
    assume "ptr = UO_HASHTBL_TAG_REMOVED"
    then have "(of_nat (?n + 2) :: 64 word) = 0" by (simp add: UO_HASHTBL_TAG_REMOVED_def ptr_def eq_neg_iff_add_eq_0)
    moreover have "unat (of_nat (?n + 2) :: 64 word) = ?n + 2" using assms(2) by (intro unat_of_nat_64) simp
    ultimately show False by simp
  qed
  have cap: "ht_capacity tb < 2 ^ 63" using kvs(1) assms(2) by (simp add: strtab_at_def)
  have tab: "table_rel uo_strhash_djb2 tb kvs" using kvs(1) by (simp add: strtab_at_def)
  obtain t where t: "uo_strhashtbl_set tb (Some k) ptr = Some (Inr t)"
    "table_rel uo_strhash_djb2 t (AList.update k ptr kvs)"
    "ht_capacity t \<le> max (ht_capacity tb) (4 * (length kvs + 1))"
    using table_rel_set [OF tab removed cap, of k] unfolding uo_strhashtbl_set_def by blast
  have "strtab_at t (strs @ [s]) (AList.update k ptr kvs)"
  proof -
    have "v' \<noteq> 0 \<and> unat v' \<le> ?n + 1" if "(k', v') \<in> set (AList.update k ptr kvs)" for k' v'
    proof (cases "(k', v') \<in> set kvs")
      case True
      then show ?thesis using kvs(1) by (auto simp: strtab_at_def)
    next
      case False
      then have "v' = ptr" using that set_update_subset [of k ptr kvs] by auto
      then show ?thesis using u by (metis Suc_eq_plus1 nat.distinct(1) order_refl unat_0)
    qed
    moreover have "ht_capacity t \<le> 16 + 4 * (?n + 1)" using t(3) kvs(1) by (auto simp: strtab_at_def)
    moreover have "length (AList.update k ptr kvs) \<le> ?n + 1"
      using kvs(1) length_update_le [of k ptr kvs] by (simp add: strtab_at_def)
    ultimately show ?thesis using t(2) by (simp add: strtab_at_def split_beta) (metis prod.collapse)
  qed
  moreover have "deref_vals (strs @ [s]) (AList.update k ptr kvs) = AList.update k s hs"
  proof -
    have "deref_vals (strs @ [s]) kvs = hs" using deref_extend kvs by (simp add: strtab_at_def)
    then show ?thesis using u by (simp add: deref_vals_def map_update)
  qed
  moreover have "strtab_set tb strs k (Some s) = Some (Inr (t, strs @ [s]))"
    using t(1) by (simp add: strtab_set_def ptr_def)
  ultimately show ?thesis by (auto simp: strtab_rel_def)
qed

lemma strtab_get_rel:
  assumes "strtab_rel tb strs hs"
  shows "strtab_get tb strs k = Some (Inr (map_of hs k))"
proof -
  obtain kvs where kvs: "strtab_at tb strs kvs" "deref_vals strs kvs = hs" using assms by (auto simp: strtab_rel_def)
  have g: "uo_strhashtbl_get tb (Some k) = Some (case map_of kvs k of None \<Rightarrow> 0 | Some v \<Rightarrow> v)"
    using table_rel_get [of uo_strhash_djb2] kvs(1) unfolding strtab_at_def uo_strhashtbl_get_def by blast
  have m: "map_of hs k = map_option (\<lambda>v. strs ! (unat v - 1)) (map_of kvs k)"
    unfolding kvs(2) [symmetric] deref_vals_def by (simp add: map_of_map)
  show ?thesis
  proof (cases "map_of kvs k")
    case None
    with g m show ?thesis by (simp add: strtab_get_def str_at_def)
  next
    case (Some v)
    then have "v \<noteq> 0" "unat v \<le> length strs"
      using kvs(1) map_of_SomeD [OF Some] by (auto simp: strtab_at_def)
    with g m Some show ?thesis by (simp add: strtab_get_def str_at_def)
  qed
qed

lemma strtab_distinct: "strtab_rel tb strs hs \<Longrightarrow> distinct (map fst hs)"
proof -
  assume "strtab_rel tb strs hs"
  then obtain kvs where kvs: "strtab_at tb strs kvs" "deref_vals strs kvs = hs" by (auto simp: strtab_rel_def)
  then have "distinct (map fst kvs)"
    using distinct_kvps by (fastforce simp: strtab_at_def table_rel_def table_at_def)
  moreover have "map fst hs = map fst kvs" unfolding kvs(2) [symmetric] by (simp add: deref_vals_def split_def)
  ultimately show ?thesis by simp
qed

text \<open>Setting several pairs, one after the other.\<close>

definition updates :: "(string \<times> string) list \<Rightarrow> (string \<times> string) list \<Rightarrow> (string \<times> string) list" where
  "updates acc hs = foldl (\<lambda>a (k, v). AList.update k v a) acc hs"

lemma updates_simps [simp]:
  "updates acc [] = acc" "updates acc ((k, v) # hs) = updates (AList.update k v acc) hs"
  by (simp_all add: updates_def)

lemma updates_distinct: "distinct (map fst (acc @ hs)) \<Longrightarrow> updates acc hs = acc @ hs"
proof (induction hs arbitrary: acc)
  case (Cons h hs)
  obtain k v where h: "h = (k, v)" by (cases h)
  then have "AList.update k v acc = acc @ [(k, v)]" using Cons.prems by (intro update_absent) auto
  with Cons h show ?case by simp
qed simp

end
