(* ===== verification/Http_Msg.thy ===== *)
theory Http_Msg
  imports Buf Strtab
begin

text \<open>
  \<^verbatim>\<open>uo_http/src/uo_http_msg.c\<close> with the enumerations of \<^verbatim>\<open>uo_http_method.h\<close>, \<^verbatim>\<open>uo_http_ver.h\<close> and
  \<^verbatim>\<open>uo_http_status.h\<close>: HTTP messages, composed and written to a buffer by the sender, and parsed
  from a buffer, piece by piece as it fills, by the receiver.
\<close>

section \<open>Data\<close>

datatype uo_http_method = UO_HTTP_METHOD_INVALID | UO_HTTP_GET | UO_HTTP_HEAD | UO_HTTP_PUT
  | UO_HTTP_DELETE | UO_HTTP_OPTIONS | UO_HTTP_TRACE | UO_HTTP_POST | UO_HTTP_CONNECT

datatype uo_http_ver = UO_HTTP_VER_INVALID | UO_HTTP_VER_1_0 | UO_HTTP_VER_1_1 | UO_HTTP_VER_2

datatype uo_http_status = UO_HTTP_STATUS_INVALID
  | UO_HTTP_100 | UO_HTTP_101 | UO_HTTP_200 | UO_HTTP_201 | UO_HTTP_202 | UO_HTTP_203
  | UO_HTTP_204 | UO_HTTP_205 | UO_HTTP_206 | UO_HTTP_300 | UO_HTTP_301 | UO_HTTP_302
  | UO_HTTP_303 | UO_HTTP_304 | UO_HTTP_305 | UO_HTTP_307 | UO_HTTP_400 | UO_HTTP_401
  | UO_HTTP_402 | UO_HTTP_403 | UO_HTTP_404 | UO_HTTP_405 | UO_HTTP_406 | UO_HTTP_407
  | UO_HTTP_408 | UO_HTTP_409 | UO_HTTP_410 | UO_HTTP_411 | UO_HTTP_412 | UO_HTTP_413
  | UO_HTTP_414 | UO_HTTP_415 | UO_HTTP_416 | UO_HTTP_417 | UO_HTTP_500 | UO_HTTP_501
  | UO_HTTP_502 | UO_HTTP_503 | UO_HTTP_504 | UO_HTTP_505

datatype uo_http_msg_type = UO_HTTP_MSG_TYPE_REQUEST | UO_HTTP_MSG_TYPE_RESPONSE

datatype uo_http_msg_role = UO_HTTP_MSG_ROLE_RECV | UO_HTTP_MSG_ROLE_SEND

text \<open>
  What a message holds on its stack of references until it is destroyed: a block of its own,
  or a share of a reference count.
\<close>

datatype msg_ref = Block string | Shared nat

text \<open>
  The strings that a message refers to are values of its fields. The table of headers has
  pointers to strings as values, with \<open>hm_strs\<close> as the strings they point to. The two
  anonymous unions of the struct are kept apart, as each type of message uses its own half.
\<close>

record uo_http_msg =
  hm_headers :: "string uo_hashtbl"
  hm_strs :: "string list"
  hm_refstack :: "msg_ref list"
  hm_body :: "string option"
  hm_body_len :: nat
  hm_method_sp_uri :: string
  hm_uri :: string
  hm_version_crlf :: string
  hm_method :: uo_http_method
  hm_version :: string
  hm_status_sp_reason :: string
  hm_status :: uo_http_status
  hm_ver :: uo_http_ver
  hm_parsing_offset :: int
  hm_is_invalid :: bool
  hm_type :: uo_http_msg_type
  hm_role :: uo_http_msg_role
  hm_has_start_line :: bool
  hm_has_headers :: bool
  hm_has_body :: bool

text \<open>The struct is zero-filled before \<^verbatim>\<open>uo_http_msg_create_at\<close>.\<close>

definition uo_http_msg_create_at :: "uo_http_msg_type \<Rightarrow> uo_http_msg_role \<Rightarrow> uo_http_msg" where
  "uo_http_msg_create_at typ role =
     \<lparr> hm_headers = uo_hashtbl_create_at 0, hm_strs = [], hm_refstack = [], hm_body = None, hm_body_len = 0,
       hm_method_sp_uri = [], hm_uri = [], hm_version_crlf = [], hm_method = UO_HTTP_METHOD_INVALID,
       hm_version = [], hm_status_sp_reason = [], hm_status = UO_HTTP_STATUS_INVALID,
       hm_ver = UO_HTTP_VER_INVALID, hm_parsing_offset = 0, hm_is_invalid = False, hm_type = typ,
       hm_role = role, hm_has_start_line = False, hm_has_headers = False, hm_has_body = False \<rparr>"

text \<open>Destruction releases the references in the reverse of the order they were added.\<close>

definition uo_http_msg_destroy_at :: "uo_http_msg \<Rightarrow> msg_ref list" where
  "uo_http_msg_destroy_at msg = rev (hm_refstack msg)"

definition push_ref :: "uo_http_msg \<Rightarrow> msg_ref \<Rightarrow> uo_http_msg" where
  "push_ref msg r = msg\<lparr> hm_refstack := hm_refstack msg @ [r] \<rparr>"

section \<open>Composing\<close>

definition set_header_ptr :: "uo_http_msg \<Rightarrow> string \<Rightarrow> string option \<Rightarrow> uo_http_msg run" where
  "set_header_ptr msg header_name header_value =
     run_bind (strtab_set (hm_headers msg) (hm_strs msg) header_name header_value) (\<lambda>(t, strs).
       Some (Inr (msg\<lparr> hm_headers := t, hm_strs := strs \<rparr>)))"

definition uo_http_msg_set_header :: "uo_http_msg \<Rightarrow> string \<Rightarrow> string \<Rightarrow> uo_http_msg run" where
  "uo_http_msg_set_header msg header_name header_value =
     (if hm_role msg \<noteq> UO_HTTP_MSG_ROLE_SEND then Some (Inl AssertFailed)
      else set_header_ptr msg header_name (Some header_value))"

definition uo_http_msg_get_header :: "uo_http_msg \<Rightarrow> string \<Rightarrow> string option run" where
  "uo_http_msg_get_header msg header_name = strtab_get (hm_headers msg) (hm_strs msg) header_name"

definition uo_http_msg_set_content :: "uo_http_msg \<Rightarrow> string \<Rightarrow> string \<Rightarrow> nat \<Rightarrow> uo_http_msg run" where
  "uo_http_msg_set_content msg content content_type content_len =
     (if hm_role msg \<noteq> UO_HTTP_MSG_ROLE_SEND then Some (Inl AssertFailed)
      else if content_len = 0
      then run_bind (uo_http_msg_set_header msg ''content-length'' ''0'') (\<lambda>msg.
             Some (Inr (msg\<lparr> hm_has_body := True \<rparr>)))
      else if length content < content_len then Some (Inl OutOfBounds)
      else
        let content = take content_len content;
            content_len_str = decimal content_len;
            msg = msg\<lparr> hm_body_len := content_len, hm_body := Some content \<rparr>;
            msg = push_ref msg (Block (content @ [NUL] @ content_len_str @ [NUL] @ content_type @ [NUL]))
        in run_bind (uo_http_msg_set_header msg ''content-length'' content_len_str) (\<lambda>msg.
           run_bind (uo_http_msg_set_header msg ''content-type'' content_type) (\<lambda>msg.
             Some (Inr (msg\<lparr> hm_has_body := True \<rparr>)))))"

text \<open>
  Content that is shared: \<open>content\<close> is what the reference count \<open>content_ref\<close> points to. The
  increment of the count is the caller's, in \<open>uo_refcount_inc\<close>.
\<close>

definition uo_http_msg_set_content_ref ::
  "uo_http_msg \<Rightarrow> nat \<Rightarrow> string \<Rightarrow> string \<Rightarrow> nat \<Rightarrow> uo_http_msg run" where
  "uo_http_msg_set_content_ref msg content_ref content content_type content_len =
     (if hm_role msg \<noteq> UO_HTTP_MSG_ROLE_SEND then Some (Inl AssertFailed)
      else if content_len = 0
      then run_bind (uo_http_msg_set_header msg ''content-length'' ''0'') (\<lambda>msg.
             Some (Inr (msg\<lparr> hm_has_body := True \<rparr>)))
      else
        let content_len_str = decimal content_len;
            msg = msg\<lparr> hm_body_len := content_len, hm_body := Some content \<rparr>;
            msg = push_ref msg (Shared content_ref);
            msg = push_ref msg (Block (content_len_str @ [NUL] @ content_type @ [NUL]))
        in run_bind (uo_http_msg_set_header msg ''content-length'' content_len_str) (\<lambda>msg.
           run_bind (uo_http_msg_set_header msg ''content-type'' content_type) (\<lambda>msg.
             Some (Inr (msg\<lparr> hm_has_body := True \<rparr>)))))"

fun method_str :: "uo_http_method \<Rightarrow> string option" where
  "method_str UO_HTTP_GET = Some ''GET''"
| "method_str UO_HTTP_HEAD = Some ''HEAD''"
| "method_str UO_HTTP_PUT = Some ''PUT''"
| "method_str UO_HTTP_DELETE = Some ''DELETE''"
| "method_str UO_HTTP_OPTIONS = Some ''OPTIONS''"
| "method_str UO_HTTP_TRACE = Some ''TRACE''"
| "method_str UO_HTTP_POST = Some ''POST''"
| "method_str UO_HTTP_CONNECT = Some ''CONNECT''"
| "method_str UO_HTTP_METHOD_INVALID = None"

fun version_str :: "uo_http_ver \<Rightarrow> string option" where
  "version_str UO_HTTP_VER_1_0 = Some ''HTTP/1.0''"
| "version_str UO_HTTP_VER_1_1 = Some ''HTTP/1.1''"
| "version_str UO_HTTP_VER_2 = Some ''HTTP/2''"
| "version_str UO_HTTP_VER_INVALID = None"

definition CRLF :: string where
  "CRLF = [CHR 0x0D, CHR 0x0A]"

definition uo_http_req_set_request_line ::
  "uo_http_msg \<Rightarrow> uo_http_method \<Rightarrow> string \<Rightarrow> uo_http_ver \<Rightarrow> (bool \<times> uo_http_msg) cres" where
  "uo_http_req_set_request_line msg mth uri version =
     (if hm_role msg \<noteq> UO_HTTP_MSG_ROLE_SEND then Inl AssertFailed
      else case method_str mth of
        None \<Rightarrow> Inr (False, msg)
      | Some mstr \<Rightarrow>
          (case version_str version of
             None \<Rightarrow> Inr (False, msg)
           | Some vstr \<Rightarrow>
               if uri = [] then Inr (False, msg)
               else Inr (True, (push_ref msg (Block (mstr @ '' '' @ uri @ [NUL] @ vstr @ CRLF @ [NUL])))
                 \<lparr> hm_method_sp_uri := mstr @ '' '' @ uri, hm_uri := uri, hm_version_crlf := vstr @ CRLF,
                   hm_ver := version, hm_method := mth, hm_has_start_line := True \<rparr>)))"

definition status_strs :: "(uo_http_status \<times> string) list" where
  "status_strs =
    [(UO_HTTP_100, ''100 Continue''),
     (UO_HTTP_101, ''101 Switching Protocols''),
     (UO_HTTP_200, ''200 OK''),
     (UO_HTTP_201, ''201 Created''),
     (UO_HTTP_202, ''202 Accepted''),
     (UO_HTTP_203, ''203 Non-Authoritative Information''),
     (UO_HTTP_204, ''204 No Content''),
     (UO_HTTP_205, ''205 Reset Content''),
     (UO_HTTP_206, ''206 Partial Content''),
     (UO_HTTP_300, ''300 Multiple Choices''),
     (UO_HTTP_301, ''301 Moved Permanently''),
     (UO_HTTP_302, ''302 Found''),
     (UO_HTTP_303, ''303 See Other''),
     (UO_HTTP_304, ''304 Not Modified''),
     (UO_HTTP_305, ''305 Use Proxy''),
     (UO_HTTP_307, ''307 Temporary Redirect''),
     (UO_HTTP_400, ''400 Bad Request''),
     (UO_HTTP_401, ''401 Unauthorized''),
     (UO_HTTP_402, ''402 Payment Required''),
     (UO_HTTP_403, ''403 Forbidden''),
     (UO_HTTP_404, ''404 Not Found''),
     (UO_HTTP_405, ''405 Method Not Allowed''),
     (UO_HTTP_406, ''406 Not Acceptable''),
     (UO_HTTP_407, ''407 Proxy Authentication Required''),
     (UO_HTTP_408, ''408 Request Time-out''),
     (UO_HTTP_409, ''409 Conflict''),
     (UO_HTTP_410, ''410 Gone''),
     (UO_HTTP_411, ''411 Length Required''),
     (UO_HTTP_412, ''412 Precondition Failed''),
     (UO_HTTP_413, ''413 Request Entity Too Large''),
     (UO_HTTP_414, ''414 Request-URI Too Large''),
     (UO_HTTP_415, ''415 Unsupported Media Type''),
     (UO_HTTP_416, ''416 Requested range not satisfied''),
     (UO_HTTP_417, ''417 Expectation Failed''),
     (UO_HTTP_500, ''500 Internal Server Error''),
     (UO_HTTP_501, ''501 Not Implemented''),
     (UO_HTTP_502, ''502 Bad Gateway''),
     (UO_HTTP_503, ''503 Service Unavailable''),
     (UO_HTTP_504, ''504 Gateway Time-out''),
     (UO_HTTP_505, ''505 HTTP Version not supported'')]"

definition uo_http_res_set_status_line ::
  "uo_http_msg \<Rightarrow> uo_http_status \<Rightarrow> uo_http_ver \<Rightarrow> (bool \<times> uo_http_msg) cres" where
  "uo_http_res_set_status_line msg status version =
     (if hm_role msg \<noteq> UO_HTTP_MSG_ROLE_SEND then Inl AssertFailed
      else case map_of status_strs status of
        None \<Rightarrow> Inr (False, msg)
      | Some sstr \<Rightarrow>
          (case version_str version of
             None \<Rightarrow> Inr (False, msg)
           | Some vstr \<Rightarrow>
               Inr (True, (push_ref msg (Block (vstr @ [NUL] @ sstr @ [NUL, CHR 0x0A, NUL])))
                 \<lparr> hm_version := vstr, hm_status_sp_reason := sstr, hm_ver := version,
                   hm_status := status, hm_has_start_line := True \<rparr>)))"

text \<open>
  Writing: the message's own buffer is rewound, and the message goes to another one.
\<close>

fun write_headers :: "uo_http_msg \<Rightarrow> uo_buf \<Rightarrow> (string option \<times> 64 word) list \<Rightarrow> uo_buf cres" where
  "write_headers msg dst [] = Inr dst"
| "write_headers msg dst ((key, ptr) # hs) =
     res_bind (deref key) (\<lambda>key.
     res_bind (str_at (hm_strs msg) ptr) (\<lambda>val.
     res_bind (deref val) (\<lambda>val.
     res_bind (uo_buf_printf_append dst (key @ '': '' @ val @ CRLF)) (\<lambda>(_, dst).
     write_headers msg dst hs))))"

definition start_line_text :: "uo_http_msg \<Rightarrow> string" where
  "start_line_text msg =
     (case hm_type msg of
        UO_HTTP_MSG_TYPE_REQUEST \<Rightarrow> hm_method_sp_uri msg @ '' '' @ hm_version_crlf msg
      | UO_HTTP_MSG_TYPE_RESPONSE \<Rightarrow> hm_version msg @ '' '' @ hm_status_sp_reason msg @ CRLF)"

definition uo_http_msg_write_to_buf ::
  "nat \<Rightarrow> uo_http_msg \<Rightarrow> uo_buf \<Rightarrow> uo_buf \<Rightarrow> (uo_buf \<times> uo_buf) run" where
  "uo_http_msg_write_to_buf fuel msg buf dst =
     (if hm_role msg \<noteq> UO_HTTP_MSG_ROLE_SEND then Some (Inl AssertFailed)
      else
        let buf = uo_buf_set_ptr_abs buf 0 in
        run_bind (Some (uo_buf_printf_append dst (start_line_text msg))) (\<lambda>(_, dst).
        run_bind (if ht_count (hm_headers msg) = 0 then Some (Inr dst)
          else Some (res_bind (uo_hashtbl_list (hm_headers msg)) (write_headers msg dst))) (\<lambda>dst.
        run_bind (uo_buf_memcpy_append fuel dst CRLF) (\<lambda>(_, dst).
        run_bind (if hm_body_len msg = 0 then Some (Inr dst)
          else run_bind (Some (deref (hm_body msg))) (\<lambda>body.
               run_bind (uo_buf_memcpy_append fuel dst (take (hm_body_len msg) body)) (\<lambda>(_, dst).
                 Some (Inr dst)))) (\<lambda>dst.
        Some (Inr (buf, dst)))))))"

section \<open>Parsing\<close>

text \<open>Which method has the name at the start of the line, of the length up to the space.\<close>

definition parse_method :: "string \<Rightarrow> uo_http_method option" where
  "parse_method name =
     (if name = ''GET'' then Some UO_HTTP_GET
      else if name = ''PUT'' then Some UO_HTTP_PUT
      else if name = ''POST'' then Some UO_HTTP_POST
      else if name = ''HEAD'' then Some UO_HTTP_HEAD
      else if name = ''TRACE'' then Some UO_HTTP_TRACE
      else if name = ''DELETE'' then Some UO_HTTP_DELETE
      else if name = ''OPTIONS'' then Some UO_HTTP_OPTIONS
      else if name = ''CONNECT'' then Some UO_HTTP_CONNECT
      else None)"

definition ver_of_char :: "char \<Rightarrow> uo_http_ver option" where
  "ver_of_char c =
     (if c = CHR ''2'' then Some UO_HTTP_VER_2
      else if c = CHR ''1'' then Some UO_HTTP_VER_1_1
      else if c = CHR ''0'' then Some UO_HTTP_VER_1_0
      else None)"

definition invalid :: "uo_http_msg \<Rightarrow> (bool \<times> uo_http_msg) cres" where
  "invalid msg = Inr (False, msg\<lparr> hm_is_invalid := True \<rparr>)"

definition parse_request_line :: "uo_http_msg \<Rightarrow> string \<Rightarrow> (bool \<times> uo_http_msg) cres" where
  "parse_request_line msg line =
     (case find_idx (\<lambda>c. c = CHR '' '') line of
        None \<Rightarrow> invalid msg
      | Some sp1 \<Rightarrow>
          let msg = (case parse_method (take sp1 line) of
                       None \<Rightarrow> msg | Some mth \<Rightarrow> msg\<lparr> hm_method := mth \<rparr>)
          in case strrchr (cstr (drop (sp1 + 1) line)) (CHR '' '') of
               None \<Rightarrow> invalid msg
             | Some j \<Rightarrow>
                 let sp2 = sp1 + 1 + j;
                     line = line[sp2 := NUL]
                 in case find_idx (\<lambda>c. c = CHR 0x0D) (cstr (drop (sp2 + 1) line)) of
                      None \<Rightarrow> invalid msg
                    | Some k \<Rightarrow>
                        (case ver_of_char (line ! (sp2 + k)) of
                           None \<Rightarrow> invalid msg
                         | Some v \<Rightarrow>
                             Inr (True, msg\<lparr> hm_ver := v, hm_method_sp_uri := cstr line,
                               hm_uri := cstr (drop (sp1 + 1) line),
                               hm_version_crlf := cstr (drop (sp2 + 1) line) \<rparr>)))"

definition status_codes :: "(int \<times> uo_http_status) list" where
  "status_codes =
    [(100, UO_HTTP_100), (101, UO_HTTP_101), (200, UO_HTTP_200), (201, UO_HTTP_201), (202, UO_HTTP_202),
     (203, UO_HTTP_203), (204, UO_HTTP_204), (205, UO_HTTP_205), (206, UO_HTTP_206), (300, UO_HTTP_300),
     (301, UO_HTTP_301), (302, UO_HTTP_302), (303, UO_HTTP_303), (304, UO_HTTP_304), (305, UO_HTTP_305),
     (307, UO_HTTP_307), (400, UO_HTTP_400), (401, UO_HTTP_401), (402, UO_HTTP_402), (403, UO_HTTP_403),
     (404, UO_HTTP_404), (405, UO_HTTP_405), (406, UO_HTTP_406), (407, UO_HTTP_407), (408, UO_HTTP_408),
     (409, UO_HTTP_409), (410, UO_HTTP_410), (411, UO_HTTP_411), (412, UO_HTTP_412), (413, UO_HTTP_413),
     (414, UO_HTTP_414), (415, UO_HTTP_415), (416, UO_HTTP_416), (417, UO_HTTP_417), (500, UO_HTTP_500),
     (501, UO_HTTP_501), (502, UO_HTTP_502), (503, UO_HTTP_503), (504, UO_HTTP_504), (505, UO_HTTP_505)]"

text \<open>\<^verbatim>\<open>sscanf\<close> with the format \<^verbatim>\<open>%d\<close>.\<close>

definition sscanf_d :: "string \<Rightarrow> int option" where
  "sscanf_d s = map_option (\<lambda>(neg, n). if neg then - int n else int n) (scan_decimal s)"

definition parse_status_line :: "uo_http_msg \<Rightarrow> string \<Rightarrow> (bool \<times> uo_http_msg) cres" where
  "parse_status_line msg line =
     (let line = line[length line - 2 := NUL]
      in case find_idx (\<lambda>c. c = CHR '' '') (cstr line) of
           None \<Rightarrow> invalid msg
         | Some 0 \<Rightarrow> Inl OutOfBounds
         | Some sp1 \<Rightarrow>
             (case ver_of_char (line ! (sp1 - 1)) of
                None \<Rightarrow> invalid msg
              | Some v \<Rightarrow>
                  let msg = msg\<lparr> hm_ver := v \<rparr>
                  in case sscanf_d (cstr (drop (sp1 + 1) line)) of
                       None \<Rightarrow> invalid msg
                     | Some code \<Rightarrow>
                         (case map_of status_codes code of
                            None \<Rightarrow> invalid msg
                          | Some st \<Rightarrow>
                              Inr (True, msg\<lparr> hm_status := st, hm_version := cstr line,
                                hm_status_sp_reason := cstr (drop (sp1 + 1) line) \<rparr>))))"

definition uo_http_msg_parse_start_line :: "uo_http_msg \<Rightarrow> uo_buf \<Rightarrow> (bool \<times> uo_http_msg) cres" where
  "uo_http_msg_parse_start_line msg buf =
     (if hm_role msg \<noteq> UO_HTTP_MSG_ROLE_RECV then Inl AssertFailed
      else res_bind (buf_text buf) (\<lambda>text.
        if text = [] then Inl OutOfBounds
        else case find_idx (\<lambda>c. c = CHR 0x0D) (butlast text) of
          None \<Rightarrow> Inr (False, msg)
        | Some cr \<Rightarrow>
            if text ! (cr + 1) \<noteq> CHR 0x0A then Inr (False, msg)
            else
              let start_line_len = cr + 2;
                  line = take start_line_len text;
                  msg = push_ref msg (Block (line @ [NUL]))
              in res_bind (case hm_type msg of
                     UO_HTTP_MSG_TYPE_REQUEST \<Rightarrow> parse_request_line msg line
                   | UO_HTTP_MSG_TYPE_RESPONSE \<Rightarrow> parse_status_line msg line) (\<lambda>(ok, msg).
                 if ok then Inr (True, msg\<lparr> hm_parsing_offset := int start_line_len, hm_has_start_line := True \<rparr>)
                 else Inr (False, msg))))"

text \<open>
  The loop over the lines of the headers, from the token that is the next name. The name ends
  at a delimiter; when it ends at the end of the text, the code reads behind the terminator.
\<close>

function headers_loop :: "(string \<times> string) option \<Rightarrow> uo_http_msg \<Rightarrow> uo_http_msg run" where
  "headers_loop None msg = Some (Inr msg)"
| "headers_loop (Some (header_name, rest)) msg =
     (if rest = [] then Some (Inl OutOfBounds)
      else
        let p = dropWhile isspace (tl rest)
        in case strtok_r p [CHR 0x0D] of
             None \<Rightarrow>
               set_header_ptr msg (map tolower header_name) None
           | Some (header_value, rest') \<Rightarrow>
               run_bind (set_header_ptr msg (map tolower header_name) (Some header_value)) (\<lambda>msg.
               headers_loop (strtok_r (tl rest') [CHR 0x0A, CHR '':'']) msg))"
  by pat_completeness auto
termination
proof (relation "measure (\<lambda>(tok, _). case tok of None \<Rightarrow> 0 | Some (_, rest) \<Rightarrow> Suc (length rest))", simp, clarsimp)
  fix rest hval rest' :: string
  assume "rest \<noteq> []" and v: "strtok_r (dropWhile isspace (tl rest)) [CHR 0x0D] = Some (hval, rest')"
  have 1: "length rest' < length rest"
    using strtok_r_shorter [OF v] length_dropWhile_le [of isspace "tl rest"] by simp
  show "(case strtok_r (tl rest') [CHR 0x0A, CHR '':''] of None \<Rightarrow> 0 | Some (_, r) \<Rightarrow> Suc (length r)) < Suc (length rest)"
  proof (cases "strtok_r (tl rest') [CHR 0x0A, CHR '':'']")
    case (Some tr)
    then obtain t r where "tr = (t, r)" by (cases tr)
    with Some strtok_r_shorter [of "tl rest'" "[CHR 0x0A, CHR '':'']" t r] 1 show ?thesis by simp
  qed simp
qed

definition uo_http_msg_parse_headers :: "uo_http_msg \<Rightarrow> uo_buf \<Rightarrow> (bool \<times> uo_http_msg \<times> uo_buf) run" where
  "uo_http_msg_parse_headers msg buf =
     (if hm_role msg \<noteq> UO_HTTP_MSG_ROLE_RECV then Some (Inl AssertFailed)
      else
        run_bind (Some (uo_buf_null_terminate buf)) (\<lambda>buf.
        run_bind (Some (buf_text buf)) (\<lambda>text.
        let start = hm_parsing_offset msg in
        if start < 2 \<or> int (length text) < start then Some (Inl OutOfBounds)
        else case strstr (cstr (drop (nat start - 2) text)) (CRLF @ CRLF) of
          None \<Rightarrow> Some (Inr (False, msg, buf))
        | Some i \<Rightarrow>
            let headers_end = nat start - 2 + i;
                msg = msg\<lparr> hm_parsing_offset := int (headers_end + 4) \<rparr>
            in if headers_end < nat start
               then Some (Inr (True, msg\<lparr> hm_has_headers := True \<rparr>, buf))
               else
                 let p = take (headers_end - nat start) (drop (nat start) text);
                     msg = push_ref msg (Block (p @ [NUL]))
                 in run_bind (headers_loop (strtok_r p '':'') msg) (\<lambda>msg.
                      Some (Inr (True, msg\<lparr> hm_has_headers := True \<rparr>, buf))))))"

text \<open>\<^verbatim>\<open>strtoull\<close> wraps a negated number around and reports a value that does not fit.\<close>

definition strtoull :: "string \<Rightarrow> (nat \<times> bool)" where
  "strtoull s =
     (case scan_decimal s of
        None \<Rightarrow> (0, False)
      | Some (neg, n) \<Rightarrow>
          if 2 ^ 64 \<le> n then (2 ^ 64 - 1, True)
          else ((if neg then (2 ^ 64 - n) mod 2 ^ 64 else n), False))"

text \<open>Whether a message without the length of its content is complete.\<close>

definition no_body :: "uo_http_msg \<Rightarrow> bool" where
  "no_body msg =
     (case hm_type msg of
        UO_HTTP_MSG_TYPE_REQUEST \<Rightarrow>
          hm_method msg \<in> {UO_HTTP_GET, UO_HTTP_HEAD, UO_HTTP_DELETE, UO_HTTP_CONNECT, UO_HTTP_TRACE}
      | UO_HTTP_MSG_TYPE_RESPONSE \<Rightarrow>
          hm_status msg \<in> {UO_HTTP_100, UO_HTTP_101, UO_HTTP_204, UO_HTTP_304})"

definition uo_http_msg_parse_body :: "uo_http_msg \<Rightarrow> uo_buf \<Rightarrow> (bool \<times> uo_http_msg \<times> uo_buf) run" where
  "uo_http_msg_parse_body msg buf =
     (if hm_role msg \<noteq> UO_HTTP_MSG_ROLE_RECV then Some (Inl AssertFailed)
      else
        run_bind (Some (buf_text buf)) (\<lambda>text.
        let offset = hm_parsing_offset msg in
        if offset < 0 \<or> int (length text) < offset then Some (Inl OutOfBounds)
        else
          let body = drop (nat offset) text;
              len = length body
          in run_bind (uo_http_msg_get_header msg ''content-length'') (\<lambda>header_content_length.
             case header_content_length of
               Some hval \<Rightarrow>
                 let (content_len, errno) = strtoull hval
                 in if errno then Some (Inr (False, msg\<lparr> hm_is_invalid := True \<rparr>, buf))
                    else if len < content_len then Some (Inr (False, msg, buf))
                    else run_bind (Some (buf_store buf (offset + int content_len) [NUL])) (\<lambda>buf.
                      Some (Inr (True, msg\<lparr> hm_body := Some (take content_len body),
                        hm_body_len := content_len, hm_parsing_offset := 0, hm_has_body := True \<rparr>, buf)))
             | None \<Rightarrow>
                 if no_body msg
                 then Some (Inr (True, msg\<lparr> hm_parsing_offset := 0, hm_has_body := True \<rparr>, buf))
                 else Some (Inr (False, msg\<lparr> hm_is_invalid := True \<rparr>, buf)))))"

section \<open>The headers of a message\<close>

text \<open>
  \<open>hdrs_rel msg hs\<close>: the table holds the headers \<open>hs\<close>, in the order of their first setting.
\<close>

abbreviation hdrs_at :: "uo_http_msg \<Rightarrow> (string \<times> 64 word) list \<Rightarrow> bool" where
  "hdrs_at msg kvs \<equiv> strtab_at (hm_headers msg) (hm_strs msg) kvs"

abbreviation hdrs_rel :: "uo_http_msg \<Rightarrow> (string \<times> string) list \<Rightarrow> bool" where
  "hdrs_rel msg hs \<equiv> strtab_rel (hm_headers msg) (hm_strs msg) hs"

lemma hdrs_rel_cong:
  "hm_headers msg' = hm_headers msg \<Longrightarrow> hm_strs msg' = hm_strs msg \<Longrightarrow> hdrs_rel msg' hs \<longleftrightarrow> hdrs_rel msg hs"
  by simp

lemma hdrs_rel_create: "hdrs_rel (uo_http_msg_create_at typ role) []"
  using strtab_rel_create by (simp add: uo_http_msg_create_at_def)

lemma set_header_rel:
  assumes "hdrs_rel msg hs" and "length (hm_strs msg) < 2 ^ 60"
  shows "\<exists>t. set_header_ptr msg k (Some s) = Some (Inr (msg\<lparr> hm_headers := t, hm_strs := hm_strs msg @ [s] \<rparr>))
           \<and> hdrs_rel (msg\<lparr> hm_headers := t, hm_strs := hm_strs msg @ [s] \<rparr>) (AList.update k s hs)"
  using strtab_set_rel [OF assms, of k s] by (auto simp: set_header_ptr_def)

lemma get_header_rel:
  assumes "hdrs_rel msg hs"
  shows "uo_http_msg_get_header msg k = Some (Inr (map_of hs k))"
  using strtab_get_rel [OF assms] by (simp add: uo_http_msg_get_header_def)

end
