(* ===== verification/Http_Wire.thy ===== *)
theory Http_Wire
  imports Http_Msg
begin

text \<open>
  What goes over the wire: the text a message is written as, and that a receiver which parses
  this text gets the message back. Both directions of the library are composed here, requests
  from client to server and responses from server to client.
\<close>

section \<open>The text of a message\<close>

definition header_line :: "string \<times> string \<Rightarrow> string" where
  "header_line h = fst h @ '': '' @ snd h @ CRLF"

definition headers_text :: "(string \<times> string) list \<Rightarrow> string" where
  "headers_text hs = concat (map header_line hs)"

lemma headers_text_simps [simp]:
  "headers_text [] = []" "headers_text (h # hs) = header_line h @ headers_text hs"
  by (simp_all add: headers_text_def)

lemma write_headers_text:
  assumes "hdrs_at msg kvs" and "set ps \<subseteq> set kvs" and "buf_rel dst s"
    and "length s + length (headers_text (deref_vals (hm_strs msg) ps)) < 2 ^ 31"
  shows "\<exists>dst'. write_headers msg dst (map (\<lambda>(k, v). (Some k, v)) ps) = Inr dst'
           \<and> buf_rel dst' (s @ headers_text (deref_vals (hm_strs msg) ps)) \<and> bf_size dst' \<ge> 1 \<or> ps = []"
  using assms(2-4)
proof (induction ps arbitrary: dst s)
  case Nil
  then show ?case by simp
next
  case (Cons p ps)
  obtain k v where p: "p = (k, v)" by (cases p)
  let ?val = "hm_strs msg ! (unat v - 1)"
  have v: "str_at (hm_strs msg) v = Inr (Some ?val)"
    using assms(1) Cons.prems(1) p by (auto simp: strtab_at_def str_at_def)
  have d: "deref_vals (hm_strs msg) (p # ps) = (k, ?val) # deref_vals (hm_strs msg) ps"
    by (simp add: deref_vals_def p)
  let ?t = "header_line (k, ?val)"
  obtain dst1 where d1: "uo_buf_printf_append dst ?t = Inr (length ?t, dst1)" "buf_rel dst1 (s @ ?t)"
    "length (s @ ?t) < bf_size dst1"
    using buf_rel_printf [OF Cons.prems(2), of ?t] Cons.prems(3) d by auto
  show ?case
  proof (cases "ps = []")
    case True
    then show ?thesis using d1 v p d by (auto simp: header_line_def deref_vals_def)
  next
    case False
    then obtain dst' where "write_headers msg dst1 (map (\<lambda>(k, v). (Some k, v)) ps) = Inr dst'"
      "buf_rel dst' ((s @ ?t) @ headers_text (deref_vals (hm_strs msg) ps))" "bf_size dst' \<ge> 1"
      using Cons.IH [OF _ d1(2)] Cons.prems(1,3) d by auto
    then show ?thesis using d1(1) v p d by (auto simp: header_line_def)
  qed
qed

text \<open>The message text: start line, headers, an empty line, and the body.\<close>

definition message_text :: "uo_http_msg \<Rightarrow> (string \<times> string) list \<Rightarrow> string" where
  "message_text msg hs = start_line_text msg @ headers_text hs @ CRLF
     @ (if hm_body_len msg = 0 then [] else take (hm_body_len msg) (the (hm_body msg)))"

lemma buf_memcpy_64:
  assumes "buf_rel b s" and "0 < bf_size b" and "length s + length t < 2 ^ 62"
  shows "\<exists>b'. uo_buf_memcpy_append 64 b t = Some (Inr (int (length s), b')) \<and> buf_rel b' (s @ t) \<and> 0 < bf_size b'"
proof -
  have "length s + length t < bf_size b * 2 ^ 64" using assms(2,3) by (cases "bf_size b") auto
  from buf_rel_memcpy [OF assms(1) this] show ?thesis using assms(2) by fastforce
qed

lemma write_to_buf_text:
  assumes send: "hm_role msg = UO_HTTP_MSG_ROLE_SEND" and hs: "hdrs_rel msg hs" and dst: "buf_rel dst []"
    and body: "hm_body_len msg \<noteq> 0 \<longrightarrow> hm_body msg \<noteq> None"
    and small: "length (start_line_text msg) + length (headers_text hs) < 2 ^ 31" "hm_body_len msg < 2 ^ 61"
  shows "\<exists>dst'. uo_http_msg_write_to_buf 64 msg buf dst = Some (Inr (uo_buf_set_ptr_abs buf 0, dst'))
           \<and> buf_rel dst' (message_text msg hs) \<and> 0 < bf_size dst'"
proof -
  obtain kvs where kvs: "hdrs_at msg kvs" "deref_vals (hm_strs msg) kvs = hs" using hs by (auto simp: strtab_rel_def)
  have tab: "table_rel uo_strhash_djb2 (hm_headers msg) kvs" using kvs(1) by (simp add: strtab_at_def)
  have count: "ht_count (hm_headers msg) = length kvs" using tab by (auto simp: table_rel_def table_at_def)
  let ?sl = "start_line_text msg"
  obtain d1 where d1: "uo_buf_printf_append dst ?sl = Inr (length ?sl, d1)" "buf_rel d1 ?sl" "0 < bf_size d1"
    using buf_rel_printf [OF dst, of ?sl] small by (fastforce simp: message_text_def)
  obtain d2 where d2: "(if ht_count (hm_headers msg) = 0 then Some (Inr d1)
      else Some (res_bind (uo_hashtbl_list (hm_headers msg)) (write_headers msg d1))) = Some (Inr d2)"
    "buf_rel d2 (?sl @ headers_text hs)" "0 < bf_size d2"
  proof (cases "kvs = []")
    case True
    then show ?thesis using that [of d1] d1 kvs(2) count by (simp add: deref_vals_def)
  next
    case False
    then show ?thesis
      using write_headers_text [OF kvs(1) subset_refl d1(2)] that kvs(2) count table_rel_list [OF tab] small
      by (fastforce simp: message_text_def)
  qed
  obtain d3 where d3: "uo_buf_memcpy_append 64 d2 CRLF = Some (Inr (int (length (?sl @ headers_text hs)), d3))"
    "buf_rel d3 ((?sl @ headers_text hs) @ CRLF)" "0 < bf_size d3"
    using buf_memcpy_64 [OF d2(2,3), of CRLF] small by (auto simp: CRLF_def)
  show ?thesis
  proof (cases "hm_body_len msg = 0")
    case True
    then show ?thesis using send d1(1) d2(1) d3
      by (auto simp: uo_http_msg_write_to_buf_def Let_def message_text_def)
  next
    case False
    then obtain b where b: "hm_body msg = Some b" using body by auto
    have "length ((?sl @ headers_text hs) @ CRLF) + length (take (hm_body_len msg) b) < 2 ^ 62"
      using small by (simp add: CRLF_def min_def)
    from buf_memcpy_64 [OF d3(2,3) this] obtain d4 where "uo_buf_memcpy_append 64 d3 (take (hm_body_len msg) b)
        = Some (Inr (int (length ((?sl @ headers_text hs) @ CRLF)), d4))"
      "buf_rel d4 (((?sl @ headers_text hs) @ CRLF) @ take (hm_body_len msg) b)" "0 < bf_size d4" by blast
    then show ?thesis using send d1(1) d2(1) d3(1) False b
      by (auto simp: uo_http_msg_write_to_buf_def Let_def message_text_def)
  qed
qed

section \<open>Parsing the text\<close>

text \<open>Text that may stand in a line: no line ends and no terminator.\<close>

definition plain :: "string \<Rightarrow> bool" where
  "plain s \<longleftrightarrow> NUL \<notin> set s \<and> CHR 0x0D \<notin> set s"

lemma plain_append [simp]: "plain (s @ t) \<longleftrightarrow> plain s \<and> plain t"
  by (auto simp: plain_def)

lemma plain_no_nul: "plain s \<Longrightarrow> no_nul s"
  by (simp add: plain_def no_nul_def)

lemma no_nul_CRLF [simp]: "no_nul CRLF"
  by (simp add: no_nul_def CRLF_def)

lemma no_nul_append [simp]: "no_nul (s @ t) \<longleftrightarrow> no_nul s \<and> no_nul t"
  by (auto simp: no_nul_def)

lemma cstr_at_nul: "no_nul s \<Longrightarrow> cstr (s @ NUL # t) = s"
  by (simp add: cstr_append) (simp add: cstr_def)

lemma method_str_plain:
  assumes "method_str mth = Some m"
  shows "plain m" "CHR '' '' \<notin> set m" "parse_method m = Some mth"
  using assms by (cases mth; fastforce simp: plain_def parse_method_def)+

lemma version_str_plain:
  assumes "version_str ver = Some v"
  shows "plain v" "CHR '' '' \<notin> set v" "v \<noteq> []" "ver_of_char (last v) = Some ver"
  using assms by (cases ver; fastforce simp: plain_def ver_of_char_def)+

lemma parse_request_line_text:
  assumes m: "method_str mth = Some m" and v: "version_str ver = Some v" and uri: "plain uri"
  shows "parse_request_line msg (m @ '' '' @ uri @ '' '' @ v @ CRLF)
     = Inr (True, msg\<lparr> hm_method := mth, hm_ver := ver, hm_method_sp_uri := m @ '' '' @ uri,
         hm_uri := uri, hm_version_crlf := v @ CRLF \<rparr>)"
proof -
  note M = method_str_plain [OF m] and V = version_str_plain [OF v]
  let ?line = "m @ '' '' @ uri @ '' '' @ v @ CRLF"
  let ?line' = "m @ '' '' @ uri @ NUL # v @ CRLF"
  have sp1: "find_idx (\<lambda>c. c = CHR '' '') ?line = Some (length m)"
    using find_idx_append_first [of m "\<lambda>c. c = CHR '' ''"] M(2) by auto
  have nn: "no_nul uri" "no_nul (v @ CRLF)" "no_nul (m @ '' '' @ uri)"
    using uri M(1) V(1) by (auto simp: no_nul_def plain_def CRLF_def)
  have c1: "cstr (drop (length m + 1) ?line) = uri @ '' '' @ v @ CRLF"
    using nn by (simp add: cstr_no_nul no_nul_def)
  have sp2: "strrchr (uri @ '' '' @ v @ CRLF) (CHR '' '') = Some (length uri)"
    using strrchr_last [of "CHR '' ''" "v @ CRLF" uri] V(2) by (auto simp: CRLF_def)
  have upd: "?line[length m + 1 + length uri := NUL] = ?line'" by (simp add: list_update_append)
  have c2: "cstr (drop (length m + 1 + length uri + 1) ?line') = v @ CRLF" using nn(2) by (simp add: cstr_no_nul)
  have cr: "find_idx (\<lambda>c. c = CHR 0x0D) (v @ CRLF) = Some (length v)"
    using find_idx_append_first [of v "\<lambda>c. c = CHR 0x0D"] V(1) by (auto simp: plain_def CRLF_def)
  have "?line' ! (length m + 1 + length uri + length v) = last v"
  proof -
    have "?line' = (m @ '' '' @ uri @ NUL # butlast v) @ last v # CRLF" using V(3) by simp
    moreover have "length (m @ '' '' @ uri @ NUL # butlast v) = length m + 1 + length uri + length v"
      using V(3) by (cases v rule: rev_cases) auto
    ultimately show ?thesis by (metis nth_append_length)
  qed
  moreover have "cstr ?line' = m @ '' '' @ uri" using cstr_at_nul [OF nn(3), of "v @ CRLF"] by simp
  moreover have "cstr (drop (length m + 1) ?line') = uri" using cstr_at_nul [OF nn(1), of "v @ CRLF"] by simp
  ultimately show ?thesis
    unfolding parse_request_line_def Let_def sp1 option.case c1 sp2 upd c2 cr
    using M(3) V(4) by simp
qed

lemma parse_start_line_text:
  assumes "hm_role msg = UO_HTTP_MSG_ROLE_RECV" and "buf_rel b (l @ CRLF @ rest)" and "plain l"
  shows "uo_http_msg_parse_start_line msg b =
     res_bind (case hm_type msg of
         UO_HTTP_MSG_TYPE_REQUEST \<Rightarrow> parse_request_line (push_ref msg (Block (l @ CRLF @ [NUL]))) (l @ CRLF)
       | UO_HTTP_MSG_TYPE_RESPONSE \<Rightarrow> parse_status_line (push_ref msg (Block (l @ CRLF @ [NUL]))) (l @ CRLF))
       (\<lambda>(ok, msg). if ok then Inr (True, msg\<lparr> hm_parsing_offset := int (length l + 2), hm_has_start_line := True \<rparr>)
                    else Inr (False, msg))"
proof -
  let ?t = "l @ CRLF @ rest"
  have "butlast ?t = l @ CHR 0x0D # butlast (CHR 0x0A # rest)" by (simp add: CRLF_def butlast_append)
  then have cr: "find_idx (\<lambda>c. c = CHR 0x0D) (butlast ?t) = Some (length l)"
    using find_idx_append_first [of l "\<lambda>c. c = CHR 0x0D"] assms(3) by (auto simp: plain_def)
  have t: "take (length l + 2) ?t = l @ CRLF" by (simp add: CRLF_def)
  have "?t ! (length l + 1) = CHR 0x0A" "?t \<noteq> []" by (simp_all add: nth_append CRLF_def)
  moreover have "hm_type (push_ref msg r) = hm_type msg" for r by (simp add: push_ref_def)
  ultimately show ?thesis
    unfolding uo_http_msg_parse_start_line_def Let_def buf_text_rel [OF assms(2)] res_bind.simps cr option.case t
    using assms(1) by (simp only: simp_thms if_True if_False append_assoc)
qed

text \<open>Every status text starts with the code that the receiver maps back to the status.\<close>

lemma status_strs_codes:
  "list_all (\<lambda>(st, str). plain str \<and>
     (case sscanf_d str of None \<Rightarrow> False | Some code \<Rightarrow> map_of status_codes code = Some st)) status_strs"
  unfolding plain_def by code_simp

lemma status_str_parse:
  assumes "map_of status_strs st = Some str"
  shows "plain str" "\<exists>code. sscanf_d str = Some code \<and> map_of status_codes code = Some st"
  using status_strs_codes map_of_SomeD [OF assms]
  by (auto simp: list_all_iff split: option.splits dest!: bspec)

lemma parse_status_line_text:
  assumes st: "map_of status_strs st = Some str" and v: "version_str ver = Some v"
  shows "parse_status_line msg (v @ '' '' @ str @ CRLF)
     = Inr (True, msg\<lparr> hm_ver := ver, hm_status := st, hm_version := v @ '' '' @ str, hm_status_sp_reason := str \<rparr>)"
proof -
  note V = version_str_plain [OF v]
  have plain: "plain str" by (rule status_str_parse(1) [OF st])
  obtain code where code: "sscanf_d str = Some code" "map_of status_codes code = Some st"
    using status_str_parse(2) [OF st] by blast
  let ?line = "v @ '' '' @ str @ CRLF" and ?line' = "(v @ '' '' @ str) @ NUL # [CHR 0x0A]"
  have upd: "?line[length ?line - 2 := NUL] = ?line'" by (simp add: CRLF_def list_update_append)
  have nn: "no_nul (v @ '' '' @ str)" "no_nul str" using V(1) plain by (auto simp: plain_def no_nul_def)
  have c1: "cstr ?line' = v @ '' '' @ str" by (rule cstr_at_nul [OF nn(1)])
  have c2: "cstr (drop (length v + 1) ?line') = str" using cstr_at_nul [OF nn(2), of "[CHR 0x0A]"] by simp
  have sp: "find_idx (\<lambda>c. c = CHR '' '') (v @ '' '' @ str) = Some (length v)"
    using find_idx_append_first [of v "\<lambda>c. c = CHR '' ''"] V(2) by auto
  obtain n where n: "length v = Suc n" using V(3) by (cases v) auto
  have "?line' ! (length v - 1) = last v" using V(3) n by (simp add: nth_append last_conv_nth)
  then show ?thesis
    using V(4) code c2 n unfolding parse_status_line_def Let_def upd c1 sp by simp
qed

section \<open>Parsing the headers\<close>

text \<open>
  Headers that survive: the name is not empty, in lower case and without delimiters, and the
  value neither is empty nor begins with white space.
\<close>

definition header_ok :: "string \<times> string \<Rightarrow> bool" where
  "header_ok h \<longleftrightarrow> plain (fst h) \<and> fst h \<noteq> [] \<and> set (fst h) \<inter> {CHR 0x0A, CHR '':''} = {}
     \<and> map tolower (fst h) = fst h
     \<and> plain (snd h) \<and> snd h \<noteq> [] \<and> \<not> isspace (hd (snd h))"

fun joined :: "(string \<times> string) list \<Rightarrow> string" where
  "joined [] = []"
| "joined [h] = fst h @ '': '' @ snd h"
| "joined (h # h' # hs) = fst h @ '': '' @ snd h @ CRLF @ joined (h' # hs)"

lemma headers_text_joined: "hs \<noteq> [] \<Longrightarrow> headers_text hs = joined hs @ CRLF"
  by (induction hs rule: joined.induct) (auto simp: header_line_def)

definition same_fields :: "uo_http_msg \<Rightarrow> uo_http_msg \<Rightarrow> bool" where
  "same_fields msg msg' \<longleftrightarrow> (\<exists>t strs. msg' = msg\<lparr> hm_headers := t, hm_strs := strs \<rparr>)"

lemma same_fields_refl: "same_fields msg msg"
  unfolding same_fields_def by (metis uo_http_msg.surjective uo_http_msg.update_convs(1,2))

lemma same_fields_trans: "same_fields a b \<Longrightarrow> same_fields b c \<Longrightarrow> same_fields a c"
  unfolding same_fields_def by (clarsimp, intro exI, rule refl)

lemma headers_loop_joined:
  assumes "list_all header_ok hs" and "hdrs_rel msg acc" and "length (hm_strs msg) + length hs < 2 ^ 60"
    and "set lead \<subseteq> set d" and "CHR '':'' \<in> set d" and "set d \<subseteq> {CHR 0x0A, CHR '':''}"
  shows "\<exists>msg'. headers_loop (strtok_r (lead @ joined hs) d) msg = Some (Inr msg')
           \<and> hdrs_rel msg' (updates acc hs) \<and> same_fields msg msg'
           \<and> length (hm_strs msg') = length (hm_strs msg) + length hs"
  using assms
proof (induction hs arbitrary: msg acc lead d rule: joined.induct)
  case 1
  have "dropWhile (\<lambda>c. c \<in> set d) lead = []" using "1.prems"(4) by auto
  then show ?case using "1.prems"(2) same_fields_refl by (auto simp: strtok_r_def)
next
  case (2 h)
  let ?k = "fst h" and ?v = "snd h"
  have ok: "header_ok h" using "2.prems"(1) by simp
  have t: "strtok_r (lead @ ?k @ '': '' @ ?v) d = Some (?k, '': '' @ ?v)"
    by (rule strtok_r_token) (use ok "2.prems"(4-6) in \<open>auto simp: header_ok_def\<close>)
  have p: "dropWhile isspace (CHR '' '' # ?v) = ?v"
    using ok by (cases ?v) (auto simp: header_ok_def isspace_def)
  have tv: "strtok_r ?v [CHR 0x0D] = Some (?v, [])"
    using strtok_r_token [of "[]" "[CHR 0x0D]" ?v "[]"] ok by (auto simp: header_ok_def plain_def)
  obtain tb where "set_header_ptr msg ?k (Some ?v) = Some (Inr (msg\<lparr> hm_headers := tb, hm_strs := hm_strs msg @ [?v] \<rparr>))"
    "hdrs_rel (msg\<lparr> hm_headers := tb, hm_strs := hm_strs msg @ [?v] \<rparr>) (AList.update ?k ?v acc)"
    using set_header_rel [OF "2.prems"(2)] "2.prems"(3) by auto
  moreover have "map tolower ?k = ?k" using ok by (simp add: header_ok_def)
  moreover have "strtok_r [] [CHR 0x0A, CHR '':''] = None" by (simp add: strtok_r_def)
  ultimately show ?case using t p tv by (cases h) (auto simp: same_fields_def)
next
  case (3 h h' hs)
  let ?k = "fst h" and ?v = "snd h" and ?r = "joined (h' # hs)"
  have ok: "header_ok h" using "3.prems"(1) by simp
  have t: "strtok_r (lead @ ?k @ '': '' @ ?v @ CRLF @ ?r) d = Some (?k, '': '' @ ?v @ CRLF @ ?r)"
    by (rule strtok_r_token) (use ok "3.prems"(4-6) in \<open>auto simp: header_ok_def\<close>)
  have p: "dropWhile isspace (CHR '' '' # ?v @ CRLF @ ?r) = ?v @ CRLF @ ?r"
    using ok by (cases ?v) (auto simp: header_ok_def isspace_def)
  have tv: "strtok_r (?v @ CRLF @ ?r) [CHR 0x0D] = Some (?v, CRLF @ ?r)"
    using strtok_r_token [of "[]" "[CHR 0x0D]" ?v "CRLF @ ?r"] ok by (auto simp: header_ok_def plain_def CRLF_def)
  obtain tb where s: "set_header_ptr msg ?k (Some ?v) = Some (Inr (msg\<lparr> hm_headers := tb, hm_strs := hm_strs msg @ [?v] \<rparr>))"
    "hdrs_rel (msg\<lparr> hm_headers := tb, hm_strs := hm_strs msg @ [?v] \<rparr>) (AList.update ?k ?v acc)"
    using set_header_rel [OF "3.prems"(2)] "3.prems"(3) by auto
  let ?m = "msg\<lparr> hm_headers := tb, hm_strs := hm_strs msg @ [?v] \<rparr>"
  obtain msg' where "headers_loop (strtok_r ([CHR 0x0A] @ ?r) [CHR 0x0A, CHR '':'']) ?m = Some (Inr msg')"
    "hdrs_rel msg' (updates (AList.update ?k ?v acc) (h' # hs))" "same_fields ?m msg'"
    "length (hm_strs msg') = length (hm_strs ?m) + length (h' # hs)"
    using "3.IH" [OF _ s(2), of "[CHR 0x0A]" "[CHR 0x0A, CHR '':'']"] "3.prems"(1,3) by auto
  moreover have "same_fields msg ?m" by (auto simp: same_fields_def)
  moreover have "map tolower ?k = ?k" using ok by (simp add: header_ok_def)
  moreover have "tl (CRLF @ ?r) = [CHR 0x0A] @ ?r" by (simp add: CRLF_def)
  ultimately show ?case using t p tv s(1) by (cases h) (auto intro: same_fields_trans)
qed

text \<open>Finding the end of the headers.\<close>

lemma strstr_skip:
  assumes "c \<notin> set xs"
  shows "strstr (xs @ ys) (c # n) = map_option (\<lambda>i. length xs + i) (strstr ys (c # n))"
  using assms by (cases "strstr ys (c # n)"; induction xs) auto

lemma strstr_headers_end:
  assumes "list_all header_ok hs"
  shows "strstr (CRLF @ headers_text hs @ CRLF @ rest) (CRLF @ CRLF) = Some (length (headers_text hs))"
  using assms
proof (induction hs)
  case Nil
  then show ?case by (simp add: CRLF_def)
next
  case (Cons h hs)
  have ok: "header_ok h" using Cons.prems by simp
  then obtain c k where k: "fst h = c # k" "c \<noteq> CHR 0x0D" by (cases "fst h") (auto simp: header_ok_def plain_def)
  let ?l = "fst h @ '': '' @ snd h" and ?t = "CRLF @ headers_text hs @ CRLF @ rest"
  have l: "CHR 0x0D \<notin> set ?l" using ok by (auto simp: header_ok_def plain_def)
  have "strstr (CRLF @ ?l @ ?t) (CRLF @ CRLF) = map_option (\<lambda>i. 2 + i) (strstr (?l @ ?t) (CRLF @ CRLF))"
    using k by (simp add: CRLF_def option.map_comp comp_def)
  also have "\<dots> = map_option (\<lambda>i. 2 + (length ?l + i)) (strstr ?t (CRLF @ CRLF))"
    using strstr_skip [OF l, of ?t "[CHR 0x0A] @ CRLF"] by (simp add: CRLF_def option.map_comp comp_def)
  finally show ?case using Cons by (simp add: header_line_def) (simp add: CRLF_def)
qed

lemma parse_headers_text:
  assumes recv: "hm_role msg = UO_HTTP_MSG_ROLE_RECV" and b: "buf_rel b (l @ CRLF @ headers_text hs @ CRLF @ body)"
    and size: "0 < bf_size b" and off: "hm_parsing_offset msg = int (length l + 2)"
    and hs: "list_all header_ok hs" "distinct (map fst hs)" and h0: "hdrs_rel msg []"
    and small: "length (hm_strs msg) + length hs < 2 ^ 60"
  shows "\<exists>msg' b'. uo_http_msg_parse_headers msg b = Some (Inr (True, msg', b')) \<and> hdrs_rel msg' hs
           \<and> buf_rel b' (l @ CRLF @ headers_text hs @ CRLF @ body)
           \<and> length (l @ CRLF @ headers_text hs @ CRLF @ body) < bf_size b'
           \<and> hm_parsing_offset msg' = int (length (l @ CRLF @ headers_text hs @ CRLF))
           \<and> hm_role msg' = hm_role msg \<and> hm_type msg' = hm_type msg \<and> hm_method msg' = hm_method msg
           \<and> hm_uri msg' = hm_uri msg \<and> hm_ver msg' = hm_ver msg \<and> hm_status msg' = hm_status msg
           \<and> hm_is_invalid msg' = hm_is_invalid msg \<and> hm_method_sp_uri msg' = hm_method_sp_uri msg
           \<and> bf_size b' \<le> 2 * bf_size b"
proof -
  let ?t = "l @ CRLF @ headers_text hs @ CRLF @ body"
  obtain b' where b': "uo_buf_null_terminate b = Inr b'" "buf_rel b' ?t" "length ?t < bf_size b'" "bf_size b' \<le> 2 * bf_size b"
    using buf_rel_null_terminate [OF b size] by blast
  have nn: "no_nul (CRLF @ headers_text hs @ CRLF)"
    using hs(1) by (induction hs) (auto simp: header_line_def header_ok_def plain_def no_nul_def CRLF_def)
  have "cstr (drop (length l) ?t) = CRLF @ headers_text hs @ CRLF @ cstr body"
    using cstr_append [OF nn, of body] by simp
  then have e: "strstr (cstr (drop (length l) ?t)) (CRLF @ CRLF) = Some (length (headers_text hs))"
    using strstr_headers_end [OF hs(1)] by simp
  define m1 where "m1 = msg\<lparr> hm_parsing_offset := int (length l + length (headers_text hs) + 4) \<rparr>"
  have len: "length CRLF = 2" by (simp add: CRLF_def)
  show ?thesis
  proof (cases "hs = []")
    case True
    then have "uo_http_msg_parse_headers msg b = Some (Inr (True, m1\<lparr> hm_has_headers := True \<rparr>, b'))"
      using recv b'(1) buf_text_rel [OF b'(2)] off e len
      by (simp add: uo_http_msg_parse_headers_def Let_def m1_def)
    moreover have "hdrs_rel (m1\<lparr> hm_has_headers := True \<rparr>) hs" using h0 True hdrs_rel_cong [of "m1\<lparr> hm_has_headers := True \<rparr>" msg] by (simp add: m1_def)
    ultimately show ?thesis using b'(2-4) True len by (simp add: m1_def)
  next
    case False
    then have j: "headers_text hs = joined hs @ CRLF" by (rule headers_text_joined)
    define m2 where "m2 = push_ref m1 (Block (joined hs @ [NUL]))"
    have "hdrs_rel m2 []" using h0 hdrs_rel_cong [of m2 msg] by (simp add: m2_def m1_def push_ref_def)
    moreover have "length (hm_strs m2) + length hs < 2 ^ 60" using small by (simp add: m2_def m1_def push_ref_def)
    ultimately obtain m3 where m3: "headers_loop (strtok_r ([] @ joined hs) '':'') m2 = Some (Inr m3)"
      "hdrs_rel m3 (updates [] hs)" "same_fields m2 m3"
      using headers_loop_joined [OF hs(1), of m2 "[]" "[]" "'':''"] by auto
    have p: "take (length (headers_text hs) - 2) (drop (length l + 2) ?t) = joined hs" using j len by simp
    have "uo_http_msg_parse_headers msg b = Some (Inr (True, m3\<lparr> hm_has_headers := True \<rparr>, b'))"
      using recv b'(1) buf_text_rel [OF b'(2)] off e len m3(1) p j
      by (simp add: uo_http_msg_parse_headers_def Let_def m1_def m2_def)
    moreover have "hdrs_rel (m3\<lparr> hm_has_headers := True \<rparr>) hs"
      using m3(2) updates_distinct [of "[]" hs] hs(2) hdrs_rel_cong [of "m3\<lparr> hm_has_headers := True \<rparr>" m3] by simp
    ultimately show ?thesis using b'(2-4) m3(3) len by (auto simp: same_fields_def m2_def m1_def push_ref_def)
  qed
qed

section \<open>Parsing the body\<close>

lemma strtoull_decimal: "n < 2 ^ 64 \<Longrightarrow> strtoull (decimal n) = (n, False)"
  using scan_decimal_decimal [of "[]" n] by (simp add: strtoull_def)

lemma buf_store_fits:
  assumes "buf_rel b s" and "length s < bf_size b" and "i \<le> length s"
  shows "\<exists>b'. buf_store b (int i) [c] = Inr b' \<and> length (bf_data b') = bf_size b' \<and> bf_size b' = bf_size b"
  using assms by (auto simp: buf_store_def store_def buf_rel_def)

lemma parse_body_text:
  assumes recv: "hm_role msg = UO_HTTP_MSG_ROLE_RECV" and b: "buf_rel b (hd_text @ body)"
    and room: "length (hd_text @ body) < bf_size b" and off: "hm_parsing_offset msg = int (length hd_text)"
    and hs: "hdrs_rel msg hs" and cl: "map_of hs ''content-length'' = Some (decimal (length body))"
    and len: "length body < 2 ^ 64"
  shows "\<exists>b'. uo_http_msg_parse_body msg b = Some (Inr (True, msg\<lparr> hm_body := Some body,
           hm_body_len := length body, hm_parsing_offset := 0, hm_has_body := True \<rparr>, b'))
           \<and> length (bf_data b') = bf_size b' \<and> bf_size b' = bf_size b"
proof -
  obtain b' where "buf_store b (int (length hd_text + length body)) [NUL] = Inr b'"
    "length (bf_data b') = bf_size b'" "bf_size b' = bf_size b"
    using buf_store_fits [OF b room, of "length hd_text + length body" NUL] by auto
  then show ?thesis
    using recv off buf_text_rel [OF b] get_header_rel [OF hs] cl strtoull_decimal [OF len]
    by (simp add: uo_http_msg_parse_body_def Let_def)
qed

section \<open>A message and back\<close>

text \<open>The headers a sender sets one after the other.\<close>

fun set_headers :: "uo_http_msg \<Rightarrow> (string \<times> string) list \<Rightarrow> uo_http_msg run" where
  "set_headers msg [] = Some (Inr msg)"
| "set_headers msg ((k, v) # hs) = run_bind (uo_http_msg_set_header msg k v) (\<lambda>msg. set_headers msg hs)"

lemma set_headers_rel:
  assumes "hm_role msg = UO_HTTP_MSG_ROLE_SEND" and "hdrs_rel msg acc"
    and "length (hm_strs msg) + length hs < 2 ^ 60"
  shows "\<exists>msg'. set_headers msg hs = Some (Inr msg') \<and> hdrs_rel msg' (updates acc hs) \<and> same_fields msg msg'
           \<and> length (hm_strs msg') = length (hm_strs msg) + length hs"
  using assms
proof (induction hs arbitrary: msg acc)
  case Nil
  then show ?case using same_fields_refl by auto
next
  case (Cons h hs)
  obtain k v where h: "h = (k, v)" by (cases h)
  obtain tb where s: "set_header_ptr msg k (Some v) = Some (Inr (msg\<lparr> hm_headers := tb, hm_strs := hm_strs msg @ [v] \<rparr>))"
    "hdrs_rel (msg\<lparr> hm_headers := tb, hm_strs := hm_strs msg @ [v] \<rparr>) (AList.update k v acc)"
    using set_header_rel [OF Cons.prems(2)] Cons.prems(3) by auto
  let ?m = "msg\<lparr> hm_headers := tb, hm_strs := hm_strs msg @ [v] \<rparr>"
  obtain msg' where "set_headers ?m hs = Some (Inr msg')" "hdrs_rel msg' (updates (AList.update k v acc) hs)"
    "same_fields ?m msg'" "length (hm_strs msg') = length (hm_strs ?m) + length hs"
    using Cons.IH [OF _ s(2)] Cons.prems(1,3) by auto
  moreover have "same_fields msg ?m" by (auto simp: same_fields_def)
  ultimately show ?case
    using s(1) Cons.prems(1) h by (auto simp: uo_http_msg_set_header_def intro: same_fields_trans)
qed

text \<open>The headers of a message with a content, and the fields that setting the content changes.\<close>

definition content_hdrs :: "string \<Rightarrow> string \<Rightarrow> (string \<times> string) list" where
  "content_hdrs content_type content =
     (if content = [] then [(''content-length'', ''0'')]
      else [(''content-length'', decimal (length content)), (''content-type'', content_type)])"

lemma set_content_rel:
  assumes send: "hm_role msg = UO_HTTP_MSG_ROLE_SEND" and rel: "hdrs_rel msg acc"
    and small: "length (hm_strs msg) + 2 < 2 ^ 60" and fresh: "hm_body_len msg = 0"
  shows "\<exists>msg'. uo_http_msg_set_content msg content content_type (length content) = Some (Inr msg')
           \<and> hdrs_rel msg' (updates acc (content_hdrs content_type content))
           \<and> hm_role msg' = UO_HTTP_MSG_ROLE_SEND \<and> start_line_text msg' = start_line_text msg
           \<and> hm_body_len msg' = length content \<and> (content \<noteq> [] \<longrightarrow> hm_body msg' = Some content)
           \<and> hm_has_start_line msg' = hm_has_start_line msg
           \<and> hm_refstack msg' = hm_refstack msg @ (if content = [] then []
                else [Block (content @ [NUL] @ decimal (length content) @ [NUL] @ content_type @ [NUL])])"
proof -
  define m where "m = (if content = [] then msg
     else push_ref (msg\<lparr> hm_body_len := length content, hm_body := Some content \<rparr>)
       (Block (content @ [NUL] @ decimal (length content) @ [NUL] @ content_type @ [NUL])))"
  have rel_m: "hdrs_rel m acc" using rel hdrs_rel_cong [of m msg] by (simp add: m_def push_ref_def)
  have m: "hm_role m = UO_HTTP_MSG_ROLE_SEND" "length (hm_strs m) = length (hm_strs msg)"
    using send by (simp_all add: m_def push_ref_def)
  have "length (hm_strs m) + length (content_hdrs content_type content) < 2 ^ 60"
    using small m(2) by (simp add: content_hdrs_def)
  from set_headers_rel [OF m(1) rel_m this] obtain m' where
    m': "set_headers m (content_hdrs content_type content) = Some (Inr m')"
    "hdrs_rel m' (updates acc (content_hdrs content_type content))" "same_fields m m'" by blast
  have set: "uo_http_msg_set_content msg content content_type (length content)
      = Some (Inr (m'\<lparr> hm_has_body := True \<rparr>))"
  proof (cases "content = []")
    case True
    then show ?thesis using m'(1) send
      by (auto simp: uo_http_msg_set_content_def content_hdrs_def m_def elim!: run_bind_InrE)
  next
    case False
    then have "0 < length content" by simp
    show ?thesis using m'(1) send False
      by (auto simp: uo_http_msg_set_content_def content_hdrs_def m_def Let_def elim!: run_bind_InrE)
  qed
  moreover have "hdrs_rel (m'\<lparr> hm_has_body := True \<rparr>) (updates acc (content_hdrs content_type content))"
    using m'(2) hdrs_rel_cong [of "m'\<lparr> hm_has_body := True \<rparr>" m'] by simp
  ultimately show ?thesis
    using m'(3) send fresh
    by (auto simp: same_fields_def m_def push_ref_def start_line_text_def cong: uo_http_msg_type.case_cong
        split: if_splits)
qed

text \<open>The same with shared content; the references that the message then holds.\<close>

lemma set_content_ref_rel:
  assumes send: "hm_role msg = UO_HTTP_MSG_ROLE_SEND" and rel: "hdrs_rel msg acc"
    and small: "length (hm_strs msg) + 2 < 2 ^ 60" and fresh: "hm_body_len msg = 0"
  shows "\<exists>msg'. uo_http_msg_set_content_ref msg r content content_type (length content) = Some (Inr msg')
           \<and> hdrs_rel msg' (updates acc (content_hdrs content_type content))
           \<and> hm_role msg' = UO_HTTP_MSG_ROLE_SEND \<and> start_line_text msg' = start_line_text msg
           \<and> hm_body_len msg' = length content \<and> (content \<noteq> [] \<longrightarrow> hm_body msg' = Some content)
           \<and> hm_has_start_line msg' = hm_has_start_line msg
           \<and> hm_refstack msg' = hm_refstack msg @ (if content = [] then []
                else [Shared r, Block (decimal (length content) @ [NUL] @ content_type @ [NUL])])"
proof -
  define m where "m = (if content = [] then msg
     else push_ref (push_ref (msg\<lparr> hm_body_len := length content, hm_body := Some content \<rparr>) (Shared r))
       (Block (decimal (length content) @ [NUL] @ content_type @ [NUL])))"
  have rel_m: "hdrs_rel m acc" using rel hdrs_rel_cong [of m msg] by (simp add: m_def push_ref_def)
  have m: "hm_role m = UO_HTTP_MSG_ROLE_SEND" "length (hm_strs m) = length (hm_strs msg)"
    using send by (simp_all add: m_def push_ref_def)
  have "length (hm_strs m) + length (content_hdrs content_type content) < 2 ^ 60"
    using small m(2) by (simp add: content_hdrs_def)
  from set_headers_rel [OF m(1) rel_m this] obtain m' where
    m': "set_headers m (content_hdrs content_type content) = Some (Inr m')"
    "hdrs_rel m' (updates acc (content_hdrs content_type content))" "same_fields m m'" by blast
  have "uo_http_msg_set_content_ref msg r content content_type (length content) = Some (Inr (m'\<lparr> hm_has_body := True \<rparr>))"
  proof (cases "content = []")
    case True
    then show ?thesis using m'(1) send
      by (auto simp: uo_http_msg_set_content_ref_def content_hdrs_def m_def elim!: run_bind_InrE)
  next
    case False
    then show ?thesis using m'(1) send
      by (auto simp: uo_http_msg_set_content_ref_def content_hdrs_def m_def Let_def elim!: run_bind_InrE)
  qed
  moreover have "hdrs_rel (m'\<lparr> hm_has_body := True \<rparr>) (updates acc (content_hdrs content_type content))"
    using m'(2) hdrs_rel_cong [of "m'\<lparr> hm_has_body := True \<rparr>" m'] by simp
  ultimately show ?thesis
    using m'(3) send fresh
    by (auto simp: same_fields_def m_def push_ref_def start_line_text_def cong: uo_http_msg_type.case_cong
        split: if_splits)
qed

text \<open>A response that is ready to be sent, and its text.\<close>

definition reply_ok :: "uo_http_msg \<Rightarrow> string \<Rightarrow> bool" where
  "reply_ok res text \<longleftrightarrow> hm_role res = UO_HTTP_MSG_ROLE_SEND \<and> hm_has_start_line res
     \<and> (hm_body_len res \<noteq> 0 \<longrightarrow> hm_body res \<noteq> None) \<and> hm_body_len res < 2 ^ 61
     \<and> (\<exists>hs. hdrs_rel res hs \<and> message_text res hs = text
            \<and> length (start_line_text res) + length (headers_text hs) < 2 ^ 31)"

lemma hdrs_rel_fresh:
  assumes "hm_headers msg = uo_hashtbl_create_at 0" and "hm_strs msg = []"
  shows "hdrs_rel msg []"
proof -
  let ?m = "uo_http_msg_create_at UO_HTTP_MSG_TYPE_REQUEST UO_HTTP_MSG_ROLE_RECV"
  have "hdrs_rel msg [] \<longleftrightarrow> hdrs_rel ?m []" using assms by (intro hdrs_rel_cong) (simp_all add: uo_http_msg_create_at_def)
  then show ?thesis using hdrs_rel_create by simp
qed

text \<open>A response with a status and a content, and how often a list of references has a shared content.\<close>

definition response_text :: "string \<Rightarrow> string \<Rightarrow> string \<Rightarrow> string" where
  "response_text status content_type content = ''HTTP/1.1 '' @ status @ CRLF
     @ headers_text (content_hdrs content_type content) @ CRLF @ content"

definition shares :: "msg_ref list \<Rightarrow> nat \<Rightarrow> nat" where
  "shares refs r = length (filter ((=) (Shared r)) refs)"

lemma shares_simps [simp]:
  "shares [] r = 0" "shares (Block b # refs) r = shares refs r"
  "shares (Shared q # refs) r = (if q = r then 1 else 0) + shares refs r" "shares (refs @ refs') r = shares refs r + shares refs' r"
  "shares (rev refs) r = shares refs r"
  by (auto simp: shares_def rev_filter [symmetric])

lemma set_status_line_fresh:
  assumes "map_of status_strs status = Some sstr"
  shows "\<exists>m. uo_http_res_set_status_line (uo_http_msg_create_at UO_HTTP_MSG_TYPE_RESPONSE UO_HTTP_MSG_ROLE_SEND) status UO_HTTP_VER_1_1
      = Inr (True, m) \<and> hm_role m = UO_HTTP_MSG_ROLE_SEND \<and> hdrs_rel m [] \<and> hm_strs m = [] \<and> hm_body_len m = 0
    \<and> start_line_text m = ''HTTP/1.1 '' @ sstr @ CRLF \<and> hm_has_start_line m \<and> shares (hm_refstack m) = (\<lambda>r. 0)"
proof -
  let ?r = "uo_http_msg_create_at UO_HTTP_MSG_TYPE_RESPONSE UO_HTTP_MSG_ROLE_SEND"
  define m where "m = (push_ref ?r (Block (''HTTP/1.1'' @ [NUL] @ sstr @ [NUL, CHR 0x0A, NUL])))
     \<lparr> hm_version := ''HTTP/1.1'', hm_status_sp_reason := sstr, hm_ver := UO_HTTP_VER_1_1,
       hm_status := status, hm_has_start_line := True \<rparr>"
  have "uo_http_res_set_status_line ?r status UO_HTTP_VER_1_1 = Inr (True, m)"
    using assms by (simp add: uo_http_res_set_status_line_def m_def uo_http_msg_create_at_def)
  moreover have "hdrs_rel m []" by (rule hdrs_rel_fresh) (simp_all add: m_def push_ref_def uo_http_msg_create_at_def)
  ultimately show ?thesis
    by (intro exI [of _ m]) (simp add: m_def push_ref_def uo_http_msg_create_at_def start_line_text_def fun_eq_iff)
qed

lemma content_hdrs_length:
  assumes "length content < 2 ^ 61" and "length content_type < 2 ^ 20"
  shows "length (headers_text (content_hdrs content_type content)) < 2 ^ 21"
proof -
  have "length (decimal (length content)) \<le> Suc 19" using assms(1) by (intro length_decimal) simp
  with assms(2) show ?thesis by (simp add: content_hdrs_def header_line_def CRLF_def)
qed

text \<open>Composing such a response, with content of its own or shared, makes it ready to be sent.\<close>

lemma status_strs_length: "map_of status_strs status = Some sstr \<Longrightarrow> length sstr < 100"
proof -
  have "list_all (\<lambda>(_, s). length s < 100) status_strs" by code_simp
  then show "map_of status_strs status = Some sstr \<Longrightarrow> length sstr < 100" by (auto simp: list_all_iff dest: map_of_SomeD)
qed

lemma composed_reply:
  assumes "hm_role res = UO_HTTP_MSG_ROLE_SEND" and "hdrs_rel res (content_hdrs content_type content)" and "hm_has_start_line res"
    and "start_line_text res = ''HTTP/1.1 '' @ sstr @ CRLF" and "hm_body_len res = length content"
    and "content \<noteq> [] \<longrightarrow> hm_body res = Some content" and "length sstr < 100"
    and "length content < 2 ^ 61" and "length content_type < 2 ^ 20"
  shows "reply_ok res (response_text sstr content_type content)"
proof -
  have "message_text res (content_hdrs content_type content) = response_text sstr content_type content"
    using assms(4-6) by (auto simp: message_text_def response_text_def)
  moreover have "length (start_line_text res) + length (headers_text (content_hdrs content_type content)) < 2 ^ 31"
    using content_hdrs_length [OF assms(8,9)] assms(4,7) by (simp add: CRLF_def)
  ultimately show ?thesis using assms unfolding reply_ok_def by auto
qed

lemma updates_content_hdrs [simp]: "updates [] (content_hdrs content_type content) = content_hdrs content_type content"
  by (rule updates_distinct [of "[]", simplified]) (simp add: content_hdrs_def)

lemma respond_content:
  assumes "map_of status_strs status = Some sstr" and "length content < 2 ^ 61" and "length content_type < 2 ^ 20"
  shows "\<exists>m res. uo_http_res_set_status_line (uo_http_msg_create_at UO_HTTP_MSG_TYPE_RESPONSE UO_HTTP_MSG_ROLE_SEND) status UO_HTTP_VER_1_1
      = Inr (True, m) \<and> uo_http_msg_set_content m content content_type (length content) = Some (Inr res)
    \<and> reply_ok res (response_text sstr content_type content) \<and> shares (hm_refstack res) = (\<lambda>r. 0)"
proof -
  obtain m where m: "uo_http_res_set_status_line (uo_http_msg_create_at UO_HTTP_MSG_TYPE_RESPONSE UO_HTTP_MSG_ROLE_SEND) status UO_HTTP_VER_1_1
      = Inr (True, m)" "hm_role m = UO_HTTP_MSG_ROLE_SEND" "hdrs_rel m []" "hm_strs m = []" "hm_body_len m = 0"
    "start_line_text m = ''HTTP/1.1 '' @ sstr @ CRLF" "hm_has_start_line m" "shares (hm_refstack m) = (\<lambda>r. 0)"
    using set_status_line_fresh [OF assms(1)] by blast
  obtain res where res: "uo_http_msg_set_content m content content_type (length content) = Some (Inr res)"
    "hdrs_rel res (content_hdrs content_type content)" "hm_role res = UO_HTTP_MSG_ROLE_SEND" "start_line_text res = start_line_text m"
    "hm_body_len res = length content" "content \<noteq> [] \<longrightarrow> hm_body res = Some content" "hm_has_start_line res = hm_has_start_line m"
    "hm_refstack res = hm_refstack m @ (if content = [] then []
        else [Block (content @ [NUL] @ decimal (length content) @ [NUL] @ content_type @ [NUL])])"
    using set_content_rel [OF m(2,3) _ m(5), of content content_type] m(4) by auto
  have "reply_ok res (response_text sstr content_type content)"
    by (rule composed_reply) (use res m assms status_strs_length in auto)
  moreover have "shares (hm_refstack res) = (\<lambda>r. 0)" using res(8) m(8) by (simp add: fun_eq_iff)
  ultimately show ?thesis using m(1) res(1) by blast
qed

lemma respond_content_ref:
  assumes "map_of status_strs status = Some sstr" and "length content < 2 ^ 61" and "length content_type < 2 ^ 20"
  shows "\<exists>m res. uo_http_res_set_status_line (uo_http_msg_create_at UO_HTTP_MSG_TYPE_RESPONSE UO_HTTP_MSG_ROLE_SEND) status UO_HTTP_VER_1_1
      = Inr (True, m) \<and> uo_http_msg_set_content_ref m r content content_type (length content) = Some (Inr res)
    \<and> reply_ok res (response_text sstr content_type content)
    \<and> shares (hm_refstack res) = (\<lambda>q. if q = r \<and> content \<noteq> [] then 1 else 0)"
proof -
  obtain m where m: "uo_http_res_set_status_line (uo_http_msg_create_at UO_HTTP_MSG_TYPE_RESPONSE UO_HTTP_MSG_ROLE_SEND) status UO_HTTP_VER_1_1
      = Inr (True, m)" "hm_role m = UO_HTTP_MSG_ROLE_SEND" "hdrs_rel m []" "hm_strs m = []" "hm_body_len m = 0"
    "start_line_text m = ''HTTP/1.1 '' @ sstr @ CRLF" "hm_has_start_line m" "shares (hm_refstack m) = (\<lambda>r. 0)"
    using set_status_line_fresh [OF assms(1)] by blast
  obtain res where res: "uo_http_msg_set_content_ref m r content content_type (length content) = Some (Inr res)"
    "hdrs_rel res (content_hdrs content_type content)" "hm_role res = UO_HTTP_MSG_ROLE_SEND" "start_line_text res = start_line_text m"
    "hm_body_len res = length content" "content \<noteq> [] \<longrightarrow> hm_body res = Some content" "hm_has_start_line res = hm_has_start_line m"
    "hm_refstack res = hm_refstack m @ (if content = [] then []
        else [Shared r, Block (decimal (length content) @ [NUL] @ content_type @ [NUL])])"
    using set_content_ref_rel [OF m(2,3) _ m(5), of r content content_type] m(4) by auto
  have "reply_ok res (response_text sstr content_type content)"
    by (rule composed_reply) (use res m assms status_strs_length in auto)
  moreover have "shares (hm_refstack res) = (\<lambda>q. if q = r \<and> content \<noteq> [] then 1 else 0)"
    using res(8) m(8) by (auto simp: fun_eq_iff)
  ultimately show ?thesis using m(1) res(1) by blast
qed

text \<open>
  A sender that sets the headers \<open>hs\<close> and a content and writes the message to an empty buffer,
  and a receiver that parses the start line, the headers and the body of what has arrived.
\<close>

definition send_msg :: "(bool \<times> uo_http_msg) cres \<Rightarrow> (string \<times> string) list \<Rightarrow> string \<Rightarrow> string \<Rightarrow> uo_buf \<Rightarrow> uo_buf run" where
  "send_msg started hs content_type content dst =
     run_bind (Some started) (\<lambda>(ok, msg).
     if \<not> ok then None
     else run_bind (set_headers msg hs) (\<lambda>msg.
          run_bind (uo_http_msg_set_content msg content content_type (length content)) (\<lambda>msg.
          run_bind (uo_http_msg_write_to_buf 64 msg (uo_buf_alloc 0) dst) (\<lambda>(_, dst). Some (Inr dst)))))"

definition receive_msg :: "uo_http_msg_type \<Rightarrow> uo_buf \<Rightarrow> (uo_http_msg \<times> uo_buf) run" where
  "receive_msg typ buf =
     run_bind (Some (uo_http_msg_parse_start_line (uo_http_msg_create_at typ UO_HTTP_MSG_ROLE_RECV) buf)) (\<lambda>(ok, msg).
     if \<not> ok then None
     else run_bind (uo_http_msg_parse_headers msg buf) (\<lambda>(ok, msg, buf).
     if \<not> ok then None
     else run_bind (uo_http_msg_parse_body msg buf) (\<lambda>(ok, msg, buf).
     if \<not> ok then None else Some (Inr (msg, buf)))))"

text \<open>The headers that are on the wire, and when they can be told apart from the content.\<close>

definition wire_ok :: "(string \<times> string) list \<Rightarrow> string \<Rightarrow> string \<Rightarrow> bool" where
  "wire_ok hs content_type content \<longleftrightarrow>
     list_all header_ok hs \<and> distinct (map fst hs) \<and> fst ` set hs \<inter> {''content-length'', ''content-type''} = {}
     \<and> header_ok (''content-type'', content_type)"

lemma decimal_plain: "plain (decimal n)" "decimal n \<noteq> []" "\<not> isspace (hd (decimal n))"
proof -
  have "\<forall>c \<in> set (decimal n). isdigit c" "decimal n \<noteq> []" using decimal_digits [of n] by (auto simp: list_all_iff)
  moreover have "isdigit c \<Longrightarrow> c \<noteq> NUL \<and> c \<noteq> CHR 0x0D \<and> \<not> isspace c" for c by (auto simp: isdigit_def isspace_def)
  ultimately show "plain (decimal n)" "decimal n \<noteq> []" "\<not> isspace (hd (decimal n))"
    by (auto simp: plain_def)
qed

lemma decimal_0: "decimal 0 = ''0''"
  by code_simp

lemma content_hdrs_ok:
  assumes "wire_ok hs content_type content"
  shows "list_all header_ok (hs @ content_hdrs content_type content)"
    "distinct (map fst (hs @ content_hdrs content_type content))"
    "map_of (hs @ content_hdrs content_type content) ''content-length'' = Some (decimal (length content))"
proof -
  have "header_ok (''content-length'', decimal n)" for n
    using decimal_plain [of n] by (simp add: header_ok_def) (simp add: plain_def tolower_def)
  moreover note decimal_0
  ultimately show "list_all header_ok (hs @ content_hdrs content_type content)"
    using assms by (auto simp: content_hdrs_def wire_ok_def) (metis)
  show "distinct (map fst (hs @ content_hdrs content_type content))"
    using assms by (auto simp: wire_ok_def content_hdrs_def)
  have "map_of hs ''content-length'' = None" using assms by (auto simp: wire_ok_def map_of_eq_None_iff)
  then show "map_of (hs @ content_hdrs content_type content) ''content-length'' = Some (decimal (length content))"
    by (simp add: content_hdrs_def map_add_def decimal_0)
qed

lemma headers_text_length: "length hs \<le> length (headers_text hs)"
  by (induction hs) (auto simp: header_line_def)

text \<open>Setting the headers and the content of a message whose start line is set.\<close>

lemma composed_msg:
  assumes msg: "hm_role msg = UO_HTTP_MSG_ROLE_SEND" "hdrs_rel msg []" "hm_strs msg = []" "hm_body_len msg = 0"
    and ok: "wire_ok hs content_type content"
    and small: "length (start_line_text msg) + length (headers_text (hs @ content_hdrs content_type content)) < 2 ^ 31"
  shows "\<exists>m1 m2. set_headers msg hs = Some (Inr m1)
      \<and> uo_http_msg_set_content m1 content content_type (length content) = Some (Inr m2)
      \<and> hdrs_rel m2 (hs @ content_hdrs content_type content) \<and> hm_role m2 = UO_HTTP_MSG_ROLE_SEND
      \<and> start_line_text m2 = start_line_text msg \<and> hm_body_len m2 = length content
      \<and> (content \<noteq> [] \<longrightarrow> hm_body m2 = Some content) \<and> hm_has_start_line m2 = hm_has_start_line msg
      \<and> message_text m2 (hs @ content_hdrs content_type content)
          = start_line_text msg @ headers_text (hs @ content_hdrs content_type content) @ CRLF @ content"
proof -
  have n: "length hs + 2 < 2 ^ 60" using small headers_text_length [of hs] by (simp add: headers_text_def)
  obtain m1 where m1: "set_headers msg hs = Some (Inr m1)" "hdrs_rel m1 hs" "same_fields msg m1"
    "length (hm_strs m1) = length hs"
    using set_headers_rel [OF msg(1,2), of hs] msg(3) n updates_distinct [of "[]" hs] ok by (auto simp: wire_ok_def)
  have f1: "hm_role m1 = UO_HTTP_MSG_ROLE_SEND" "hm_body_len m1 = 0" "start_line_text m1 = start_line_text msg"
    "hm_has_start_line m1 = hm_has_start_line msg"
    using m1(3) msg(1,4) by (auto simp: same_fields_def start_line_text_def cong: uo_http_msg_type.case_cong)
  obtain m2 where m2: "uo_http_msg_set_content m1 content content_type (length content) = Some (Inr m2)"
    "hdrs_rel m2 (hs @ content_hdrs content_type content)" "hm_role m2 = UO_HTTP_MSG_ROLE_SEND"
    "start_line_text m2 = start_line_text msg" "hm_body_len m2 = length content"
    "content \<noteq> [] \<longrightarrow> hm_body m2 = Some content" "hm_has_start_line m2 = hm_has_start_line msg"
    using set_content_rel [OF f1(1) m1(2) _ f1(2), of content content_type] m1(4) n f1(3,4)
      updates_distinct [OF content_hdrs_ok(2) [OF ok]] by auto
  then show ?thesis using m1(1) by (auto simp: message_text_def)
qed

lemma send_msg_text:
  assumes msg: "hm_role msg = UO_HTTP_MSG_ROLE_SEND" "hdrs_rel msg []" "hm_strs msg = []" "hm_body_len msg = 0"
    and ok: "wire_ok hs content_type content" and dst: "buf_rel dst []"
    and small: "length (start_line_text msg) + length (headers_text (hs @ content_hdrs content_type content)) < 2 ^ 31"
      "length content < 2 ^ 61"
  shows "\<exists>dst'. send_msg (Inr (True, msg)) hs content_type content dst = Some (Inr dst') \<and> 0 < bf_size dst'
           \<and> buf_rel dst' (start_line_text msg @ headers_text (hs @ content_hdrs content_type content) @ CRLF @ content)"
proof -
  obtain m1 m2 where m: "set_headers msg hs = Some (Inr m1)"
    "uo_http_msg_set_content m1 content content_type (length content) = Some (Inr m2)"
    "hdrs_rel m2 (hs @ content_hdrs content_type content)" "hm_role m2 = UO_HTTP_MSG_ROLE_SEND"
    "start_line_text m2 = start_line_text msg" "hm_body_len m2 = length content" "content \<noteq> [] \<longrightarrow> hm_body m2 = Some content"
    "message_text m2 (hs @ content_hdrs content_type content)
       = start_line_text msg @ headers_text (hs @ content_hdrs content_type content) @ CRLF @ content"
    using composed_msg [OF msg ok small(1)] by blast
  obtain dst' where "uo_http_msg_write_to_buf 64 m2 (uo_buf_alloc 0) dst
      = Some (Inr (uo_buf_set_ptr_abs (uo_buf_alloc 0) 0, dst'))"
    "buf_rel dst' (message_text m2 (hs @ content_hdrs content_type content))" "0 < bf_size dst'"
    using write_to_buf_text [OF m(4,3) dst, of "uo_buf_alloc 0"] m(5-7) small by auto
  then show ?thesis using m(1,2,8) by (auto simp: send_msg_def)
qed

lemma receive_msg_text:
  assumes start: "uo_http_msg_parse_start_line (uo_http_msg_create_at typ UO_HTTP_MSG_ROLE_RECV) buf
      = Inr (True, m1)" and m1: "hdrs_rel m1 []" "hm_strs m1 = []" "hm_role m1 = UO_HTTP_MSG_ROLE_RECV"
      "hm_parsing_offset m1 = int (length l + 2)"
    and ok: "wire_ok hs content_type content" and size: "0 < bf_size buf"
    and b: "buf_rel buf (l @ CRLF @ headers_text (hs @ content_hdrs content_type content) @ CRLF @ content)"
    and small: "length (headers_text (hs @ content_hdrs content_type content)) < 2 ^ 31" "length content < 2 ^ 61"
  shows "\<exists>msg buf'. receive_msg typ buf = Some (Inr (msg, buf')) \<and> hdrs_rel msg (hs @ content_hdrs content_type content)
           \<and> hm_body msg = Some content \<and> hm_body_len msg = length content
           \<and> hm_method msg = hm_method m1 \<and> hm_uri msg = hm_uri m1 \<and> hm_ver msg = hm_ver m1
           \<and> hm_status msg = hm_status m1 \<and> hm_is_invalid msg = hm_is_invalid m1
           \<and> hm_method_sp_uri msg = hm_method_sp_uri m1
           \<and> length (bf_data buf') = bf_size buf' \<and> 0 < bf_size buf' \<and> bf_size buf' \<le> 2 * bf_size buf"
proof -
  let ?hs = "hs @ content_hdrs content_type content"
  note H = content_hdrs_ok [OF ok]
  have n: "length (hm_strs m1) + length ?hs < 2 ^ 60" using small m1(2) headers_text_length [of ?hs] by simp
  obtain m2 b2 where m2: "uo_http_msg_parse_headers m1 buf = Some (Inr (True, m2, b2))" "hdrs_rel m2 ?hs"
    "buf_rel b2 ((l @ CRLF @ headers_text ?hs @ CRLF) @ content)"
    "length ((l @ CRLF @ headers_text ?hs @ CRLF) @ content) < bf_size b2"
    "hm_parsing_offset m2 = int (length (l @ CRLF @ headers_text ?hs @ CRLF))"
    "hm_role m2 = hm_role m1" "hm_method m2 = hm_method m1" "hm_uri m2 = hm_uri m1" "hm_ver m2 = hm_ver m1"
    "hm_status m2 = hm_status m1" "hm_is_invalid m2 = hm_is_invalid m1"
    "hm_method_sp_uri m2 = hm_method_sp_uri m1" "bf_size b2 \<le> 2 * bf_size buf"
    using parse_headers_text [OF m1(3) b size m1(4) H(1,2) m1(1) n] by (auto simp del: headers_text_simps)
  have "length content < 2 ^ 64" using small by simp
  then obtain b3 where b3: "uo_http_msg_parse_body m2 b2 = Some (Inr (True, m2\<lparr> hm_body := Some content,
      hm_body_len := length content, hm_parsing_offset := 0, hm_has_body := True \<rparr>, b3))"
    "length (bf_data b3) = bf_size b3" "bf_size b3 = bf_size b2"
    using parse_body_text [OF _ m2(3,4,5,2) H(3)] m2(6) m1(3) by auto
  let ?m3 = "m2\<lparr> hm_body := Some content, hm_body_len := length content, hm_parsing_offset := 0, hm_has_body := True \<rparr>"
  have "hdrs_rel ?m3 ?hs" using m2(2) hdrs_rel_cong [of ?m3 m2] by simp
  moreover have "0 < bf_size b3" using m2(4) b3(3) by simp
  ultimately show ?thesis using start m2 b3 by (simp add: receive_msg_def)
qed

text \<open>Requests and responses on the wire, in any buffer that holds their text.\<close>

definition request_text :: "string \<Rightarrow> string \<Rightarrow> string \<Rightarrow> (string \<times> string) list \<Rightarrow> string \<Rightarrow> string" where
  "request_text m uri v hs content = (m @ '' '' @ uri @ '' '' @ v) @ CRLF @ headers_text hs @ CRLF @ content"

lemma request_received:
  assumes "method_str mth = Some m" and "version_str ver = Some v" and "plain uri"
    and "wire_ok hs content_type content"
    and "length (headers_text (hs @ content_hdrs content_type content)) < 2 ^ 31" and "length content < 2 ^ 61"
    and b: "buf_rel b (request_text m uri v (hs @ content_hdrs content_type content) content)" "0 < bf_size b"
  shows "\<exists>msg b'. receive_msg UO_HTTP_MSG_TYPE_REQUEST b = Some (Inr (msg, b'))
    \<and> hdrs_rel msg (hs @ content_hdrs content_type content) \<and> hm_method msg = mth \<and> hm_uri msg = uri
    \<and> hm_ver msg = ver \<and> hm_body msg = Some content \<and> hm_method_sp_uri msg = m @ '' '' @ uri
    \<and> length (bf_data b') = bf_size b' \<and> 0 < bf_size b' \<and> bf_size b' \<le> 2 * bf_size b"
proof -
  let ?c = "uo_http_msg_create_at UO_HTTP_MSG_TYPE_REQUEST UO_HTTP_MSG_ROLE_RECV"
  let ?l = "m @ '' '' @ uri @ '' '' @ v"
  have pl: "plain ?l" using method_str_plain(1) [OF assms(1)] version_str_plain(1) [OF assms(2)] assms(3)
    by (simp add: plain_def)
  note B = b(1) [unfolded request_text_def]
  obtain m1 where m1: "uo_http_msg_parse_start_line ?c b = Inr (True, m1)"
    "hm_role m1 = UO_HTTP_MSG_ROLE_RECV" "hm_strs m1 = []" "hm_parsing_offset m1 = int (length ?l + 2)"
    "hm_headers m1 = uo_hashtbl_create_at 0" "hm_method m1 = mth" "hm_uri m1 = uri" "hm_ver m1 = ver"
    "hm_method_sp_uri m1 = m @ '' '' @ uri"
    using parse_start_line_text [OF _ B pl, of ?c]
      parse_request_line_text [OF assms(1-3), of "push_ref ?c (Block (?l @ CRLF @ [NUL]))"]
    by (simp add: uo_http_msg_create_at_def push_ref_def)
  from receive_msg_text [OF m1(1) hdrs_rel_fresh [OF m1(5,3)] m1(3,2,4) assms(4) b(2) B assms(5,6)] m1(6-9)
  show ?thesis by auto
qed

lemma response_received:
  assumes "map_of status_strs st = Some sstr" and "version_str ver = Some v" and "wire_ok hs content_type content"
    and "length (headers_text (hs @ content_hdrs content_type content)) < 2 ^ 31" and "length content < 2 ^ 61"
    and b: "buf_rel b (v @ '' '' @ sstr @ CRLF @ headers_text (hs @ content_hdrs content_type content) @ CRLF @ content)"
      "0 < bf_size b"
  shows "\<exists>msg b'. receive_msg UO_HTTP_MSG_TYPE_RESPONSE b = Some (Inr (msg, b'))
    \<and> hdrs_rel msg (hs @ content_hdrs content_type content) \<and> hm_status msg = st \<and> hm_ver msg = ver \<and> hm_body msg = Some content
    \<and> length (bf_data b') = bf_size b' \<and> 0 < bf_size b' \<and> bf_size b' \<le> 2 * bf_size b"
proof -
  let ?c = "uo_http_msg_create_at UO_HTTP_MSG_TYPE_RESPONSE" and ?l = "v @ '' '' @ sstr"
  have pl: "plain ?l" using status_str_parse(1) [OF assms(1)] version_str_plain(1) [OF assms(2)] by (simp add: plain_def)
  have B: "buf_rel b (?l @ CRLF @ headers_text (hs @ content_hdrs content_type content) @ CRLF @ content)" using b(1) by simp
  obtain m1 where m1: "uo_http_msg_parse_start_line (?c UO_HTTP_MSG_ROLE_RECV) b = Inr (True, m1)"
    "hm_role m1 = UO_HTTP_MSG_ROLE_RECV" "hm_strs m1 = []" "hm_parsing_offset m1 = int (length ?l + 2)"
    "hm_headers m1 = uo_hashtbl_create_at 0" "hm_status m1 = st" "hm_ver m1 = ver"
    using parse_start_line_text [OF _ B pl, of "?c UO_HTTP_MSG_ROLE_RECV"]
      parse_status_line_text [OF assms(1,2), of "push_ref (?c UO_HTTP_MSG_ROLE_RECV) (Block (?l @ CRLF @ [NUL]))"]
    by (simp add: uo_http_msg_create_at_def push_ref_def)
  from receive_msg_text [OF m1(1) hdrs_rel_fresh [OF m1(5,3)] m1(3,2,4) assms(3) b(2) B assms(4,5)] m1(6,7)
  show ?thesis by auto
qed

text \<open>Composing a request makes it ready to be sent.\<close>

definition compose_request ::
  "uo_http_method \<Rightarrow> string \<Rightarrow> uo_http_ver \<Rightarrow> (string \<times> string) list \<Rightarrow> string \<Rightarrow> string \<Rightarrow> uo_http_msg \<Rightarrow> uo_http_msg run" where
  "compose_request mth uri ver hs content_type content msg =
     run_bind (Some (uo_http_req_set_request_line msg mth uri ver)) (\<lambda>(_, msg).
     run_bind (set_headers msg hs) (\<lambda>msg. uo_http_msg_set_content msg content content_type (length content)))"

lemma composed_request:
  assumes "method_str mth = Some m" and "version_str ver = Some v" and "uri \<noteq> []" and "wire_ok hs content_type content"
    and "length (m @ uri @ v) + 4 + length (headers_text (hs @ content_hdrs content_type content)) < 2 ^ 31"
    and "length content < 2 ^ 61"
  shows "\<exists>req. compose_request mth uri ver hs content_type content
      (uo_http_msg_create_at UO_HTTP_MSG_TYPE_REQUEST UO_HTTP_MSG_ROLE_SEND) = Some (Inr req)
    \<and> reply_ok req (request_text m uri v (hs @ content_hdrs content_type content) content)"
proof -
  let ?c = "uo_http_msg_create_at UO_HTTP_MSG_TYPE_REQUEST UO_HTTP_MSG_ROLE_SEND" and ?H = "hs @ content_hdrs content_type content"
  obtain s where s: "uo_http_req_set_request_line ?c mth uri ver = Inr (True, s)"
    and sl: "start_line_text s = m @ '' '' @ uri @ '' '' @ v @ CRLF"
    and f: "hm_role s = UO_HTTP_MSG_ROLE_SEND" "hm_headers s = uo_hashtbl_create_at 0"
      "hm_strs s = []" "hm_body_len s = 0" "hm_has_start_line s"
    using assms(1-3)
    by (simp add: uo_http_req_set_request_line_def uo_http_msg_create_at_def push_ref_def start_line_text_def)
  have small: "length (start_line_text s) + length (headers_text ?H) < 2 ^ 31" using sl assms(5) by (simp add: CRLF_def)
  obtain m1 m2 where m: "set_headers s hs = Some (Inr m1)"
    "uo_http_msg_set_content m1 content content_type (length content) = Some (Inr m2)"
    "hdrs_rel m2 ?H" "hm_role m2 = UO_HTTP_MSG_ROLE_SEND" "start_line_text m2 = start_line_text s"
    "hm_body_len m2 = length content" "content \<noteq> [] \<longrightarrow> hm_body m2 = Some content" "hm_has_start_line m2"
    "message_text m2 ?H = start_line_text s @ headers_text ?H @ CRLF @ content"
    using composed_msg [OF f(1) hdrs_rel_fresh [OF f(2,3)] f(3,4) assms(4) small] f(5) by blast
  have "reply_ok m2 (request_text m uri v ?H content)"
    unfolding reply_ok_def using m(3-9) small sl assms(6) by (auto simp: request_text_def)
  then show ?thesis using s m(1,2) by (simp add: compose_request_def)
qed

section \<open>Properties\<close>

text \<open>
  C6: a request survives the wire. Whatever method, target, version, headers and content a
  client composes a request from, the server that parses the bytes written for it gets the same
  method, target, version and content, and looking up any header gives the value that was set.
  Header names are in lower case, values are not empty and do not begin with white space.
\<close>

theorem uo_http_request_roundtrip:
  assumes "method_str mth = Some m" and "version_str ver = Some v" and "plain uri" and "uri \<noteq> []"
    and "wire_ok hs content_type content"
    and "length (m @ uri @ v) + 4 + length (headers_text (hs @ content_hdrs content_type content)) < 2 ^ 31"
    and "length content < 2 ^ 61"
  shows "\<exists>dst msg buf'.
      send_msg (uo_http_req_set_request_line
          (uo_http_msg_create_at UO_HTTP_MSG_TYPE_REQUEST UO_HTTP_MSG_ROLE_SEND) mth uri ver)
        hs content_type content (uo_buf_alloc size') = Some (Inr dst)
    \<and> receive_msg UO_HTTP_MSG_TYPE_REQUEST dst = Some (Inr (msg, buf'))
    \<and> hm_method msg = mth \<and> hm_uri msg = uri \<and> hm_ver msg = ver \<and> hm_body msg = Some content
    \<and> (\<forall>k. uo_http_msg_get_header msg k
          = Some (Inr (map_of (hs @ content_hdrs content_type content) k)))"
proof -
  let ?c = "uo_http_msg_create_at UO_HTTP_MSG_TYPE_REQUEST" and ?H = "hs @ content_hdrs content_type content"
  obtain s where s: "uo_http_req_set_request_line (?c UO_HTTP_MSG_ROLE_SEND) mth uri ver = Inr (True, s)"
    and sl: "start_line_text s = m @ '' '' @ uri @ '' '' @ v @ CRLF"
    and f: "hm_role s = UO_HTTP_MSG_ROLE_SEND" "hm_headers s = uo_hashtbl_create_at 0"
      "hm_strs s = []" "hm_body_len s = 0"
    using assms(1,2,4)
    by (simp add: uo_http_req_set_request_line_def uo_http_msg_create_at_def push_ref_def start_line_text_def)
  obtain dst where d: "send_msg (Inr (True, s)) hs content_type content (uo_buf_alloc size') = Some (Inr dst)"
    "buf_rel dst (request_text m uri v ?H content)" "0 < bf_size dst"
    using send_msg_text [OF f(1) hdrs_rel_fresh [OF f(2,3)] f(3,4) assms(5) buf_rel_alloc] assms(6,7) sl
    by (auto simp: CRLF_def request_text_def)
  obtain msg b' where "receive_msg UO_HTTP_MSG_TYPE_REQUEST dst = Some (Inr (msg, b'))" "hdrs_rel msg ?H"
    "hm_method msg = mth" "hm_uri msg = uri" "hm_ver msg = ver" "hm_body msg = Some content"
    using request_received [OF assms(1-3,5) _ assms(7) d(2,3)] assms(6) by auto
  then show ?thesis using d(1) get_header_rel s by auto
qed

theorem uo_http_request_roundtrip_witness:
  "\<exists>dst msg buf'.
      send_msg (uo_http_req_set_request_line
          (uo_http_msg_create_at UO_HTTP_MSG_TYPE_REQUEST UO_HTTP_MSG_ROLE_SEND) UO_HTTP_POST ''/a b'' UO_HTTP_VER_1_1)
        [(''host'', ''x:80'')] ''text/plain'' ''k=v'' (uo_buf_alloc 1) = Some (Inr dst)
    \<and> receive_msg UO_HTTP_MSG_TYPE_REQUEST dst = Some (Inr (msg, buf'))
    \<and> hm_method msg = UO_HTTP_POST \<and> hm_uri msg = ''/a b'' \<and> hm_body msg = Some ''k=v''
    \<and> uo_http_msg_get_header msg ''host'' = Some (Inr (Some ''x:80''))
    \<and> uo_http_msg_get_header msg ''content-length'' = Some (Inr (Some ''3''))"
proof -
  have "wire_ok [(''host'', ''x:80'')] ''text/plain'' ''k=v''" unfolding wire_ok_def header_ok_def plain_def by code_simp
  moreover have "content_hdrs ''text/plain'' ''k=v'' = [(''content-length'', ''3''), (''content-type'', ''text/plain'')]"
    by code_simp
  ultimately show ?thesis
    using uo_http_request_roundtrip [of UO_HTTP_POST "''POST''" UO_HTTP_VER_1_1 "''HTTP/1.1''" "''/a b''"
        "[(''host'', ''x:80'')]" "''text/plain''" "''k=v''" 1]
    by (fastforce simp: plain_def header_line_def CRLF_def)
qed

text \<open>
  C19: a response survives the wire: every status the server can set, with the version, the
  headers and the content, is what the client parses from the bytes written for the response.
\<close>

theorem uo_http_response_roundtrip:
  assumes "map_of status_strs st = Some str" and "version_str ver = Some v"
    and "wire_ok hs content_type content"
    and "length (v @ str) + 3 + length (headers_text (hs @ content_hdrs content_type content)) < 2 ^ 31"
    and "length content < 2 ^ 61"
  shows "\<exists>dst msg buf'.
      send_msg (uo_http_res_set_status_line
          (uo_http_msg_create_at UO_HTTP_MSG_TYPE_RESPONSE UO_HTTP_MSG_ROLE_SEND) st ver)
        hs content_type content (uo_buf_alloc size') = Some (Inr dst)
    \<and> receive_msg UO_HTTP_MSG_TYPE_RESPONSE dst = Some (Inr (msg, buf'))
    \<and> hm_status msg = st \<and> hm_ver msg = ver \<and> hm_body msg = Some content
    \<and> (\<forall>k. uo_http_msg_get_header msg k
          = Some (Inr (map_of (hs @ content_hdrs content_type content) k)))"
proof -
  let ?c = "uo_http_msg_create_at UO_HTTP_MSG_TYPE_RESPONSE" and ?H = "hs @ content_hdrs content_type content"
  let ?l = "v @ '' '' @ str"
  obtain s where s: "uo_http_res_set_status_line (?c UO_HTTP_MSG_ROLE_SEND) st ver = Inr (True, s)"
    and sl: "start_line_text s = v @ '' '' @ str @ CRLF"
    and f: "hm_role s = UO_HTTP_MSG_ROLE_SEND" "hm_headers s = uo_hashtbl_create_at 0" "hm_strs s = []" "hm_body_len s = 0"
    using assms(1,2)
    by (simp add: uo_http_res_set_status_line_def uo_http_msg_create_at_def push_ref_def start_line_text_def)
  obtain dst where d: "send_msg (Inr (True, s)) hs content_type content (uo_buf_alloc size') = Some (Inr dst)"
    "buf_rel dst (?l @ CRLF @ headers_text ?H @ CRLF @ content)" "0 < bf_size dst"
    using send_msg_text [OF f(1) hdrs_rel_fresh [OF f(2,3)] f(3,4) assms(3) buf_rel_alloc] assms(4,5) sl by (auto simp: CRLF_def)
  obtain msg buf' where "receive_msg UO_HTTP_MSG_TYPE_RESPONSE dst = Some (Inr (msg, buf'))" "hdrs_rel msg ?H"
    "hm_body msg = Some content" "hm_status msg = st" "hm_ver msg = ver"
    using response_received [OF assms(1-3) _ assms(5) _ d(3)] d(2) assms(4) by (auto simp: CRLF_def)
  then show ?thesis using d(1) get_header_rel s by auto
qed

theorem uo_http_response_roundtrip_witness:
  "\<exists>dst msg buf'.
      send_msg (uo_http_res_set_status_line
          (uo_http_msg_create_at UO_HTTP_MSG_TYPE_RESPONSE UO_HTTP_MSG_ROLE_SEND) UO_HTTP_404 UO_HTTP_VER_1_1)
        [] ''text/plain'' [] (uo_buf_alloc 0) = Some (Inr dst)
    \<and> receive_msg UO_HTTP_MSG_TYPE_RESPONSE dst = Some (Inr (msg, buf'))
    \<and> hm_status msg = UO_HTTP_404 \<and> hm_body msg = Some []
    \<and> uo_http_msg_get_header msg ''content-length'' = Some (Inr (Some ''0''))"
proof -
  have "wire_ok [] ''text/plain'' []" unfolding wire_ok_def header_ok_def plain_def by code_simp
  moreover have "content_hdrs ''text/plain'' [] = [(''content-length'', ''0'')]" by code_simp
  moreover have "map_of status_strs UO_HTTP_404 = Some ''404 Not Found''" by code_simp
  ultimately show ?thesis
    using uo_http_response_roundtrip [of UO_HTTP_404 "''404 Not Found''" UO_HTTP_VER_1_1 "''HTTP/1.1''" "[]" "''text/plain''" "[]" 0]
    by (fastforce simp: header_line_def CRLF_def)
qed



end
