(* ===== verification/Req_Handler.thy ===== *)
theory Req_Handler
  imports Http_Msg
begin

text \<open>
  \<^verbatim>\<open>uo_http/src/uo_http_req_handler.c\<close>: request handlers are chosen by patterns of the method and
  the target, such as \<^verbatim>\<open>GET /users/{id}/posts*\<close>. A parameter matches the text up to the character
  that follows it in the pattern, and a star at the end matches any rest.
\<close>

section \<open>Operations\<close>

text \<open>
  The pattern is kept in a block of its own in which every closing brace is overwritten with a
  terminator, so that the names of the parameters are strings; a second terminator follows the
  pattern. The callback of the handler is of any type.
\<close>

record 'c uo_http_req_handler =
  rh_cb :: 'c
  rh_req_pattern :: string
  rh_param_count :: nat

function split_params :: "string \<Rightarrow> (string \<times> nat) cres" where
  "split_params p =
     (case find_idx (\<lambda>c. c = CHR ''{'') p of
        None \<Rightarrow> Inr (p, 0)
      | Some i \<Rightarrow>
          (case find_idx (\<lambda>c. c = CHR ''}'') (drop i p) of
             None \<Rightarrow> Inl AssertFailed
           | Some j \<Rightarrow>
               res_bind (split_params (drop (i + j + 1) p)) (\<lambda>(q, n).
                 Inr (take (i + j) p @ [NUL] @ q, n + 1))))"
  by pat_completeness auto
termination
proof (relation "measure length", simp)
  fix p :: string and i j
  assume "find_idx (\<lambda>c. c = CHR ''{'') p = Some i" and "find_idx (\<lambda>c. c = CHR ''}'') (drop i p) = Some j"
  then have "p \<noteq> []" by auto
  then show "(drop (i + j + 1) p, p) \<in> measure length" by simp
qed

declare split_params.simps [simp del]

definition uo_http_req_handler_create :: "string \<Rightarrow> 'c \<Rightarrow> 'c uo_http_req_handler cres" where
  "uo_http_req_handler_create req_pattern cb =
     res_bind (split_params req_pattern) (\<lambda>(p, param_count).
       Inr \<lparr> rh_cb = cb, rh_req_pattern = p @ [NUL, NUL], rh_param_count = param_count \<rparr>)"

text \<open>\<^verbatim>\<open>strchr\<close> finds the terminator when it is asked for the terminator.\<close>

definition strchr_end :: "string \<Rightarrow> char \<Rightarrow> nat option" where
  "strchr_end s c = (if c = NUL then Some (length s) else find_idx (\<lambda>x. x = c) s)"

text \<open>
  The loop over the parameters: \<open>pat\<close> is the rest of the pattern block, \<open>uri\<close> the rest of the
  request and \<open>off\<close> its offset. For every parameter the name and the offsets of its value are
  kept. The result of \<^verbatim>\<open>uo_strdiff\<close> is read without a check.
\<close>

fun match_params ::
  "nat \<Rightarrow> string \<Rightarrow> string \<Rightarrow> nat \<Rightarrow> ((string \<times> nat \<times> nat) list \<times> string \<times> string) option cres" where
  "match_params 0 pat uri off = Inr (Some ([], pat, uri))"
| "match_params (Suc i) pat uri off =
     (case uo_strdiff (cstr pat) uri of
        None \<Rightarrow> Inl NullDeref
      | Some d \<Rightarrow>
          if chr_at (cstr pat) d \<noteq> CHR ''{'' then Inr None
          else
            let name = cstr (drop (d + 1) pat);
                pat = drop (d + length (cstr (drop d pat)) + 1) pat
            in if pat = [] then Inl OutOfBounds
               else case strchr_end (drop d uri) (hd pat) of
                 None \<Rightarrow> Inr None
               | Some e \<Rightarrow>
                   res_bind (match_params i pat (drop (d + e) uri) (off + d + e)) (\<lambda>r.
                     Inr (map_option (\<lambda>(ps, pat, uri). ((name, off + d, off + d + e) # ps, pat, uri)) r)))"

text \<open>The end of the pattern: the rest is the same, or differs first at a star.\<close>

definition match_end :: "string \<Rightarrow> string \<Rightarrow> bool" where
  "match_end pat uri =
     (case uo_strdiff (cstr pat) uri of None \<Rightarrow> True | Some d \<Rightarrow> chr_at (cstr pat) d = CHR ''*'')"

text \<open>
  The values are cut out of a copy of the request from the first value on, by a terminator
  at the end of each, and stored under the names.
\<close>

fun cut_values :: "nat \<Rightarrow> (string \<times> nat \<times> nat) list \<Rightarrow> string \<Rightarrow> string" where
  "cut_values first [] buf = buf"
| "cut_values first ((_, _, e) # ps) buf = cut_values first ps (buf[e - first := NUL])"

fun store_params ::
  "nat \<Rightarrow> string \<Rightarrow> (string \<times> nat \<times> nat) list \<Rightarrow> string uo_hashtbl \<Rightarrow> string list \<Rightarrow> (string uo_hashtbl \<times> string list) run" where
  "store_params first buf [] params strs = Some (Inr (params, strs))"
| "store_params first buf ((name, s, _) # ps) params strs =
     run_bind (strtab_set params strs name (Some (cstr (drop (s - first) buf)))) (\<lambda>(params, strs).
       store_params first buf ps params strs)"

definition uo_http_req_handler_try ::
  "'c uo_http_req_handler \<Rightarrow> string \<Rightarrow> string uo_hashtbl \<Rightarrow> string list \<Rightarrow> msg_ref list
     \<Rightarrow> (bool \<times> string uo_hashtbl \<times> string list \<times> msg_ref list) run" where
  "uo_http_req_handler_try h method_sp_uri params strs refstack =
     (if rh_param_count h = 0
      then Some (Inr (match_end (rh_req_pattern h) method_sp_uri, params, strs, refstack))
      else
        run_bind (Some (match_params (rh_param_count h) (rh_req_pattern h) method_sp_uri 0)) (\<lambda>r.
        case r of
          None \<Rightarrow> Some (Inr (False, params, strs, refstack))
        | Some (ps, pat, uri) \<Rightarrow>
            if \<not> match_end pat uri then Some (Inr (False, params, strs, refstack))
            else
              let first = fst (snd (hd ps));
                  buf = cut_values first ps (drop first method_sp_uri @ [NUL])
              in run_bind (store_params first buf ps params strs) (\<lambda>(params, strs).
                   Some (Inr (True, params, strs, refstack @ [Block buf])))))"

section \<open>Patterns\<close>

text \<open>
  A pattern is a list of literals with the parameter that follows each, and an end. The block
  that a handler keeps for it, and a request that fills the parameters in.
\<close>

fun pattern_text :: "(string \<times> string) list \<Rightarrow> string \<Rightarrow> string" where
  "pattern_text [] fin = fin"
| "pattern_text ((lit, name) # segs) fin = lit @ ''{'' @ name @ ''}'' @ pattern_text segs fin"

fun pattern_block :: "(string \<times> string) list \<Rightarrow> string \<Rightarrow> string" where
  "pattern_block [] fin = fin"
| "pattern_block ((lit, name) # segs) fin = lit @ ''{'' @ name @ [NUL] @ pattern_block segs fin"

fun fill :: "(string \<times> string) list \<Rightarrow> string list \<Rightarrow> string \<Rightarrow> string" where
  "fill ((lit, name) # segs) (v # vs) rest = lit @ v @ fill segs vs rest"
| "fill _ _ rest = rest"

definition braceless :: "string \<Rightarrow> bool" where
  "braceless s \<longleftrightarrow> NUL \<notin> set s \<and> CHR ''{'' \<notin> set s \<and> CHR ''}'' \<notin> set s"

definition pattern_ok :: "(string \<times> string) list \<Rightarrow> string \<Rightarrow> bool" where
  "pattern_ok segs fin \<longleftrightarrow>
     list_all (\<lambda>(lit, name). braceless lit \<and> braceless name) segs \<and> braceless fin"

lemma split_params_pattern:
  assumes "pattern_ok segs fin"
  shows "split_params (pattern_text segs fin) = Inr (pattern_block segs fin, length segs)"
  using assms
proof (induction segs)
  case Nil
  then have "find_idx (\<lambda>c. c = CHR ''{'') fin = None" by (auto simp: find_idx_None pattern_ok_def braceless_def)
  then show ?case by (simp add: split_params.simps [of "fin"])
next
  case (Cons s segs)
  obtain lit name where s: "s = (lit, name)" by (cases s)
  let ?r = "pattern_text segs fin"
  have ok: "braceless lit" "braceless name" "pattern_ok segs fin" using Cons.prems s by (auto simp: pattern_ok_def)
  have i: "find_idx (\<lambda>c. c = CHR ''{'') (lit @ ''{'' @ name @ ''}'' @ ?r) = Some (length lit)"
    using find_idx_append_first [of lit "\<lambda>c. c = CHR ''{''"] ok(1) by (auto simp: braceless_def)
  have "find_idx (\<lambda>c. c = CHR ''}'') ((''{'' @ name) @ CHR ''}'' # ?r) = Some (length (''{'' @ name))"
    by (rule find_idx_append_first) (use ok(2) in \<open>auto simp: braceless_def\<close>)
  then have j: "find_idx (\<lambda>c. c = CHR ''}'') (drop (length lit) (lit @ ''{'' @ name @ ''}'' @ ?r)) = Some (length name + 1)"
    by simp
  show ?case
    using Cons.IH [OF ok(3)] s i j by (simp add: split_params.simps [of "lit @ ''{'' @ name @ ''}'' @ ?r", simplified])
qed

section \<open>Matching a request that fills a pattern in\<close>

definition next_char :: "(string \<times> string) list \<Rightarrow> string \<Rightarrow> char" where
  "next_char segs fin = hd (pattern_block segs fin @ [NUL])"

text \<open>
  The values that a pattern can tell apart: none contains the character that follows its
  parameter, the request goes on with that character, and none begins with an opening brace.
\<close>

fun fill_ok :: "(string \<times> string) list \<Rightarrow> string list \<Rightarrow> string \<Rightarrow> string \<Rightarrow> bool" where
  "fill_ok [] vs fin rest \<longleftrightarrow> vs = []"
| "fill_ok (seg # segs) [] fin rest \<longleftrightarrow> False"
| "fill_ok (seg # segs) (v # vs) fin rest \<longleftrightarrow>
     next_char segs fin \<notin> set v \<and> no_nul v \<and> chr_at (fill segs vs rest) 0 = next_char segs fin
     \<and> chr_at (v @ fill segs vs rest) 0 \<noteq> CHR ''{'' \<and> fill_ok segs vs fin rest"

fun spans :: "nat \<Rightarrow> (string \<times> string) list \<Rightarrow> string list \<Rightarrow> (string \<times> nat \<times> nat) list" where
  "spans off ((lit, name) # segs) (v # vs) =
     (name, off + length lit, off + length lit + length v) # spans (off + length lit + length v) segs vs"
| "spans off _ _ = []"

lemma strdiff_brace:
  assumes "chr_at t 0 \<noteq> CHR ''{''"
  shows "uo_strdiff (lit @ CHR ''{'' # name) (lit @ t) = Some (length lit)"
proof -
  have "uo_strdiff (CHR ''{'' # name) t = Some 0" using assms by (cases t) (auto simp: chr_at_def)
  then show ?thesis by (simp add: uo_strdiff_append)
qed

lemma strchr_end_value:
  assumes "c \<notin> set v" and "chr_at r 0 = c" and "no_nul r"
  shows "strchr_end (v @ r) c = Some (length v)"
proof (cases r)
  case Nil
  then show ?thesis using assms(2) by (simp add: strchr_end_def chr_at_def)
next
  case (Cons x xs)
  then have "c = x" "x \<noteq> NUL" using assms(2,3) by (auto simp: chr_at_def no_nul_def)
  then show ?thesis using find_idx_append_first [of v "\<lambda>x. x = c" c xs] assms(1) Cons by (auto simp: strchr_end_def)
qed

lemma match_params_fill:
  assumes "pattern_ok segs fin" and "fill_ok segs vs fin rest" and "no_nul (fill segs vs rest)"
  shows "match_params (length segs) (pattern_block segs fin @ [NUL, NUL]) (fill segs vs rest) off
     = Inr (Some (spans off segs vs, fin @ [NUL, NUL], rest))"
  using assms
proof (induction segs arbitrary: vs off)
  case Nil
  then show ?case by simp
next
  case (Cons s segs)
  obtain lit name where s: "s = (lit, name)" by (cases s)
  obtain v vs' where vs: "vs = v # vs'" using Cons.prems(2) by (cases vs) auto
  let ?r = "fill segs vs' rest" and ?p = "pattern_block segs fin @ [NUL, NUL]"
  let ?pat = "lit @ CHR ''{'' # name @ NUL # ?p"
  have nn: "no_nul (lit @ CHR ''{'' # name)" "no_nul (CHR ''{'' # name)" "no_nul name" "no_nul ?r"
    using Cons.prems(1,3) s vs by (auto simp: pattern_ok_def braceless_def no_nul_def)
  have c1: "cstr ?pat = lit @ CHR ''{'' # name" using cstr_append [OF nn(1), of "NUL # ?p"] by (simp add: cstr_def)
  have c2: "cstr (drop (length lit) ?pat) = CHR ''{'' # name"
    using cstr_append [OF nn(2), of "NUL # ?p"] by (simp add: cstr_def)
  have c3: "cstr (drop (length lit + 1) ?pat) = name" using cstr_append [OF nn(3), of "NUL # ?p"] by (simp add: cstr_def)
  have d: "uo_strdiff (cstr ?pat) (lit @ v @ ?r) = Some (length lit)"
    using strdiff_brace Cons.prems(2) s vs unfolding c1 by simp
  have hd: "hd ?p = next_char segs fin" by (cases "pattern_block segs fin") (auto simp: next_char_def)
  have e: "strchr_end (v @ ?r) (hd ?p) = Some (length v)"
    using Cons.prems(2) vs hd nn(4) by (intro strchr_end_value) auto
  have "drop (length lit + length (CHR ''{'' # name) + 1) ?pat = ?p" by simp
  moreover have "match_params (length segs) ?p ?r (off + length lit + length v)
      = Inr (Some (spans (off + length lit + length v) segs vs', fin @ [NUL, NUL], rest))"
    using Cons.IH [of vs'] Cons.prems(1,2) s vs nn(4) by (auto simp: pattern_ok_def)
  moreover have "chr_at (cstr ?pat) (length lit) = CHR ''{''" unfolding c1 by (simp add: chr_at_def)
  ultimately show ?case using s vs d c2 c3 e by (simp add: Let_def)
qed

text \<open>Cutting the values out.\<close>

fun cut_text :: "(string \<times> string) list \<Rightarrow> string list \<Rightarrow> string \<Rightarrow> string" where
  "cut_text ((lit, name) # segs) (v # vs) tail = lit @ v @ NUL # tl (cut_text segs vs tail)"
| "cut_text _ _ tail = tail"

lemma cut_values_update: "cut_values first ps (buf[k := NUL]) = (cut_values first ps buf)[k := NUL]"
  by (induction first ps buf rule: cut_values.induct) (auto simp: list_update_swap, metis list_update_overwrite list_update_swap)

lemma cut_text_nonempty: "tail \<noteq> [] \<Longrightarrow> cut_text segs vs tail \<noteq> []"
  by (induction segs vs tail rule: cut_text.induct) auto

lemma cut_values_spans:
  assumes "length pre + first = off" and "fill_ok segs vs fin rest"
  shows "cut_values first (spans off segs vs) (pre @ fill segs vs rest @ [NUL]) = pre @ cut_text segs vs (rest @ [NUL])"
  using assms
proof (induction segs arbitrary: vs pre off)
  case Nil
  then show ?case by simp
next
  case (Cons s segs)
  obtain lit name where s: "s = (lit, name)" by (cases s)
  obtain v vs' where vs: "vs = v # vs'" using Cons.prems(2) by (cases vs) auto
  let ?pre = "pre @ lit @ v" and ?off = "off + length lit + length v"
  let ?b = "?pre @ fill segs vs' rest @ [NUL]" and ?T = "cut_text segs vs' (rest @ [NUL])"
  have IH: "cut_values first (spans ?off segs vs') ?b = ?pre @ ?T"
    using Cons.IH [of ?pre ?off vs'] Cons.prems vs by simp
  have u: "(?pre @ X)[?off - first := NUL] = ?pre @ NUL # tl X" if "X \<noteq> []" for X
    using Cons.prems(1) that by (cases X) (auto simp: list_update_append)
  have "cut_values first (spans off (s # segs) vs) ?b = cut_values first (spans ?off segs vs') (?b[?off - first := NUL])"
    by (simp add: s vs)
  also have "\<dots> = ?pre @ NUL # tl ?T" unfolding cut_values_update IH by (rule u) (simp add: cut_text_nonempty)
  finally show ?case by (simp add: s vs)
qed

fun values_at :: "nat \<Rightarrow> string \<Rightarrow> nat \<Rightarrow> (string \<times> string) list \<Rightarrow> string list \<Rightarrow> bool" where
  "values_at first buf off ((lit, name) # segs) (v # vs) \<longleftrightarrow>
     cstr (drop (off + length lit - first) buf) = v \<and> values_at first buf (off + length lit + length v) segs vs"
| "values_at first buf off _ _ \<longleftrightarrow> True"

lemma values_at_cut:
  assumes "fill_ok segs vs fin rest" and "first \<le> off"
    and "drop (off - first) buf = cut_text segs vs (rest @ [NUL])
      \<or> drop (off - first) buf = NUL # tl (cut_text segs vs (rest @ [NUL])) \<and> (segs \<noteq> [] \<longrightarrow> fst (hd segs) \<noteq> [])"
  shows "values_at first buf off segs vs"
  using assms
proof (induction segs arbitrary: vs off)
  case Nil
  then show ?case by simp
next
  case (Cons s segs)
  obtain lit name where s: "s = (lit, name)" by (cases s)
  obtain v vs' where vs: "vs = v # vs'" using Cons.prems(1) by (cases vs) auto
  let ?t = "NUL # tl (cut_text segs vs' (rest @ [NUL]))"
  have ad: "off + length lit - first = length lit + (off - first)" using Cons.prems(2) by simp
  have "drop (length lit) (drop (off - first) buf) = v @ ?t" using Cons.prems(3) s vs by (cases lit) (auto simp del: drop_drop)
  then have d: "drop (off + length lit - first) buf = v @ ?t" by (simp add: ad)
  then have "cstr (drop (off + length lit - first) buf) = v"
    using Cons.prems(1) vs by (simp add: cstr_append) (simp add: cstr_def)
  moreover have "drop (off + length lit + length v - first) buf = ?t"
  proof -
    have "off + length lit + length v - first = length v + (off + length lit - first)" using Cons.prems(2) by simp
    then have "drop (off + length lit + length v - first) buf = drop (length v) (drop (off + length lit - first) buf)" by simp
    then show ?thesis unfolding d by simp
  qed
  moreover have "fst (hd segs) \<noteq> []" if "segs \<noteq> []"
  proof
    assume "fst (hd segs) = []"
    then obtain name' segs' where sg: "segs = ([], name') # segs'" using \<open>segs \<noteq> []\<close> by (cases segs) auto
    then obtain v' vs'' where "vs' = v' # vs''" using Cons.prems(1) vs by (cases vs') auto
    then show False using Cons.prems(1) vs sg by (auto simp: next_char_def)
  qed
  ultimately show ?case using Cons.IH [of vs' "off + length lit + length v"] Cons.prems(1,2) s vs by auto
qed

lemma store_params_rel:
  assumes "values_at first buf off segs vs" and "length segs = length vs"
    and "strtab_rel params strs acc" and "length strs + length vs < 2 ^ 60"
  shows "\<exists>params' strs'. store_params first buf (spans off segs vs) params strs = Some (Inr (params', strs'))
           \<and> strtab_rel params' strs' (updates acc (zip (map snd segs) vs))"
  using assms
proof (induction segs arbitrary: vs off params strs acc)
  case Nil
  then show ?case by auto
next
  case (Cons s segs)
  obtain lit name where s: "s = (lit, name)" by (cases s)
  obtain v vs' where vs: "vs = v # vs'" using Cons.prems(2) by (cases vs) auto
  obtain t where t: "strtab_set params strs name (Some v) = Some (Inr (t, strs @ [v]))"
    "strtab_rel t (strs @ [v]) (AList.update name v acc)"
    using strtab_set_rel [OF Cons.prems(3), of name v] Cons.prems(4) vs by auto
  then show ?case
    using Cons.IH [OF _ _ t(2), of "off + length lit + length v" vs'] Cons.prems(1,2,4) s vs by auto
qed

lemma match_params_equal:
  assumes "cstr pat = uri"
  shows "match_params (Suc n) pat uri off = Inl NullDeref"
proof -
  have "uo_strdiff (cstr pat) uri = None" using assms by simp
  then show ?thesis by (simp only: match_params.simps option.case)
qed

lemma try_fill:
  assumes "pattern_ok segs fin" and "segs \<noteq> []" and "fill_ok segs vs fin rest"
    and "no_nul (fill segs vs rest)" and "match_end (fin @ [NUL]) rest"
    and "strtab_rel params strs acc" and "length strs + length segs < 2 ^ 60"
  shows "\<exists>h params' strs' refs. uo_http_req_handler_create (pattern_text segs fin) cb = Inr h
    \<and> uo_http_req_handler_try h (fill segs vs rest) params strs refstack = Some (Inr (True, params', strs', refs))
    \<and> strtab_rel params' strs' (updates acc (zip (map snd segs) vs))"
proof -
  let ?h = "\<lparr> rh_cb = cb, rh_req_pattern = pattern_block segs fin @ [NUL, NUL], rh_param_count = length segs \<rparr>"
  obtain lit name segs' where segs: "segs = (lit, name) # segs'" using assms(2) by (cases segs) auto
  then obtain v vs' where vs: "vs = v # vs'" using assms(3) by (cases vs) auto
  have len: "length segs = length vs" using assms(3) by (induction segs vs "fin" rest rule: fill_ok.induct) auto
  let ?req = "fill segs vs rest" and ?n = "length lit" and ?s = "([], name) # segs'"
  define buf where "buf = cut_values ?n (spans 0 segs vs) (drop ?n ?req @ [NUL])"
  have fo: "fill_ok ?s vs fin rest" using assms(3) segs vs by simp
  have sp: "spans 0 segs vs = spans ?n ?s vs" using segs vs by simp
  have "drop ?n ?req = fill ?s vs rest" using segs vs by simp
  then have "buf = cut_text ?s vs (rest @ [NUL])"
    using cut_values_spans [OF _ fo, of "[]" ?n ?n] by (simp add: buf_def sp)
  then have "values_at ?n buf ?n ?s vs" using values_at_cut [OF fo] by simp
  from store_params_rel [OF this _ assms(6)] len assms(7) segs
  obtain params' strs' where st: "store_params ?n buf (spans 0 segs vs) params strs = Some (Inr (params', strs'))"
    "strtab_rel params' strs' (updates acc (zip (map snd segs) vs))" unfolding sp by auto
  have c: "uo_http_req_handler_create (pattern_text segs fin) cb = Inr ?h"
    using split_params_pattern [OF assms(1)] by (simp add: uo_http_req_handler_create_def)
  have "no_nul fin" using assms(1) by (simp add: pattern_ok_def braceless_def no_nul_def)
  then have ce: "cstr (fin @ [NUL, NUL]) = cstr (fin @ [NUL])" by (simp add: cstr_append) (simp add: cstr_def)
  have me: "match_end (fin @ [NUL, NUL]) rest" using assms(5) unfolding match_end_def ce .
  have hd: "fst (snd (hd (spans 0 segs vs))) = ?n" using segs vs by simp
  have "uo_http_req_handler_try ?h ?req params strs refstack = Some (Inr (True, params', strs', refstack @ [Block buf]))"
    unfolding uo_http_req_handler_try_def
    using match_params_fill [OF assms(1,3,4), of 0] me hd st(1) assms(2) by (simp add: Let_def buf_def [symmetric])
  with c st(2) show ?thesis by blast
qed

section \<open>Properties\<close>

text \<open>
  C14: a handler whose pattern has parameters accepts every request that fills the pattern in,
  and stores exactly the values filled in under the names of the parameters, the last one where
  a name occurs twice. The rest of the request matches the end of the pattern exactly, or up to
  a star in it. The values do not contain the character that follows their parameter.
\<close>

theorem uo_http_req_handler_matches:
  assumes "pattern_ok segs fin" and "segs \<noteq> []" and "fill_ok segs vs fin rest"
    and "no_nul (fill segs vs rest)" and "match_end (fin @ [NUL]) rest"
    and "strtab_rel params strs acc" and "length strs + length segs < 2 ^ 60"
  shows "\<exists>h params' strs' refs. uo_http_req_handler_create (pattern_text segs fin) cb = Inr h
    \<and> uo_http_req_handler_try h (fill segs vs rest) params strs refstack = Some (Inr (True, params', strs', refs))
    \<and> strtab_rel params' strs' (updates acc (zip (map snd segs) vs))"
  by (rule try_fill [OF assms])

theorem uo_http_req_handler_matches_witness:
  "\<exists>h params strs refs. uo_http_req_handler_create ''GET /u/{id}/p*'' () = Inr h
    \<and> uo_http_req_handler_try h ''GET /u/42/p/x?y'' (uo_hashtbl_create_at 0) [] [] = Some (Inr (True, params, strs, refs))
    \<and> strtab_get params strs ''id'' = Some (Inr (Some ''42''))"
proof -
  let ?segs = "[(''GET /u/'', ''id'')]" and ?vs = "[''42'']" and ?fin = "''/p*''" and ?rest = "''/p/x?y''"
  have h: "pattern_ok ?segs ?fin" "fill_ok ?segs ?vs ?fin ?rest" "no_nul (fill ?segs ?vs ?rest)" "match_end (?fin @ [NUL]) ?rest"
    unfolding pattern_ok_def braceless_def no_nul_def by code_simp+
  have "\<exists>h params strs refs. uo_http_req_handler_create (pattern_text ?segs ?fin) () = Inr h
    \<and> uo_http_req_handler_try h (fill ?segs ?vs ?rest) (uo_hashtbl_create_at 0) [] [] = Some (Inr (True, params, strs, refs))
    \<and> strtab_rel params strs (updates [] (zip (map snd ?segs) ?vs))"
    by (rule uo_http_req_handler_matches [OF h(1) _ h(2-4) strtab_rel_create]) simp_all
  then obtain h params strs refs where *: "uo_http_req_handler_create ''GET /u/{id}/p*'' () = Inr h"
    "uo_http_req_handler_try h ''GET /u/42/p/x?y'' (uo_hashtbl_create_at 0) [] [] = Some (Inr (True, params, strs, refs))"
    "strtab_rel params strs [(''id'', ''42'')]" by auto
  with strtab_get_rel [OF *(3), of "''id''"] show ?thesis by auto
qed

text \<open>
  C37: a client can make the server follow a null pointer: a request for the text of a pattern
  up to its first closing brace, such as \<^verbatim>\<open>GET /users/{id\<close>, is equal to the string that the pattern
  block begins with, for which \<^verbatim>\<open>uo_strdiff\<close> returns \<^verbatim>\<open>NULL\<close>.
\<close>

theorem uo_http_req_handler_null_deref:
  assumes "pattern_ok ((lit, name) # segs) fin"
  shows "\<exists>h. uo_http_req_handler_create (pattern_text ((lit, name) # segs) fin) cb = Inr h
    \<and> uo_http_req_handler_try h (lit @ ''{'' @ name) params strs refstack = Some (Inl NullDeref)"
proof -
  let ?b = "pattern_block ((lit, name) # segs) fin @ [NUL, NUL]"
  have "no_nul (lit @ ''{'' @ name)" using assms by (auto simp: pattern_ok_def braceless_def no_nul_def)
  from cstr_append [OF this, of "[NUL] @ pattern_block segs fin @ [NUL, NUL]"]
  have "cstr ?b = lit @ ''{'' @ name" by (simp add: cstr_def)
  from match_params_equal [OF this, of "length segs" 0]
  show ?thesis
    using split_params_pattern [OF assms]
    by (simp add: uo_http_req_handler_create_def uo_http_req_handler_try_def del: match_params.simps)
qed

theorem uo_http_req_handler_null_deref_witness:
  "\<exists>h. uo_http_req_handler_create ''GET /u/{id}'' () = Inr h
    \<and> uo_http_req_handler_try h ''GET /u/{id'' (uo_hashtbl_create_at 0) [] [] = Some (Inl NullDeref)"
proof -
  have "pattern_ok [(''GET /u/'', ''id'')] []" unfolding pattern_ok_def braceless_def by code_simp
  from uo_http_req_handler_null_deref [OF this, of "()" "uo_hashtbl_create_at 0" "[]" "[]"] show ?thesis by simp
qed

end
