(* ===== verification/Http_Conn.thy ===== *)
theory Http_Conn
  imports Http_Wire Req_Handler Tcp_Flow Json
begin

text \<open>
  \<^verbatim>\<open>uo_http/src/uo_http_conn.c\<close>: an HTTP connection on top of a TCP connection, with the request and
  the response that are under way. For a server the request is parsed from the receive buffer
  of the TCP connection and the response composed; for a client it is the other way round.
\<close>

text \<open>
  Functions on the callbacks of HTTP connections: those of the library, where a server and a
  client have functions of their own under each name, and the application's.
\<close>

datatype 'a http_func = Pass_cb_to_tcp | Http_after_close | Evt_after_close | Evt_before_close
  | After_send_response | Evt_after_send | Before_send_msg | Evt_before_send
  | Process_req_handlers | Evt_after_recv | Evt_after_open | App 'a

datatype http_ptr = HttpConn

type_synonym 'a http_handler = "('a http_func, http_ptr) handler"

record 'a uo_http_conn_evt_handlers =
  he_after_open :: "'a http_handler"
  he_after_recv_headers :: "'a http_handler"
  he_after_recv_msg :: "'a http_handler"
  he_before_send_msg :: "'a http_handler"
  he_after_send_msg :: "'a http_handler"
  he_before_close :: "'a http_handler"
  he_after_close :: "'a http_handler"

text \<open>
  The data scanned from the request is a table of strings with \<open>hc_req_strs\<close> as the strings it
  points to. \<open>hc_prev_handler\<close> is how many request handlers have been tried. The server or client
  that the connection points to, with its user data and event handlers, is kept beside it.
\<close>

record uo_http_conn =
  hc_user_data :: "string uo_hashtbl"
  hc_req_data :: "string uo_hashtbl"
  hc_req_strs :: "string list"
  hc_http_req :: uo_http_msg
  hc_http_res :: uo_http_msg
  hc_prev_handler :: nat
  hc_buf :: uo_buf

definition uo_http_conn_create_for_client :: uo_http_conn where
  "uo_http_conn_create_for_client =
     \<lparr> hc_user_data = uo_hashtbl_create_at 0, hc_req_data = uo_hashtbl_create_at 0, hc_req_strs = [],
       hc_http_req = uo_http_msg_create_at UO_HTTP_MSG_TYPE_REQUEST UO_HTTP_MSG_ROLE_SEND,
       hc_http_res = uo_http_msg_create_at UO_HTTP_MSG_TYPE_RESPONSE UO_HTTP_MSG_ROLE_RECV,
       hc_prev_handler = 0, hc_buf = uo_buf_alloc 0x200 \<rparr>"

definition uo_http_conn_create_for_server :: uo_http_conn where
  "uo_http_conn_create_for_server =
     \<lparr> hc_user_data = uo_hashtbl_create_at 0, hc_req_data = uo_hashtbl_create_at 0, hc_req_strs = [],
       hc_http_req = uo_http_msg_create_at UO_HTTP_MSG_TYPE_REQUEST UO_HTTP_MSG_ROLE_RECV,
       hc_http_res = uo_http_msg_create_at UO_HTTP_MSG_TYPE_RESPONSE UO_HTTP_MSG_ROLE_SEND,
       hc_prev_handler = 0, hc_buf = uo_buf_alloc 0x200 \<rparr>"

text \<open>Resetting gives up what the request and then the response refer to.\<close>

definition uo_http_conn_reset :: "uo_http_conn \<Rightarrow> msg_ref list \<times> uo_http_conn" where
  "uo_http_conn_reset h =
     (let is_client = (hm_role (hc_http_req h) = UO_HTTP_MSG_ROLE_SEND);
          refs = uo_http_msg_destroy_at (hc_http_req h) @ uo_http_msg_destroy_at (hc_http_res h);
          h = h\<lparr> hc_buf := uo_buf_set_ptr_abs (hc_buf h) 0, hc_req_data := uo_hashtbl_create_at 0, hc_req_strs := [],
                 hc_prev_handler := 0 \<rparr>
      in (refs, if is_client
         then h\<lparr> hc_http_req := uo_http_msg_create_at UO_HTTP_MSG_TYPE_REQUEST UO_HTTP_MSG_ROLE_SEND,
                 hc_http_res := uo_http_msg_create_at UO_HTTP_MSG_TYPE_RESPONSE UO_HTTP_MSG_ROLE_RECV \<rparr>
         else h\<lparr> hc_http_req := uo_http_msg_create_at UO_HTTP_MSG_TYPE_REQUEST UO_HTTP_MSG_ROLE_RECV,
                 hc_http_res := uo_http_msg_create_at UO_HTTP_MSG_TYPE_RESPONSE UO_HTTP_MSG_ROLE_SEND \<rparr>))"

text \<open>The string that begins at the start of a block, up to its first terminator.\<close>

definition block_string :: "char option list \<Rightarrow> string cres" where
  "block_string b =
     (let s = takeWhile (\<lambda>c. c \<noteq> Some NUL) b
      in if None \<in> set s then Inl Uninitialised
         else if length s = length b then Inl OutOfBounds
         else Inr (map the s))"

text \<open>
  The block for a value that was found at \<open>start\<close>: the value, decoded if it is a string, a
  terminator, and the key as a string. For other values the terminator is placed as far from
  the start as the key is long.
\<close>

definition req_data_block :: "string \<Rightarrow> nat \<Rightarrow> nat \<Rightarrow> string \<Rightarrow> char option list option cres" where
  "req_data_block body start json_len key =
     (let key_len = length key;
          json_value = take json_len (drop start body);
          block = map Some json_value @ replicate (key_len + 2) None
      in res_bind
           (if chr_at body start = CHR 0x22
            then res_bind (uo_json_decode_utf8 (drop start body) json_len) (\<lambda>d.
                   case d of None \<Rightarrow> Inr None
                   | Some t \<Rightarrow> res_bind (store block 0 (map Some t)) (\<lambda>block. Inr (Some (block, length t))))
            else Inr (Some (block, key_len)))
           (\<lambda>r. case r of None \<Rightarrow> Inr None
            | Some (block, p) \<Rightarrow>
                res_bind (store block (int p) (map Some ([NUL] @ key @ [NUL]))) (\<lambda>block. Inr (Some block))))"

definition uo_http_conn_get_req_data :: "uo_http_conn \<Rightarrow> string \<Rightarrow> (string option \<times> uo_http_conn) run" where
  "uo_http_conn_get_req_data h key =
     run_bind (strtab_get (hc_req_data h) (hc_req_strs h) key) (\<lambda>data.
     case data of Some d \<Rightarrow> Some (Inr (Some d, h)) | None \<Rightarrow>
       (case hm_body (hc_http_req h) of None \<Rightarrow> Some (Inr (None, h)) | Some content \<Rightarrow>
          let body = cstr content in
          run_bind (uo_http_msg_get_header (hc_http_req h) ''content-type'') (\<lambda>content_type.
          case content_type of None \<Rightarrow> Some (Inr (None, h)) | Some ct \<Rightarrow>
            if \<not> uo_isprefix ''application/json'' ct then Some (Inr (None, h))
            else
              run_bind (uo_json_find_value body key) (\<lambda>v.
              case v of None \<Rightarrow> Some (Inr (None, h)) | Some start \<Rightarrow>
                run_bind (uo_json_find_end body start) (\<lambda>e.
                case e of None \<Rightarrow> Some (Inr (None, h)) | Some fin \<Rightarrow>
                  run_bind (Some (req_data_block body start (fin - start) key)) (\<lambda>b.
                  let h = h\<lparr> hc_http_req := push_ref (hc_http_req h) (Block (take (fin - start) (drop start body))) \<rparr>
                  in case b of None \<Rightarrow> Some (Inr (None, h)) | Some block \<Rightarrow>
                    run_bind (Some (block_string block)) (\<lambda>d.
                    run_bind (strtab_set (hc_req_data h) (hc_req_strs h) key (Some d)) (\<lambda>(t, strs).
                      Some (Inr (Some d, h\<lparr> hc_req_data := t, hc_req_strs := strs \<rparr>)))))))))) "

definition uo_http_conn_get_user_data :: "string uo_hashtbl \<Rightarrow> uo_http_conn \<Rightarrow> string \<Rightarrow> 64 word option" where
  "uo_http_conn_get_user_data shared_user_data h key =
     (case uo_strhashtbl_get (hc_user_data h) (Some key) of
        None \<Rightarrow> None
      | Some user_data \<Rightarrow>
          if user_data \<noteq> 0 then Some user_data
          else uo_strhashtbl_get shared_user_data (Some key))"

definition uo_http_conn_set_user_data :: "uo_http_conn \<Rightarrow> string \<Rightarrow> 64 word \<Rightarrow> uo_http_conn run" where
  "uo_http_conn_set_user_data h key user_data =
     run_bind (uo_strhashtbl_set (hc_user_data h) (Some key) user_data) (\<lambda>t.
       Some (Inr (h\<lparr> hc_user_data := t \<rparr>)))"

text \<open>What destruction releases of the response and then of the request.\<close>

definition uo_http_conn_destroy :: "uo_http_conn \<Rightarrow> msg_ref list" where
  "uo_http_conn_destroy h = uo_http_msg_destroy_at (hc_http_res h) @ uo_http_msg_destroy_at (hc_http_req h)"

definition uo_http_conn_next_close :: "('u, 'p) uo_tcp_conn \<Rightarrow> ('u, 'p) uo_tcp_conn" where
  "uo_http_conn_next_close c = uo_tcp_conn_next_close c"

section \<open>The state of a connection\<close>

text \<open>
  A TCP connection with its HTTP connection, which is at the address \<open>http_addr\<close>; \<open>released\<close> are
  the references that were given up.
\<close>

record 'a http = "('a http_func, http_ptr) tcp" +
  http_conn :: "uo_http_conn option"
  http_addr :: "64 word"
  released :: "msg_ref list"

text \<open>The HTTP connection that a TCP connection refers to, and the one on the bottom of the stack.\<close>

definition http_of :: "('a, 'z) http_scheme \<Rightarrow> ('a http_func, http_ptr) uo_tcp_conn \<Rightarrow> uo_http_conn run" where
  "http_of s c =
     (case uo_tcp_conn_get_user_data c ''http_conn'' of
        None \<Rightarrow> None
      | Some ptr \<Rightarrow>
          if ptr = 0 then Some (Inl NullDeref)
          else (case http_conn s of None \<Rightarrow> Some (Inl UseAfterFree) | Some h \<Rightarrow> Some (Inr h)))"

definition the_http :: "('a, 'z) http_scheme \<Rightarrow> uo_http_conn cres" where
  "the_http s = (case cb_data s of
       [] \<Rightarrow> Inl OutOfBounds
     | d # _ \<Rightarrow> (case d of
           Ptr HttpConn \<Rightarrow> (case http_conn s of None \<Rightarrow> Inl UseAfterFree | Some h \<Rightarrow> Inr h)
         | _ \<Rightarrow> Inl WrongPointer))"

text \<open>Popping a connection off the stack.\<close>

definition pop_tcp :: "('a, 'z) http_scheme \<Rightarrow> (('a http_func, http_ptr) uo_tcp_conn \<times> ('a, 'z) http_scheme) cres" where
  "pop_tcp s =
     res_bind (cb_pop s) (\<lambda>(d, s). case d of
         TcpConn \<Rightarrow> (case conn s of None \<Rightarrow> Inl UseAfterFree | Some c \<Rightarrow> Inr (c, s))
       | _ \<Rightarrow> Inl WrongPointer)"

definition pop_http :: "('a, 'z) http_scheme \<Rightarrow> (uo_http_conn \<times> ('a, 'z) http_scheme) cres" where
  "pop_http s =
     res_bind (cb_pop s) (\<lambda>(d, s). case d of
         Ptr HttpConn \<Rightarrow> (case http_conn s of None \<Rightarrow> Inl UseAfterFree | Some h \<Rightarrow> Inr (h, s))
       | _ \<Rightarrow> Inl WrongPointer)"

abbreviation hfunc :: "'a http_func \<Rightarrow> 'a http_handler" where
  "hfunc f \<equiv> ([], [Usr f])"

definition no_http_handlers :: "'a uo_http_conn_evt_handlers" where
  "no_http_handlers = \<lparr> he_after_open = ([], []), he_after_recv_headers = ([], []), he_after_recv_msg = ([], []),
     he_before_send_msg = ([], []), he_after_send_msg = ([], []), he_before_close = ([], []), he_after_close = ([], []) \<rparr>"

end
