(* ===== verification/File_Server.thy ===== *)
theory File_Server
  imports Http_Conn
begin

text \<open>
  \<^verbatim>\<open>uo_http/src/uo_http_file_server.c\<close>: files of a directory are served to \<^verbatim>\<open>GET\<close> requests and kept in
  a cache of limited size. An entry of the cache is read again when the modification time of
  its file changes. Responses share the content of an entry by a reference count.

  The operations are modelled as one thread runs them; the mutexes of the server and of the
  entries are left out. The file system is input: what \<^verbatim>\<open>stat\<close> tells of a name, and the bytes
  that a file delivers when it can be opened.
\<close>

section \<open>Data\<close>

datatype file_mode = S_IFREG | S_IFDIR | S_IFOTHER

record stat_t =
  st_mode :: file_mode
  st_mtime :: int
  st_size :: nat

record file_system =
  fs_stat :: "string \<Rightarrow> stat_t option"
  fs_fopen :: "string \<Rightarrow> string option"

record uo_http_file_cache_entry =
  ce_filename :: string
  ce_uri :: string
  ce_filetype :: string
  ce_content_ref :: nat
  ce_mtime :: int
  ce_size :: nat

text \<open>
  The server, with the entries and the shared contents that are allocated, by address. A
  content is a block of bytes and the number of references to it, which \<^verbatim>\<open>uo_refcount\<close> keeps.
  The table of the cache maps request targets to the addresses of entries.
\<close>

record uo_http_file_server =
  fs_cache :: "string uo_hashtbl"
  fs_dirname :: string
  fs_cache_space :: "64 word"
  fs_entries :: "nat \<Rightarrow> uo_http_file_cache_entry option"
  fs_contents :: "nat \<Rightarrow> (char option list \<times> nat) option"
  fs_next :: nat

definition content_create :: "uo_http_file_server \<Rightarrow> char option list \<Rightarrow> nat \<times> uo_http_file_server" where
  "content_create st block = (fs_next st, st\<lparr> fs_contents := (fs_contents st)(fs_next st \<mapsto> (block, 1)), fs_next := fs_next st + 1 \<rparr>)"

definition content_inc :: "uo_http_file_server \<Rightarrow> nat \<Rightarrow> uo_http_file_server cres" where
  "content_inc st r = (case fs_contents st r of
       None \<Rightarrow> Inl UseAfterFree
     | Some (block, n) \<Rightarrow> Inr (st\<lparr> fs_contents := (fs_contents st)(r \<mapsto> (block, n + 1)) \<rparr>))"

definition content_dec :: "uo_http_file_server \<Rightarrow> nat \<Rightarrow> uo_http_file_server cres" where
  "content_dec st r = (case fs_contents st r of
       None \<Rightarrow> Inl UseAfterFree
     | Some (block, n) \<Rightarrow>
         Inr (st\<lparr> fs_contents := (fs_contents st)(r := if n = 1 then None else Some (block, n - 1)) \<rparr>))"

section \<open>Operations\<close>

definition uo_http_file_server_create :: "file_system \<Rightarrow> string \<Rightarrow> 64 word \<Rightarrow> uo_http_file_server option" where
  "uo_http_file_server_create fs dirname cache_size =
     (case fs_stat fs dirname of
        None \<Rightarrow> None
      | Some sb \<Rightarrow>
          if st_mode sb \<noteq> S_IFDIR then None
          else Some \<lparr> fs_cache = uo_hashtbl_create_at 0, fs_dirname = dirname, fs_cache_space = cache_size,
                      fs_entries = Map.empty, fs_contents = Map.empty, fs_next = 1 \<rparr>)"

definition filetype_of :: "string \<Rightarrow> string" where
  "filetype_of filename =
     (case strrchr filename CHR ''.'' of
        None \<Rightarrow> ''application/octet-stream''
      | Some i \<Rightarrow>
          let file_extension = drop i filename in
          if length file_extension > 1
          then let c = tolower (file_extension ! 1) in
               if c = CHR ''h'' then ''text/html; charset=utf-8''
               else if c = CHR ''j'' then ''application/javascript; charset=utf-8''
               else if c = CHR ''c'' then ''text/css; charset=utf-8''
               else if c = CHR ''s'' then ''image/svg+xml; charset=utf-8''
               else ''application/octet-stream''
          else ''application/octet-stream'')"

definition uo_http_file_cache_entry_create ::
  "file_system \<Rightarrow> uo_http_file_server \<Rightarrow> string \<Rightarrow> string \<Rightarrow> nat option \<times> uo_http_file_server" where
  "uo_http_file_cache_entry_create fs st uri filename =
     (case fs_stat fs filename of
        None \<Rightarrow> (None, st)
      | Some sb \<Rightarrow>
          if st_mode sb \<noteq> S_IFREG then (None, st)
          else case fs_fopen fs filename of
            None \<Rightarrow> (None, st)
          | Some bytes \<Rightarrow>
              if length bytes < st_size sb then (None, st)
              else
                let (r, st) = content_create st (map Some (take (st_size sb) bytes) @ [Some NUL]);
                    entry = \<lparr> ce_filename = filename, ce_uri = uri, ce_filetype = filetype_of filename,
                              ce_content_ref = r, ce_mtime = st_mtime sb, ce_size = st_size sb \<rparr>;
                    a = fs_next st
                in (Some a, st\<lparr> fs_entries := (fs_entries st)(a \<mapsto> entry), fs_next := a + 1 \<rparr>))"

text \<open>An entry at an address that is not allocated has been freed.\<close>

definition entry_at :: "uo_http_file_server \<Rightarrow> nat \<Rightarrow> uo_http_file_cache_entry cres" where
  "entry_at st a = (case fs_entries st a of None \<Rightarrow> Inl UseAfterFree | Some e \<Rightarrow> Inr e)"

definition uo_http_file_cache_entry_destroy :: "uo_http_file_server \<Rightarrow> nat \<Rightarrow> uo_http_file_server cres" where
  "uo_http_file_cache_entry_destroy st a =
     res_bind (entry_at st a) (\<lambda>e.
     res_bind (content_dec st (ce_content_ref e)) (\<lambda>st.
       Inr (st\<lparr> fs_entries := (fs_entries st)(a := None) \<rparr>)))"

definition uo_http_file_cache_entry_try_refresh ::
  "file_system \<Rightarrow> uo_http_file_server \<Rightarrow> nat \<Rightarrow> stat_t \<Rightarrow> (bool \<times> uo_http_file_server) cres" where
  "uo_http_file_cache_entry_try_refresh fs st a sb_new =
     res_bind (entry_at st a) (\<lambda>e.
       case fs_fopen fs (ce_filename e) of
         None \<Rightarrow> Inr (False, st)
       | Some bytes \<Rightarrow>
           let size' = st_size sb_new in
           res_bind (content_dec st (ce_content_ref e)) (\<lambda>st.
             let ok = (size' \<le> length bytes);
                 (r, st) = content_create st (if ok then map Some (take size' bytes) @ [Some NUL]
                             else map Some bytes @ replicate (size' + 1 - length bytes) None)
             in Inr (ok, st\<lparr> fs_entries := (fs_entries st)(a \<mapsto>
                      e\<lparr> ce_mtime := st_mtime sb_new, ce_size := size', ce_content_ref := r \<rparr>) \<rparr>)))"

text \<open>\<^verbatim>\<open>NULL\<close> is the address zero.\<close>

definition uo_http_file_server_get_cache_entry :: "uo_http_file_server \<Rightarrow> string \<Rightarrow> nat run" where
  "uo_http_file_server_get_cache_entry st uri =
     map_option (\<lambda>ptr. Inr (unat ptr)) (uo_strhashtbl_get (fs_cache st) (Some uri))"

definition uo_http_file_server_try_set_cache_entry :: "uo_http_file_server \<Rightarrow> nat \<Rightarrow> (bool \<times> uo_http_file_server) run" where
  "uo_http_file_server_try_set_cache_entry st a =
     run_bind (Some (entry_at st a)) (\<lambda>e.
     run_bind (uo_strhashtbl_remove (fs_cache st) (Some (ce_uri e))) (\<lambda>(dup, cache).
       let st = st\<lparr> fs_cache := cache \<rparr> in
     run_bind (if dup = 0 then Some (Inr st)
               else run_bind (Some (entry_at st (unat dup))) (\<lambda>d.
                      Some (uo_http_file_cache_entry_destroy
                        (st\<lparr> fs_cache_space := fs_cache_space st + of_nat (ce_size d) \<rparr>) (unat dup)))) (\<lambda>st.
     if fs_cache_space st < of_nat (ce_size e) then Some (Inr (False, st))
     else run_bind (uo_strhashtbl_set (fs_cache st) (Some (ce_uri e)) (of_nat a)) (\<lambda>cache.
            Some (Inr (True, st\<lparr> fs_cache := cache, fs_cache_space := fs_cache_space st - of_nat (ce_size e) \<rparr>))))))"

definition uo_http_file_server_remove_cache_entry :: "uo_http_file_server \<Rightarrow> string \<Rightarrow> (nat \<times> uo_http_file_server) run" where
  "uo_http_file_server_remove_cache_entry st uri =
     run_bind (uo_strhashtbl_remove (fs_cache st) (Some uri)) (\<lambda>(ptr, cache).
       if ptr = 0 then Some (Inl NullDeref)
       else run_bind (Some (entry_at st (unat ptr))) (\<lambda>e.
              Some (Inr (unat ptr, st\<lparr> fs_cache := cache, fs_cache_space := fs_cache_space st + of_nat (ce_size e) \<rparr>))))"

text \<open>
  The name of the file for a target: the directory, followed by the decoded target. The pointer
  to which the target is decoded is taken before the target is appended, so it is dangling when
  the buffer has to grow for that. \<^verbatim>\<open>index.html\<close> goes behind the target as it was received.
\<close>

definition request_filename :: "string \<Rightarrow> string \<Rightarrow> string run" where
  "request_filename dirname uri =
     run_bind (uo_buf_memcpy_append 64 (uo_buf_alloc 0x100) dirname) (\<lambda>(_, buf0).
       let p = uo_buf_get_ptr buf0; uri_len = length uri in
     run_bind (uo_buf_memcpy_append 64 buf0 uri) (\<lambda>(_, buf).
     if bf_size buf \<noteq> bf_size buf0 then Some (Inl UseAfterFree)
     else
       run_bind (Some (uo_uri_decode uri uri_len)) (\<lambda>d.
       run_bind (Some (buf_store buf p d)) (\<lambda>buf.
       if uri_len = 0 then Some (Inl OutOfBounds)
       else
         run_bind (if uri ! (uri_len - 1) = CHR ''/''
                   then run_bind (uo_buf_memcpy_append 64 buf (''index.html'' @ [NUL])) (\<lambda>(_, buf). Some (Inr buf))
                   else Some (buf_store buf (p + int (length d)) [NUL])) (\<lambda>buf.
           Some (block_string (bf_data buf)))))))"

definition not_found :: "uo_http_msg \<Rightarrow> uo_http_msg run" where
  "not_found http_res =
     run_bind (Some (uo_http_res_set_status_line http_res UO_HTTP_404 UO_HTTP_VER_1_1)) (\<lambda>(_, http_res).
       uo_http_msg_set_content http_res ''404 Not Found'' ''text/plain'' (length ''404 Not Found''))"

text \<open>The content of an entry becomes the content of the response, with a further reference to it.\<close>

definition respond_entry :: "uo_http_file_server \<Rightarrow> uo_http_file_cache_entry \<Rightarrow> uo_http_msg \<Rightarrow> (uo_http_msg \<times> uo_http_file_server) run" where
  "respond_entry st e http_res =
     run_bind (Some (uo_http_res_set_status_line http_res UO_HTTP_200 UO_HTTP_VER_1_1)) (\<lambda>(_, http_res).
     run_bind (case fs_contents st (ce_content_ref e) of
                 None \<Rightarrow> Some (Inl UseAfterFree)
               | Some (block, n) \<Rightarrow>
                   if None \<in> set (take (ce_size e) block) \<or> length block < ce_size e then Some (Inl Uninitialised)
                   else uo_http_msg_set_content_ref http_res (ce_content_ref e) (map the (take (ce_size e) block))
                          (ce_filetype e) (ce_size e)) (\<lambda>http_res.
     run_bind (Some (if ce_size e = 0 then Inr st else content_inc st (ce_content_ref e))) (\<lambda>st.
       Some (Inr (http_res, st)))))"

definition uo_http_file_server_serve ::
  "file_system \<Rightarrow> uo_http_file_server \<Rightarrow> uo_http_msg \<Rightarrow> uo_http_msg \<Rightarrow> (uo_http_msg \<times> uo_http_file_server) run" where
  "uo_http_file_server_serve fs st http_req http_res =
     (let uri = hm_uri http_req in
      run_bind (uo_http_file_server_get_cache_entry st uri) (\<lambda>a.
      if a \<noteq> 0
      then
        run_bind (Some (entry_at st a)) (\<lambda>e.
        run_bind (case fs_stat fs (ce_filename e) of
                    None \<Rightarrow> Some (Inr (False, st))
                  | Some sb \<Rightarrow>
                      if st_mtime sb \<noteq> ce_mtime e then Some (uo_http_file_cache_entry_try_refresh fs st a sb)
                      else Some (Inr (True, st))) (\<lambda>(valid, st).
        if \<not> valid
        then run_bind (uo_http_file_server_remove_cache_entry st uri) (\<lambda>(_, st).
             run_bind (Some (uo_http_file_cache_entry_destroy st a)) (\<lambda>st.
             run_bind (not_found http_res) (\<lambda>http_res. Some (Inr (http_res, st)))))
        else run_bind (Some (entry_at st a)) (\<lambda>e. respond_entry st e http_res)))
      else
        run_bind (request_filename (fs_dirname st) uri) (\<lambda>filename.
        case uo_http_file_cache_entry_create fs st uri filename of
          (Some a, st) \<Rightarrow>
            run_bind (Some (entry_at st a)) (\<lambda>e.
            run_bind (respond_entry st e http_res) (\<lambda>(http_res, st).
            run_bind (uo_http_file_server_try_set_cache_entry st a) (\<lambda>(ok, st).
            run_bind (Some (if ok then Inr st else uo_http_file_cache_entry_destroy st a)) (\<lambda>st.
              Some (Inr (http_res, st))))))
        | (None, st) \<Rightarrow> run_bind (not_found http_res) (\<lambda>http_res. Some (Inr (http_res, st))))))"

text \<open>
  What is given up with a message: contents that the file server shares lose a reference. Counts
  that others share are not part of the state.
\<close>

fun release_refs :: "uo_http_file_server \<Rightarrow> msg_ref list \<Rightarrow> uo_http_file_server" where
  "release_refs st [] = st"
| "release_refs st (Block b # refs) = release_refs st refs"
| "release_refs st (Shared r # refs) =
     release_refs (case content_dec st r of Inl _ \<Rightarrow> st | Inr st \<Rightarrow> st) refs"

text \<open>Destruction destroys the entries in the order of the table's list.\<close>

fun destroy_entries :: "uo_http_file_server \<Rightarrow> nat list \<Rightarrow> uo_http_file_server cres" where
  "destroy_entries st [] = Inr st"
| "destroy_entries st (a # as) = res_bind (uo_http_file_cache_entry_destroy st a) (\<lambda>st. destroy_entries st as)"

definition uo_http_file_server_destroy :: "uo_http_file_server \<Rightarrow> uo_http_file_server cres" where
  "uo_http_file_server_destroy st =
     res_bind (uo_hashtbl_list (fs_cache st)) (\<lambda>kvps. destroy_entries st (map (unat \<circ> snd) kvps))"

end
