(* ===== verification/Http_Server.thy ===== *)
theory Http_Server
  imports Tcp_Server File_Server
begin

text \<open>
  \<^verbatim>\<open>uo_http/src/uo_http_server.c\<close>: the functions with which an HTTP server reacts to the events of
  a TCP connection. They exchange the TCP connection on the stack of the callback for the HTTP
  connection while functions of the application run.
\<close>

section \<open>The server\<close>

text \<open>Request handlers are kept in the order they were added.\<close>

record 'a uo_http_server =
  hs_user_data :: "string uo_hashtbl"
  hs_evt_handlers :: "'a uo_http_conn_evt_handlers"
  hs_req_handlers :: "'a http_handler uo_http_req_handler list"

text \<open>
  The state of a connection and the server it belongs to, with the file server the server points
  to and the files as they are now. The number of the last handler tried is kept in the same
  place as the offset up to which the request has been parsed: storing the address
  \<open>handler_addr j\<close> of a handler overwrites the offset.
\<close>

record 'a server = "'a http" +
  http_server :: "'a uo_http_server"
  handler_addr :: "nat \<Rightarrow> int"
  file_server :: "uo_http_file_server option"
  files :: file_system

abbreviation server_handlers :: "'a server \<Rightarrow> 'a uo_http_conn_evt_handlers" where
  "server_handlers s \<equiv> hs_evt_handlers (http_server s)"

definition set_prev_handler :: "'a server \<Rightarrow> uo_http_conn \<Rightarrow> nat \<Rightarrow> uo_http_conn" where
  "set_prev_handler s h j = h\<lparr> hc_prev_handler := j,
     hc_http_req := (hc_http_req h)\<lparr> hm_parsing_offset := handler_addr s j \<rparr> \<rparr>"

text \<open>References of messages are given up; contents of the file server may be among them.\<close>

definition give_up :: "'a server \<Rightarrow> msg_ref list \<Rightarrow> 'a server" where
  "give_up s refs = s\<lparr> released := released s @ refs, file_server := map_option (\<lambda>f. release_refs f refs) (file_server s) \<rparr>"

definition uo_http_conn_pass_cb_to_tcp_server :: "'a server \<Rightarrow> 'a server run" where
  "uo_http_conn_pass_cb_to_tcp_server s =
     run_bind (Some (pop_http s)) (\<lambda>(h, s). Some (Inr (cb_push s TcpConn)))"

definition uo_http_server_after_close :: "'a server \<Rightarrow> 'a server run" where
  "uo_http_server_after_close s =
     run_bind (Some (pop_http s)) (\<lambda>(h, s).
       let s = cb_push s TcpConn
       in Some (Inr (give_up (s\<lparr> http_conn := None \<rparr>) (uo_http_conn_destroy h))))"

definition tcp_server_evt_handler_after_close :: "'a server \<Rightarrow> 'a server run" where
  "tcp_server_evt_handler_after_close s =
     run_bind (Some (pop_tcp s)) (\<lambda>(c, s).
     run_bind (http_of s c) (\<lambda>h.
       let s = cb_push s (Ptr HttpConn);
           s = cb_prepend s (hfunc Http_after_close);
           s = cb_prepend s (he_after_close (server_handlers s))
       in Some (Inr s)))"

definition tcp_server_evt_handler_before_close :: "'a server \<Rightarrow> 'a server run" where
  "tcp_server_evt_handler_before_close s =
     run_bind (Some (pop_tcp s)) (\<lambda>(c, s).
     run_bind (http_of s c) (\<lambda>h.
       let s = cb_push s (Ptr HttpConn);
           s = cb_prepend s (hfunc Pass_cb_to_tcp);
           s = cb_prepend s (he_before_close (server_handlers s))
       in Some (Inr s)))"

definition uo_http_server_after_send_response :: "'a server \<Rightarrow> 'a server run" where
  "uo_http_server_after_send_response s =
     run_bind (Some (the_http s)) (\<lambda>h.
       let (refs, h) = uo_http_conn_reset h
       in Some (Inr (give_up (s\<lparr> http_conn := Some h \<rparr>) refs)))"

definition tcp_server_evt_handler_after_send :: "'a server \<Rightarrow> 'a server run" where
  "tcp_server_evt_handler_after_send s =
     run_bind (Some (pop_tcp s)) (\<lambda>(c, s).
     run_bind (http_of s c) (\<lambda>h.
     run_bind (uo_http_msg_get_header (hc_http_req h) ''connection'') (\<lambda>header_connection.
       let should_close = (header_connection = Some ''close'');
           s = s\<lparr> conn := Some (if should_close then uo_tcp_conn_next_close c else uo_tcp_conn_next_recv c) \<rparr>;
           s = cb_push s (Ptr HttpConn);
           s = cb_prepend s (hfunc Pass_cb_to_tcp);
           s = cb_prepend s (hfunc After_send_response);
           s = cb_prepend s (he_after_send_msg (server_handlers s))
       in Some (Inr s))))"

text \<open>The response for a request that no handler has answered.\<close>

definition default_response ::
  "file_system \<Rightarrow> uo_http_file_server option \<Rightarrow> uo_http_conn \<Rightarrow> (uo_http_msg \<times> uo_http_file_server option) run" where
  "default_response fs st h =
     (case (hm_method (hc_http_req h), st) of
        (UO_HTTP_GET, Some st) \<Rightarrow>
          run_bind (uo_http_file_server_serve fs st (hc_http_req h) (hc_http_res h)) (\<lambda>(res, st).
            Some (Inr (res, Some st)))
      | _ \<Rightarrow>
          run_bind (Some (uo_http_res_set_status_line (hc_http_res h) UO_HTTP_400 UO_HTTP_VER_1_1)) (\<lambda>(_, res).
          run_bind (uo_http_msg_set_content res ''400 Bad Request'' ''text/plain'' (length ''400 Bad Request'')) (\<lambda>res.
            Some (Inr (res, st)))))"

definition final_response ::
  "file_system \<Rightarrow> uo_http_file_server option \<Rightarrow> uo_http_conn \<Rightarrow> (uo_http_msg \<times> uo_http_file_server option) run" where
  "final_response fs st h =
     (if hm_has_start_line (hc_http_res h) then Some (Inr (hc_http_res h, st)) else default_response fs st h)"

definition uo_http_server_before_send_response :: "'a server \<Rightarrow> 'a server run" where
  "uo_http_server_before_send_response s =
     run_bind (Some (the_http s)) (\<lambda>h.
     run_bind (final_response (files s) (file_server s) h) (\<lambda>(res, st).
     run_bind (Some (deref (conn s))) (\<lambda>c.
     run_bind (uo_http_msg_write_to_buf 64 res (hc_buf h) (tc_wbuf c)) (\<lambda>(buf, wbuf).
       Some (Inr (s\<lparr> conn := Some (c\<lparr> tc_wbuf := wbuf \<rparr>), file_server := st,
                     http_conn := Some (h\<lparr> hc_http_res := res, hc_buf := buf \<rparr>) \<rparr>))))))"

definition tcp_server_evt_handler_before_send :: "'a server \<Rightarrow> 'a server run" where
  "tcp_server_evt_handler_before_send s =
     run_bind (Some (pop_tcp s)) (\<lambda>(c, s).
     run_bind (http_of s c) (\<lambda>h.
       let s = cb_push s (Ptr HttpConn);
           s = cb_prepend s (hfunc Pass_cb_to_tcp);
           s = cb_prepend s (hfunc Before_send_msg);
           s = cb_prepend s (he_before_send_msg (server_handlers s))
       in Some (Inr s)))"

text \<open>The first handler from \<open>i\<close> on whose pattern the request matches, with the parameters stored.\<close>

fun first_match ::
  "'c uo_http_req_handler list \<Rightarrow> nat \<Rightarrow> string \<Rightarrow> string uo_hashtbl \<Rightarrow> string list \<Rightarrow> msg_ref list
     \<Rightarrow> (('c \<times> nat) option \<times> string uo_hashtbl \<times> string list \<times> msg_ref list) run" where
  "first_match [] i uri params strs refs = Some (Inr (None, params, strs, refs))"
| "first_match (rh # rhs) i uri params strs refs =
     run_bind (uo_http_req_handler_try rh uri params strs refs) (\<lambda>(ok, params, strs, refs).
       if ok then Some (Inr (Some (rh_cb rh, Suc i), params, strs, refs))
       else first_match rhs (Suc i) uri params strs refs)"

definition uo_http_server_process_req_handlers :: "'a server \<Rightarrow> 'a server run" where
  "uo_http_server_process_req_handlers s =
     run_bind (Some (the_http s)) (\<lambda>h.
       if hm_has_start_line (hc_http_res h) then Some (Inr s)
       else
         let req = hc_http_req h; i = hc_prev_handler h in
         run_bind (first_match (drop i (hs_req_handlers (http_server s))) i (hm_method_sp_uri req)
             (hc_req_data h) (hc_req_strs h) (hm_refstack req)) (\<lambda>(m, params, strs, refs).
           let h = h\<lparr> hc_req_data := params, hc_req_strs := strs, hc_http_req := req\<lparr> hm_refstack := refs \<rparr> \<rparr>
           in Some (Inr (case m of
                None \<Rightarrow> s\<lparr> http_conn := Some h \<rparr>
              | Some (cb, j) \<Rightarrow>
                  let s = s\<lparr> http_conn := Some (set_prev_handler s h j) \<rparr>;
                      s = cb_prepend s (hfunc Process_req_handlers)
                  in cb_prepend s cb))))"

text \<open>The connection on the stack is exchanged for the HTTP connection.\<close>

definition to_http :: "'a server \<Rightarrow> 'a server run" where
  "to_http s =
     run_bind (Some (cb_pop s)) (\<lambda>(_, s).
       Some (Inr (cb_prepend (cb_push s (Ptr HttpConn)) (hfunc Pass_cb_to_tcp))))"

text \<open>The request is complete: the handlers are tried from the first on.\<close>

definition fully_parsed :: "'a server \<Rightarrow> uo_http_conn \<Rightarrow> 'a server" where
  "fully_parsed s h =
     cb_prepend (cb_prepend (s\<lparr> http_conn := Some (set_prev_handler s h 0) \<rparr>) (hfunc Process_req_handlers))
       (he_after_recv_msg (server_handlers s))"

definition tcp_server_evt_handler_after_recv :: "'a server \<Rightarrow> 'a server run" where
  "tcp_server_evt_handler_after_recv s =
     run_bind (Some (the_conn s)) (\<lambda>c.
     run_bind (http_of s c) (\<lambda>h.
       let put = (\<lambda>s req rbuf. s\<lparr> http_conn := Some (h\<lparr> hc_http_req := req \<rparr>), conn := Some (c\<lparr> tc_rbuf := rbuf \<rparr>) \<rparr>);
           again = (\<lambda>s rbuf. s\<lparr> conn := Some (uo_tcp_conn_next_recv (c\<lparr> tc_rbuf := rbuf \<rparr>)) \<rparr>);
           req = hc_http_req h
       in
       run_bind (if hm_has_start_line req then Some (Inr (True, req))
                 else Some (uo_http_msg_parse_start_line req (tc_rbuf c))) (\<lambda>(ok, req).
       if \<not> ok then Some (Inr (again (put s req (tc_rbuf c)) (tc_rbuf c)))
       else
         run_bind (if hm_has_headers req then uo_http_msg_parse_body req (tc_rbuf c)
                   else Some (Inr (False, req, tc_rbuf c))) (\<lambda>(ok, req, rbuf).
         if ok
         then run_bind (to_http (put s req rbuf)) (\<lambda>s. Some (Inr (fully_parsed s (h\<lparr> hc_http_req := req \<rparr>))))
         else
           run_bind (uo_http_msg_parse_headers req rbuf) (\<lambda>(ok, req, rbuf).
           if ok
           then
             run_bind (to_http (put s req rbuf)) (\<lambda>s.
             run_bind (uo_http_msg_parse_body req rbuf) (\<lambda>(ok, req, rbuf).
               let h = h\<lparr> hc_http_req := req \<rparr>;
                   s = put s req rbuf;
                   s = (if ok then fully_parsed s h else again s rbuf)
               in Some (Inr (cb_prepend s (he_after_recv_headers (server_handlers s))))))
           else Some (Inr (again (put s req rbuf) rbuf)))))))"

definition tcp_server_evt_handler_after_open :: "'a server \<Rightarrow> 'a server run" where
  "tcp_server_evt_handler_after_open s =
     run_bind (Some (pop_tcp s)) (\<lambda>(c, s).
       let h = uo_http_conn_create_for_server
       in
       run_bind (uo_tcp_conn_set_user_data c ''http_conn'' (http_addr s)) (\<lambda>c.
         let s = s\<lparr> conn := Some c, http_conn := Some h \<rparr>;
             s = cb_push s (Ptr HttpConn);
             s = cb_prepend s (hfunc Pass_cb_to_tcp);
             s = cb_prepend s (he_after_open (server_handlers s))
         in Some (Inr s)))"

text \<open>The functions of the application are a parameter.\<close>

primrec server_func :: "('a \<Rightarrow> 'a server \<Rightarrow> 'a server run) \<Rightarrow> 'a http_func \<Rightarrow> 'a server \<Rightarrow> 'a server run" where
  "server_func app Pass_cb_to_tcp = uo_http_conn_pass_cb_to_tcp_server"
| "server_func app Http_after_close = uo_http_server_after_close"
| "server_func app Evt_after_close = tcp_server_evt_handler_after_close"
| "server_func app Evt_before_close = tcp_server_evt_handler_before_close"
| "server_func app After_send_response = uo_http_server_after_send_response"
| "server_func app Evt_after_send = tcp_server_evt_handler_after_send"
| "server_func app Before_send_msg = uo_http_server_before_send_response"
| "server_func app Evt_before_send = tcp_server_evt_handler_before_send"
| "server_func app Process_req_handlers = uo_http_server_process_req_handlers"
| "server_func app Evt_after_recv = tcp_server_evt_handler_after_recv"
| "server_func app Evt_after_open = tcp_server_evt_handler_after_open"
| "server_func app (App a) = app a"

text \<open>
  Creation: the HTTP server, and the TCP server with its functions registered; \<open>addr\<close> is the
  address of the HTTP server, stored in the user data of the TCP server. The code does not
  check whether the TCP server could be created.
\<close>

definition uo_http_server_create ::
  "('a http_func, http_ptr) uo_tcp_server option \<Rightarrow> 64 word
     \<Rightarrow> ('a uo_http_server \<times> ('a http_func, http_ptr) uo_tcp_server) run" where
  "uo_http_server_create tcp_server addr =
     run_bind (Some (deref tcp_server)) (\<lambda>srv.
     run_bind (uo_tcp_server_set_user_data srv ''http_server'' addr) (\<lambda>srv.
       let hs = ts_evt_handlers srv;
           hs = hs\<lparr> eh_after_open := append_handler (eh_after_open hs) (Usr Evt_after_open),
                    eh_after_recv := append_handler (eh_after_recv hs) (Usr Evt_after_recv),
                    eh_before_send := append_handler (eh_before_send hs) (Usr Evt_before_send),
                    eh_after_send := append_handler (eh_after_send hs) (Usr Evt_after_send),
                    eh_before_close := append_handler (eh_before_close hs) (Usr Evt_before_close),
                    eh_after_close := append_handler (eh_after_close hs) (Usr Evt_after_close) \<rparr>;
           srv = uo_tcp_server_set_opt_use_flow_recv_send_repeat (srv\<lparr> ts_evt_handlers := hs \<rparr>)
       in Some (Inr (\<lparr> hs_user_data = uo_hashtbl_create_at 0, hs_evt_handlers = no_http_handlers,
                        hs_req_handlers = [] \<rparr>, srv))))"

text \<open>Whether the directory could be used, and the file server that is set.\<close>

definition uo_http_server_set_opt_serve_static_files ::
  "file_system \<Rightarrow> string \<Rightarrow> 64 word \<Rightarrow> bool \<times> uo_http_file_server option" where
  "uo_http_server_set_opt_serve_static_files fs dirname cache_size =
     (let file_server = uo_http_file_server_create fs dirname cache_size in (file_server \<noteq> None, file_server))"

definition uo_http_server_add_req_cb_handler :: "'a uo_http_server \<Rightarrow> string \<Rightarrow> 'a http_handler \<Rightarrow> 'a uo_http_server cres" where
  "uo_http_server_add_req_cb_handler srv req_pattern handler =
     res_bind (uo_http_req_handler_create req_pattern handler) (\<lambda>rh.
       Inr (srv\<lparr> hs_req_handlers := hs_req_handlers srv @ [rh] \<rparr>))"

definition uo_http_server_add_req_func_handler ::
  "'a uo_http_server \<Rightarrow> string \<Rightarrow> 'a http_func \<Rightarrow> 'a uo_http_server cres" where
  "uo_http_server_add_req_func_handler srv req_pattern handler =
     uo_http_server_add_req_cb_handler srv req_pattern (hfunc handler)"

definition uo_http_server_get_user_data :: "'a uo_http_server \<Rightarrow> string \<Rightarrow> 64 word option" where
  "uo_http_server_get_user_data srv key = uo_strhashtbl_get (hs_user_data srv) (Some key)"

definition uo_http_server_set_user_data :: "'a uo_http_server \<Rightarrow> string \<Rightarrow> 64 word \<Rightarrow> 'a uo_http_server run" where
  "uo_http_server_set_user_data srv key user_data =
     run_bind (uo_strhashtbl_set (hs_user_data srv) (Some key) user_data) (\<lambda>t.
       Some (Inr (srv\<lparr> hs_user_data := t \<rparr>)))"

text \<open>
  Destruction: the TCP server first, which waits for its connections, and the file server last.
  What lies between only frees.
\<close>

definition uo_http_server_destroy ::
  "('a http_func, http_ptr) uo_tcp_server \<Rightarrow> uo_http_file_server option
     \<Rightarrow> (('a http_func, http_ptr) uo_tcp_server \<times> uo_http_file_server option) run" where
  "uo_http_server_destroy tcp_server serving =
     run_bind (map_option Inr (uo_tcp_server_destroy tcp_server)) (\<lambda>srv.
       case serving of
         None \<Rightarrow> Some (Inr (srv, None))
       | Some st \<Rightarrow> run_bind (Some (uo_http_file_server_destroy st)) (\<lambda>st. Some (Inr (srv, Some st))))"

end
