(* ===== verification/Http_Flow.thy ===== *)
theory Http_Flow
  imports Http_Server
begin

text \<open>
  How an HTTP server behaves on a connection: a request that arrives is parsed, handed to the
  function that was registered for its pattern, and answered, and the connection is then ready
  for the next request.
\<close>

section \<open>Steps of a connection\<close>

lemma on_http [simp]:
  fixes s :: "('a, 'z) http_scheme"
  shows "http_conn (on s c ds fs) = http_conn s" "http_addr (on s c ds fs) = http_addr s"
    "released (on s c ds fs) = released s" "http.more (on s c ds fs) = http.more s"
  by (simp_all add: on_def)

lemma on_server [simp]:
  fixes s :: "'a server"
  shows "http_server (on s c ds fs) = http_server s" "handler_addr (on s c ds fs) = handler_addr s"
    "file_server (on s c ds fs) = file_server s" "files (on s c ds fs) = files s"
  by (simp_all add: on_def)

lemma on_http_upds:
  fixes s :: "('a, 'z) http_scheme"
  shows "(on s c ds fs)\<lparr> http_conn := h \<rparr> = on (s\<lparr> http_conn := h \<rparr>) c ds fs"
    "(on s c ds fs)\<lparr> conn := Some c' , http_conn := h \<rparr> = on (s\<lparr> http_conn := h \<rparr>) c' ds fs"
    "(on s c ds fs)\<lparr> http_conn := h, conn := Some c' \<rparr> = on (s\<lparr> http_conn := h \<rparr>) c' ds fs"
    "(on s c ds fs)\<lparr> released := r, http_conn := h \<rparr> = on (s\<lparr> released := r, http_conn := h \<rparr>) c ds fs"
  by (cases s; simp add: on_def)+

lemma on_server_upds:
  fixes s :: "'a server"
  shows "(on s c ds fs)\<lparr> conn := Some c', file_server := f, http_conn := h \<rparr> = on (s\<lparr> file_server := f, http_conn := h \<rparr>) c' ds fs"
    "give_up (on s c ds fs) refs = on (give_up s refs) c ds fs"
  by (cases s; simp add: on_def give_up_def)+

lemma on_prepend: "cb_prepend (on s c ds fs) (es, gs) = on s c (ds @ es) (gs @ fs)"
  by (simp add: on_def cb_prepend_def)

lemma on_push: "cb_push (on s c ds fs) d = on s c (ds @ [d]) fs"
  by (simp add: on_def cb_push_def)

lemma on_pop: "cb_pop (on s c (ds @ [d]) fs) = Inr (d, on s c ds fs)"
  by (simp add: on_upds cb_pop_def)

lemma on_pop1: "cb_pop (on s c [d] fs) = Inr (d, on s c [] fs)"
  using on_pop [of s c "[]"] by simp

lemma on_put_again: "http_conn s = Some h \<Longrightarrow> s\<lparr> http_conn := Some h \<rparr> = s"
  by (cases s) simp

lemmas on_cb = on_upds on_http_upds on_server_upds on_prepend on_push on_pop1

section \<open>Steps of the server\<close>

text \<open>The TCP connection refers to its HTTP connection, and no functions for HTTP events are registered.\<close>

definition linked :: "'a server \<Rightarrow> ('a http_func, http_ptr) uo_tcp_conn \<Rightarrow> bool" where
  "linked s c \<longleftrightarrow> (\<exists>a. uo_tcp_conn_get_user_data c ''http_conn'' = Some a \<and> a \<noteq> 0)
     \<and> server_handlers s = no_http_handlers"

lemma linked_http_of: "linked s c \<Longrightarrow> http_conn s' = Some h \<Longrightarrow> http_of s' c = Some (Inr h)"
  by (auto simp: linked_def http_of_def)

lemma linked_cong:
  "tc_user_data c' = tc_user_data c \<Longrightarrow> tc_shared_user_data c' = tc_shared_user_data c
     \<Longrightarrow> http_server s' = http_server s \<Longrightarrow> linked s' c' = linked s c"
  by (simp add: linked_def uo_tcp_conn_get_user_data_def cong: if_cong option.case_cong)

lemma leads_pass:
  assumes "http_conn s = Some h"
  shows "leads (server_func app) (on s c [Ptr HttpConn] (Usr Pass_cb_to_tcp # fs)) (on s c [TcpConn] fs)"
  using assms by (intro on_step) (simp add: uo_http_conn_pass_cb_to_tcp_server_def pop_http_def on_cb)

section \<open>Receiving a request\<close>

lemma parse_line_keeps:
  "parse_request_line msg line = Inr (ok, msg') \<Longrightarrow> hm_has_headers msg' = hm_has_headers msg"
  "parse_status_line msg line = Inr (ok, msg') \<Longrightarrow> hm_has_headers msg' = hm_has_headers msg"
  by (auto simp: parse_request_line_def parse_status_line_def invalid_def Let_def split: option.splits nat.splits)

lemma parse_start_line_keeps:
  assumes "uo_http_msg_parse_start_line msg b = Inr (True, msg')"
  shows "hm_has_headers msg' = hm_has_headers msg"
  using assms
  by (auto simp: uo_http_msg_parse_start_line_def push_ref_def Let_def dest!: parse_line_keeps
      split: if_splits option.splits uo_http_msg_type.splits elim!: res_bind_InrE)

lemma leads_after_recv:
  assumes "linked s c" and "http_conn s = Some h"
    and "hc_http_req h = uo_http_msg_create_at UO_HTTP_MSG_TYPE_REQUEST UO_HTTP_MSG_ROLE_RECV"
    and "receive_msg UO_HTTP_MSG_TYPE_REQUEST (tc_rbuf c) = Some (Inr (msg, rb))"
  shows "leads (server_func app) (on s c [TcpConn] (Usr Evt_after_recv # fs))
    (on (s\<lparr> http_conn := Some (set_prev_handler s (h\<lparr> hc_http_req := msg \<rparr>) 0) \<rparr>) (c\<lparr> tc_rbuf := rb \<rparr>)
      [Ptr HttpConn] (Usr Process_req_handlers # Usr Pass_cb_to_tcp # fs))"
proof -
  let ?c = "uo_http_msg_create_at UO_HTTP_MSG_TYPE_REQUEST UO_HTTP_MSG_ROLE_RECV"
  obtain m1 m2 b2 where p: "uo_http_msg_parse_start_line ?c (tc_rbuf c) = Inr (True, m1)"
    "uo_http_msg_parse_headers m1 (tc_rbuf c) = Some (Inr (True, m2, b2))"
    "uo_http_msg_parse_body m2 b2 = Some (Inr (True, msg, rb))"
    using assms(4) by (auto simp: receive_msg_def elim!: run_bind_InrE split: if_splits)
  have f: "\<not> hm_has_start_line ?c" "\<not> hm_has_headers m1"
    using parse_start_line_keeps [OF p(1)] by (simp_all add: uo_http_msg_create_at_def)
  have n: "he_after_recv_msg (server_handlers s) = ([], [])" "he_after_recv_headers (server_handlers s) = ([], [])"
    using assms(1) by (simp_all add: linked_def no_http_handlers_def)
  show ?thesis
    by (rule on_step) (simp add: tcp_server_evt_handler_after_recv_def linked_http_of [OF assms(1)] assms(2,3) p f Let_def
        to_http_def fully_parsed_def on_cb n set_prev_handler_def)
qed

section \<open>Finding the handler\<close>

text \<open>
  A server routes a request to a function of the application when the first of its handlers
  that matches runs that function; \<open>ps\<close> are the values of the parameters in the pattern.
\<close>

definition routed :: "'a uo_http_server \<Rightarrow> string \<Rightarrow> 'a \<Rightarrow> (string \<times> string) list \<Rightarrow> bool" where
  "routed srv target a ps \<longleftrightarrow> (\<forall>refs. \<exists>j params strs refs'.
     first_match (hs_req_handlers srv) 0 target (uo_hashtbl_create_at 0) [] refs
       = Some (Inr (Some (hfunc (App a), j), params, strs, refs')) \<and> strtab_rel params strs ps)"

lemma leads_process:
  assumes "http_conn s = Some h" and "\<not> hm_has_start_line (hc_http_res h)" and "hc_prev_handler h = 0"
    and "hc_req_data h = uo_hashtbl_create_at 0" and "hc_req_strs h = []"
    and "routed (http_server s) (hm_method_sp_uri (hc_http_req h)) a ps"
  shows "\<exists>h'. leads (server_func app) (on s c [Ptr HttpConn] (Usr Process_req_handlers # fs))
      (on (s\<lparr> http_conn := Some h' \<rparr>) c [Ptr HttpConn] (Usr (App a) # Usr Process_req_handlers # fs))
    \<and> hc_http_res h' = hc_http_res h \<and> hc_buf h' = hc_buf h \<and> hc_user_data h' = hc_user_data h
    \<and> strtab_rel (hc_req_data h') (hc_req_strs h') ps
    \<and> hm_method (hc_http_req h') = hm_method (hc_http_req h) \<and> hm_uri (hc_http_req h') = hm_uri (hc_http_req h)
    \<and> hm_body (hc_http_req h') = hm_body (hc_http_req h) \<and> hm_role (hc_http_req h') = hm_role (hc_http_req h)
    \<and> hm_headers (hc_http_req h') = hm_headers (hc_http_req h) \<and> hm_strs (hc_http_req h') = hm_strs (hc_http_req h)"
proof -
  obtain j params strs refs' where m: "first_match (hs_req_handlers (http_server s)) 0 (hm_method_sp_uri (hc_http_req h))
      (uo_hashtbl_create_at 0) [] (hm_refstack (hc_http_req h)) = Some (Inr (Some (hfunc (App a), j), params, strs, refs'))"
    and rel: "strtab_rel params strs ps"
    using assms(6) unfolding routed_def by blast
  define h' where "h' = set_prev_handler s (h\<lparr> hc_req_data := params, hc_req_strs := strs,
      hc_http_req := (hc_http_req h)\<lparr> hm_refstack := refs' \<rparr> \<rparr>) j"
  have eq: "set_prev_handler (on s c [Ptr HttpConn] fs) = set_prev_handler s"
    by (rule ext)+ (simp add: set_prev_handler_def)
  have "leads (server_func app) (on s c [Ptr HttpConn] (Usr Process_req_handlers # fs))
      (on (s\<lparr> http_conn := Some h' \<rparr>) c [Ptr HttpConn] (Usr (App a) # Usr Process_req_handlers # fs))"
    by (rule on_step) (simp add: uo_http_server_process_req_handlers_def the_http_def assms(1-5) m Let_def on_cb eq
        h'_def [symmetric])
  then show ?thesis using rel by (intro exI [of _ h']) (simp add: h'_def set_prev_handler_def)
qed

lemma leads_processed:
  assumes "http_conn s = Some h" and "hm_has_start_line (hc_http_res h)"
  shows "leads (server_func app) (on s c [Ptr HttpConn] (Usr Process_req_handlers # fs)) (on s c [Ptr HttpConn] fs)"
  using assms by (intro on_step) (simp add: uo_http_server_process_req_handlers_def the_http_def)

section \<open>Sending the response\<close>

lemma leads_before_send:
  assumes "linked s c" and "http_conn s = Some h"
  shows "leads (server_func app) (on s c [TcpConn] (Usr Evt_before_send # fs))
    (on s c [Ptr HttpConn] (Usr Before_send_msg # Usr Pass_cb_to_tcp # fs))"
proof -
  have n: "he_before_send_msg (server_handlers s) = ([], [])"
    using assms(1) by (simp add: linked_def no_http_handlers_def)
  show ?thesis
    by (rule on_step) (simp add: tcp_server_evt_handler_before_send_def pop_tcp_def on_cb linked_http_of [OF assms(1)]
        assms(2) n)
qed

lemma leads_write_response:
  assumes "http_conn s = Some h" and "final_response (files s) (file_server s) h = Some (Inr (res, f))"
    and "reply_ok res reply" and "buf_rel (tc_wbuf c) []"
  shows "\<exists>wb. leads (server_func app) (on s c [Ptr HttpConn] (Usr Before_send_msg # fs))
      (on (s\<lparr> file_server := f, http_conn := Some (h\<lparr> hc_http_res := res, hc_buf := uo_buf_set_ptr_abs (hc_buf h) 0 \<rparr>) \<rparr>)
        (c\<lparr> tc_wbuf := wb \<rparr>) [Ptr HttpConn] fs)
    \<and> buf_rel wb reply \<and> 0 < bf_size wb"
proof -
  obtain hs where hs: "hdrs_rel res hs" "message_text res hs = reply"
    "length (start_line_text res) + length (headers_text hs) < 2 ^ 31"
    using assms(3) by (auto simp: reply_ok_def)
  obtain wb where wb: "uo_http_msg_write_to_buf 64 res (hc_buf h) (tc_wbuf c)
      = Some (Inr (uo_buf_set_ptr_abs (hc_buf h) 0, wb))" "buf_rel wb reply" "0 < bf_size wb"
    using write_to_buf_text [OF _ hs(1) assms(4) _ hs(3), of "hc_buf h"] assms(3) hs(2) by (auto simp: reply_ok_def)
  have "leads (server_func app) (on s c [Ptr HttpConn] (Usr Before_send_msg # fs))
      (on (s\<lparr> file_server := f, http_conn := Some (h\<lparr> hc_http_res := res, hc_buf := uo_buf_set_ptr_abs (hc_buf h) 0 \<rparr>) \<rparr>)
        (c\<lparr> tc_wbuf := wb \<rparr>) [Ptr HttpConn] fs)"
    by (rule on_step) (simp add: uo_http_server_before_send_response_def the_http_def assms(1,2) wb(1) on_cb)
  with wb(2,3) show ?thesis by blast
qed

text \<open>After a response the connection is reset, and the references of both messages are given up.\<close>

definition after_response :: "'a server \<Rightarrow> uo_http_conn \<Rightarrow> 'a server" where
  "after_response s h = give_up (s\<lparr> http_conn := Some (snd (uo_http_conn_reset h)) \<rparr>) (fst (uo_http_conn_reset h))"

lemma after_response_simps [simp]:
  "http_conn (after_response s h) = Some (snd (uo_http_conn_reset h))" "http_server (after_response s h) = http_server s"
  "sent (after_response s h) = sent s" "writes (after_response s h) = writes s" "ctls (after_response s h) = ctls s"
  "files (after_response s h) = files s"
  "file_server (after_response s h) = map_option (\<lambda>f. release_refs f (fst (uo_http_conn_reset h))) (file_server s)"
  by (simp_all add: after_response_def give_up_def)

lemma leads_after_response:
  assumes "linked s c" and "http_conn s = Some h"
    and "uo_http_msg_get_header (hc_http_req h) ''connection'' = Some (Inr v)" and "v \<noteq> Some ''close''"
  shows "leads (server_func app) (on s c [TcpConn] (Usr Evt_after_send # fs))
    (on (after_response s h) (uo_tcp_conn_next_recv c) [TcpConn] fs)"
proof -
  have n: "he_after_send_msg (server_handlers s) = ([], [])"
    using assms(1) by (simp add: linked_def no_http_handlers_def)
  have "leads (server_func app) (on s c [TcpConn] (Usr Evt_after_send # fs))
      (on s (uo_tcp_conn_next_recv c) [Ptr HttpConn] (Usr After_send_response # Usr Pass_cb_to_tcp # fs))"
    using assms(4) by (intro on_step) (simp add: tcp_server_evt_handler_after_send_def pop_tcp_def on_cb
        linked_http_of [OF assms(1)] assms(2,3) n Let_def)
  also have "leads (server_func app) \<dots> (on (after_response s h) (uo_tcp_conn_next_recv c)
      [Ptr HttpConn] (Usr Pass_cb_to_tcp # fs))"
    by (rule on_step) (simp add: uo_http_server_after_send_response_def the_http_def assms(2) on_cb after_response_def split_beta Let_def)
  also have "leads (server_func app) \<dots> (on (after_response s h) (uo_tcp_conn_next_recv c)
      [TcpConn] fs)" by (rule leads_pass) simp
  finally show ?thesis .
qed

section \<open>A whole exchange\<close>

text \<open>
  An application function that answers a request, given by its method, target, parameters and
  content, with a response of the given text.
\<close>

definition app_replies ::
  "('a \<Rightarrow> 'a server \<Rightarrow> 'a server run) \<Rightarrow> 'a \<Rightarrow> uo_http_method \<Rightarrow> string \<Rightarrow> (string \<times> string) list \<Rightarrow> string \<Rightarrow> string \<Rightarrow> bool" where
  "app_replies app a mth uri ps content reply \<longleftrightarrow> (\<forall>s h. http_conn s = Some h \<longrightarrow> cb_data s = [Ptr HttpConn]
     \<longrightarrow> hc_http_res h = uo_http_msg_create_at UO_HTTP_MSG_TYPE_RESPONSE UO_HTTP_MSG_ROLE_SEND
     \<longrightarrow> hm_method (hc_http_req h) = mth \<longrightarrow> hm_uri (hc_http_req h) = uri
     \<longrightarrow> strtab_rel (hc_req_data h) (hc_req_strs h) ps \<longrightarrow> hm_body (hc_http_req h) = Some content
     \<longrightarrow> (\<exists>res. app a s = Some (Inr (s\<lparr> http_conn := Some (h\<lparr> hc_http_res := res \<rparr>) \<rparr>)) \<and> reply_ok res reply))"

text \<open>A connection on which a server waits for the next request.\<close>

definition idle_http :: "uo_http_conn \<Rightarrow> bool" where
  "idle_http h \<longleftrightarrow> hc_http_req h = uo_http_msg_create_at UO_HTTP_MSG_TYPE_REQUEST UO_HTTP_MSG_ROLE_RECV
     \<and> hc_http_res h = uo_http_msg_create_at UO_HTTP_MSG_TYPE_RESPONSE UO_HTTP_MSG_ROLE_SEND
     \<and> hc_req_data h = uo_hashtbl_create_at 0 \<and> hc_req_strs h = []"

abbreviation http_flow :: "('a http_func, http_ptr) uo_tcp_conn_evt_handlers \<Rightarrow> bool" where
  "http_flow \<equiv> flow_recv_send_repeat [Evt_after_recv] [Evt_before_send] [Evt_after_send]"

definition http_ready :: "'a server \<Rightarrow> ('a http_func, http_ptr) uo_tcp_conn \<Rightarrow> bool" where
  "http_ready s c \<longleftrightarrow> waiting s c \<and> linked s c \<and> http_flow (tc_evt_handlers c) \<and> tc_state c = NUL
     \<and> buf_rel (tc_rbuf c) [] \<and> 0 < bf_size (tc_rbuf c) \<and> buf_rel (tc_wbuf c) []
     \<and> (\<exists>h. http_conn s = Some h \<and> idle_http h)"

lemma reset_idle: "hm_role (hc_http_req h) = UO_HTTP_MSG_ROLE_RECV \<Longrightarrow> idle_http (snd (uo_http_conn_reset h))"
  by (simp add: idle_http_def uo_http_conn_reset_def Let_def)

lemma receive_msg_role:
  assumes "receive_msg typ b = Some (Inr (msg, b'))"
  shows "hm_role msg = UO_HTTP_MSG_ROLE_RECV"
  using assms
  by (auto simp: receive_msg_def uo_http_msg_parse_body_def Let_def elim!: run_bind_InrE
      split: if_splits option.splits prod.splits)

text \<open>From the arrival of a request to the response of the application.\<close>

lemma leads_handled:
  assumes "linked s c" and "http_conn s = Some h" and "idle_http h"
    and "receive_msg UO_HTTP_MSG_TYPE_REQUEST (tc_rbuf c) = Some (Inr (msg, rb))"
    and "routed (http_server s) (hm_method_sp_uri msg) a ps" and "app_replies app a (hm_method msg) (hm_uri msg) ps content reply"
    and "hm_body msg = Some content"
  shows "\<exists>h'. leads (server_func app) (on s c [TcpConn] (Usr Evt_after_recv # fs))
      (on (s\<lparr> http_conn := Some h' \<rparr>) (c\<lparr> tc_rbuf := rb \<rparr>) [TcpConn] fs)
    \<and> reply_ok (hc_http_res h') reply
    \<and> hm_role (hc_http_req h') = UO_HTTP_MSG_ROLE_RECV
    \<and> hm_headers (hc_http_req h') = hm_headers msg \<and> hm_strs (hc_http_req h') = hm_strs msg"
proof -
  let ?c = "c\<lparr> tc_rbuf := rb \<rparr>" and ?u = "server_func app"
  define h1 where "h1 = set_prev_handler s (h\<lparr> hc_http_req := msg \<rparr>) 0"
  let ?s1 = "s\<lparr> http_conn := Some h1 \<rparr>"
  have I: "hc_http_req h = uo_http_msg_create_at UO_HTTP_MSG_TYPE_REQUEST UO_HTTP_MSG_ROLE_RECV"
    using assms(3) by (simp add: idle_http_def)
  have h1: "http_conn ?s1 = Some h1" "\<not> hm_has_start_line (hc_http_res h1)" "hc_prev_handler h1 = 0"
    "hc_req_data h1 = uo_hashtbl_create_at 0" "hc_req_strs h1 = []"
    "routed (http_server ?s1) (hm_method_sp_uri (hc_http_req h1)) a ps" "hm_role (hc_http_req h1) = UO_HTTP_MSG_ROLE_RECV"
    "hc_http_res h1 = uo_http_msg_create_at UO_HTTP_MSG_TYPE_RESPONSE UO_HTTP_MSG_ROLE_SEND"
    using assms(3,5) receive_msg_role [OF assms(4)]
    by (simp_all add: h1_def set_prev_handler_def idle_http_def uo_http_msg_create_at_def)
  have R: "leads ?u (on s c [TcpConn] (Usr Evt_after_recv # fs))
      (on ?s1 ?c [Ptr HttpConn] (Usr Process_req_handlers # Usr Pass_cb_to_tcp # fs))"
    using leads_after_recv [OF assms(1,2) I assms(4)] by (simp add: h1_def)
  obtain h2 where h2: "leads ?u (on ?s1 ?c [Ptr HttpConn] (Usr Process_req_handlers # Usr Pass_cb_to_tcp # fs))
      (on (s\<lparr> http_conn := Some h2 \<rparr>) ?c [Ptr HttpConn] (Usr (App a) # Usr Process_req_handlers # Usr Pass_cb_to_tcp # fs))"
    "hc_http_res h2 = hc_http_res h1" "strtab_rel (hc_req_data h2) (hc_req_strs h2) ps"
    "hm_method (hc_http_req h2) = hm_method msg" "hm_uri (hc_http_req h2) = hm_uri msg"
    "hm_body (hc_http_req h2) = Some content" "hm_role (hc_http_req h2) = hm_role (hc_http_req h1)"
    "hm_headers (hc_http_req h2) = hm_headers msg" "hm_strs (hc_http_req h2) = hm_strs msg"
    using leads_process [OF h1(1-6), of app ?c] assms(7) by (auto simp: h1_def set_prev_handler_def)
  let ?fs = "Usr Process_req_handlers # Usr Pass_cb_to_tcp # fs"
  obtain res where res: "app a (on (s\<lparr> http_conn := Some h2 \<rparr>) ?c [Ptr HttpConn] ?fs)
      = Some (Inr ((on (s\<lparr> http_conn := Some h2 \<rparr>) ?c [Ptr HttpConn] ?fs)\<lparr> http_conn := Some (h2\<lparr> hc_http_res := res \<rparr>) \<rparr>))"
    "reply_ok res reply"
    using assms(6) [unfolded app_replies_def, rule_format, of "on (s\<lparr> http_conn := Some h2 \<rparr>) ?c [Ptr HttpConn] ?fs" h2]
      h2(2-6) h1(8) by auto
  let ?h3 = "h2\<lparr> hc_http_res := res \<rparr>" and ?s3 = "s\<lparr> http_conn := Some (h2\<lparr> hc_http_res := res \<rparr>) \<rparr>"
  note R
  also note h2(1)
  also have "leads ?u (on (s\<lparr> http_conn := Some h2 \<rparr>) ?c [Ptr HttpConn] (Usr (App a) # ?fs)) (on ?s3 ?c [Ptr HttpConn] ?fs)"
    using res(1) by (intro on_step) (simp add: on_cb)
  also have "leads ?u \<dots> (on ?s3 ?c [Ptr HttpConn] (Usr Pass_cb_to_tcp # fs))"
    using res(2) by (intro leads_processed [of _ ?h3]) (simp_all add: reply_ok_def)
  also have "leads ?u \<dots> (on ?s3 ?c [TcpConn] fs)" by (rule leads_pass [of _ ?h3]) simp
  finally show ?thesis using res(2) h2(7-9) h1(7) by (intro exI [of _ ?h3]) simp
qed

text \<open>A request for which no function is registered is left to the server itself.\<close>

definition unrouted :: "'a uo_http_server \<Rightarrow> string \<Rightarrow> bool" where
  "unrouted srv target \<longleftrightarrow> (\<forall>refs. \<exists>params strs refs'.
     first_match (hs_req_handlers srv) 0 target (uo_hashtbl_create_at 0) [] refs = Some (Inr (None, params, strs, refs'))
     \<and> shares refs' = shares refs)"

lemma unrouted_none: "hs_req_handlers srv = [] \<Longrightarrow> unrouted srv target"
  by (simp add: unrouted_def)

lemma leads_unhandled:
  assumes "linked s c" and "http_conn s = Some h" and "idle_http h"
    and "receive_msg UO_HTTP_MSG_TYPE_REQUEST (tc_rbuf c) = Some (Inr (msg, rb))"
    and "unrouted (http_server s) (hm_method_sp_uri msg)"
  shows "\<exists>h'. leads (server_func app) (on s c [TcpConn] (Usr Evt_after_recv # fs))
      (on (s\<lparr> http_conn := Some h' \<rparr>) (c\<lparr> tc_rbuf := rb \<rparr>) [TcpConn] fs)
    \<and> hc_http_res h' = uo_http_msg_create_at UO_HTTP_MSG_TYPE_RESPONSE UO_HTTP_MSG_ROLE_SEND
    \<and> hm_method (hc_http_req h') = hm_method msg \<and> hm_uri (hc_http_req h') = hm_uri msg
    \<and> shares (hm_refstack (hc_http_req h')) = shares (hm_refstack msg)
    \<and> hm_role (hc_http_req h') = UO_HTTP_MSG_ROLE_RECV
    \<and> hm_headers (hc_http_req h') = hm_headers msg \<and> hm_strs (hc_http_req h') = hm_strs msg"
proof -
  let ?c = "c\<lparr> tc_rbuf := rb \<rparr>" and ?u = "server_func app"
  define h1 where "h1 = set_prev_handler s (h\<lparr> hc_http_req := msg \<rparr>) 0"
  obtain params strs refs where m: "first_match (hs_req_handlers (http_server s)) 0 (hm_method_sp_uri msg)
      (uo_hashtbl_create_at 0) [] (hm_refstack msg) = Some (Inr (None, params, strs, refs))" "shares refs = shares (hm_refstack msg)"
    using assms(5) unfolding unrouted_def by blast
  define h2 where "h2 = h1\<lparr> hc_req_data := params, hc_req_strs := strs, hc_http_req := (hc_http_req h1)\<lparr> hm_refstack := refs \<rparr> \<rparr>"
  have I: "hc_http_req h = uo_http_msg_create_at UO_HTTP_MSG_TYPE_REQUEST UO_HTTP_MSG_ROLE_RECV"
    using assms(3) by (simp add: idle_http_def)
  have h1: "\<not> hm_has_start_line (hc_http_res h1)" "hc_prev_handler h1 = 0"
    "hc_req_data h1 = uo_hashtbl_create_at 0" "hc_req_strs h1 = []" "hm_refstack (hc_http_req h1) = hm_refstack msg"
    "hm_method_sp_uri (hc_http_req h1) = hm_method_sp_uri msg"
    using assms(3) by (simp_all add: h1_def set_prev_handler_def idle_http_def uo_http_msg_create_at_def)
  have "leads ?u (on s c [TcpConn] (Usr Evt_after_recv # fs))
      (on (s\<lparr> http_conn := Some h1 \<rparr>) ?c [Ptr HttpConn] (Usr Process_req_handlers # Usr Pass_cb_to_tcp # fs))"
    using leads_after_recv [OF assms(1,2) I assms(4)] by (simp add: h1_def)
  also have "leads ?u \<dots> (on (s\<lparr> http_conn := Some h2 \<rparr>) ?c [Ptr HttpConn] (Usr Pass_cb_to_tcp # fs))"
    by (rule on_step) (simp add: uo_http_server_process_req_handlers_def the_http_def h1 m(1) Let_def on_cb h2_def)
  also have "leads ?u \<dots> (on (s\<lparr> http_conn := Some h2 \<rparr>) ?c [TcpConn] fs)" by (rule leads_pass [of _ h2]) simp
  finally show ?thesis using m(2) assms(3) receive_msg_role [OF assms(4)]
    by (intro exI [of _ h2]) (simp add: h2_def h1_def set_prev_handler_def idle_http_def)
qed

text \<open>From there until the response is sent and the server waits again.\<close>

lemma leads_sent:
  assumes "linked s c" and "http_conn s = Some h"
    and "final_response (files s) (file_server s) h = Some (Inr (res, f))" and "reply_ok res out"
    and "http_flow (tc_evt_handlers c)" and "tc_state c = NUL" and "buf_rel (tc_wbuf c) []"
    and "list_all (\<lambda>w. 0 < w) (writes s)" and "length out \<le> length (writes s)"
    and "uo_http_msg_get_header (hc_http_req h) ''connection'' = Some (Inr v)" and "v \<noteq> Some ''close''"
  shows "\<exists>h' wb ws. leads (server_func app) (on s c [TcpConn] [Next_send_cb_func, Advance])
      (on (after_response (s\<lparr> file_server := f, sent := sent s @ out, writes := ws \<rparr>) h')
        (c\<lparr> tc_wbuf := wb, tc_state := CHR ''r'' \<rparr>) [TcpConn] [After_send, Advance])
    \<and> buf_rel wb out \<and> hc_http_req h' = hc_http_req h \<and> hc_http_res h' = res"
proof -
  let ?u = "server_func app"
  have F: "eh_before_send (tc_evt_handlers c) = ([], [Usr Evt_before_send])"
    "eh_after_send (tc_evt_handlers c) = ([], [Usr Evt_after_send, Next_recv_cb_func])"
    using assms(5) by (simp_all add: flow_recv_send_repeat_def)
  define h' where "h' = h\<lparr> hc_http_res := res, hc_buf := uo_buf_set_ptr_abs (hc_buf h) 0 \<rparr>"
  let ?s = "s\<lparr> file_server := f, http_conn := Some h' \<rparr>"
  obtain wb where wb: "leads ?u (on s c [Ptr HttpConn] [Usr Before_send_msg, Usr Pass_cb_to_tcp, Send])
      (on ?s (c\<lparr> tc_wbuf := wb \<rparr>) [Ptr HttpConn] [Usr Pass_cb_to_tcp, Send])" "buf_rel wb out"
    using leads_write_response [OF assms(2-4,7)] unfolding h'_def by blast
  let ?c = "c\<lparr> tc_wbuf := wb \<rparr>"
  obtain ws where ws: "send_loop (writes ?s) out (sent ?s) = Some (True, sent s @ out, ws)"
    using send_loop_all [OF assms(8,9), of "sent s"] by auto
  let ?t = "?s\<lparr> sent := sent s @ out, writes := ws \<rparr>" and ?fs = "[Next_recv_cb_func, After_send, Advance]"
  have L: "linked ?t ?c" using assms(1) linked_cong [of ?c c ?t s] by simp
  have "leads ?u (on s c [TcpConn] [Next_send_cb_func, Advance]) (on s (c\<lparr> tc_state := CHR ''s'' \<rparr>) [TcpConn] [Advance])"
    using leads_next_send [of ?u s c "[]"] next_from_none [OF assms(6)] by simp
  also have "leads ?u \<dots> (on s c [TcpConn] [Usr Evt_before_send, Send])"
    using leads_advance_send [of "c\<lparr> tc_state := CHR ''s'' \<rparr>" "[Usr Evt_before_send]" ?u s "[]" "[]"] F(1)
      state_again [OF assms(6)] by simp
  also have "leads ?u \<dots> (on s c [Ptr HttpConn] [Usr Before_send_msg, Usr Pass_cb_to_tcp, Send])"
    by (rule leads_before_send [OF assms(1,2)])
  also note wb(1)
  also have "leads ?u (on ?s ?c [Ptr HttpConn] [Usr Pass_cb_to_tcp, Send]) (on ?s ?c [TcpConn] [Send])"
    by (rule leads_pass [of _ h']) simp
  also have "leads ?u \<dots> (on ?t ?c [TcpConn] (Usr Evt_after_send # ?fs))"
    using leads_send [of ?c out ?s "sent s @ out" ws "[Usr Evt_after_send, Next_recv_cb_func]" ?u "[]" "[]"] wb(2) ws F(2) by simp
  also have "leads ?u \<dots> (on (after_response ?t h') (?c\<lparr> tc_state := CHR ''r'' \<rparr>) [TcpConn] ?fs)"
    using leads_after_response [OF L, of h' v app ?fs] assms(10,11) next_from_none(2) [of ?c] assms(6) by (simp add: h'_def)
  also have "leads ?u \<dots> (on (after_response ?t h') (?c\<lparr> tc_state := CHR ''r'' \<rparr>) [TcpConn] [After_send, Advance])"
    using leads_next_recv [of ?u "after_response ?t h'" "?c\<lparr> tc_state := CHR ''r'' \<rparr>" "[]"]
    by (simp add: uo_tcp_conn_next_recv_def uo_tcp_conn_next_state_def)
  also have "after_response ?t h' = after_response (s\<lparr> file_server := f, sent := sent s @ out, writes := ws \<rparr>) h'"
    by (cases s) (simp add: after_response_def)
  finally show ?thesis using wb(2) by (intro exI [of _ h'] exI [of _ wb] exI [of _ ws]) (simp add: h'_def)
qed

lemma parse_line_refs:
  "parse_request_line msg line = Inr (ok, msg') \<Longrightarrow> hm_refstack msg' = hm_refstack msg"
  "parse_status_line msg line = Inr (ok, msg') \<Longrightarrow> hm_refstack msg' = hm_refstack msg"
  by (auto simp: parse_request_line_def parse_status_line_def invalid_def Let_def split: option.splits nat.splits)

lemma headers_loop_refs: "headers_loop tok msg = Some (Inr msg') \<Longrightarrow> hm_refstack msg' = hm_refstack msg"
proof (induction tok msg rule: headers_loop.induct)
  case (2 header_name rest msg)
  show ?case
  proof (cases "rest = []")
    case False
    from 2 False show ?thesis
      by (auto simp: set_header_ptr_def Let_def elim!: run_bind_InrE split: option.splits prod.splits)
  qed (use 2 in simp)
qed simp

text \<open>A message that was received shares no content with others.\<close>

lemma receive_msg_shares:
  assumes "receive_msg typ b = Some (Inr (msg, b'))"
  shows "shares (hm_refstack msg) = (\<lambda>r. 0)"
proof -
  obtain m1 m2 b2 where p: "uo_http_msg_parse_start_line (uo_http_msg_create_at typ UO_HTTP_MSG_ROLE_RECV) b = Inr (True, m1)"
    "uo_http_msg_parse_headers m1 b = Some (Inr (True, m2, b2))"
    "uo_http_msg_parse_body m2 b2 = Some (Inr (True, msg, b'))"
    using assms by (auto simp: receive_msg_def elim!: run_bind_InrE split: if_splits)
  have "shares (hm_refstack m1) = (\<lambda>r. 0)" using p(1)
    by (auto simp: uo_http_msg_parse_start_line_def push_ref_def Let_def uo_http_msg_create_at_def fun_eq_iff dest!: parse_line_refs
        split: if_splits option.splits uo_http_msg_type.splits elim!: res_bind_InrE)
  then have "shares (hm_refstack m2) = (\<lambda>r. 0)" using p(2)
    by (auto simp: uo_http_msg_parse_headers_def push_ref_def Let_def fun_eq_iff dest!: headers_loop_refs
        split: if_splits option.splits elim!: run_bind_InrE)
  moreover have "hm_refstack msg = hm_refstack m2" using p(3)
    by (auto simp: uo_http_msg_parse_body_def Let_def elim!: run_bind_InrE split: if_splits option.splits prod.splits)
  ultimately show ?thesis by simp
qed

text \<open>
  What becomes of a complete request: the callback gets to the response, with the request and
  the response of the connection as \<open>Q\<close> says.
\<close>

definition handles ::
  "('a \<Rightarrow> 'a server \<Rightarrow> 'a server run) \<Rightarrow> 'a uo_http_server \<Rightarrow> uo_http_method \<Rightarrow> string \<Rightarrow> string \<Rightarrow> string \<Rightarrow> (uo_http_conn \<Rightarrow> bool) \<Rightarrow> bool" where
  "handles app srv mth target uri content Q \<longleftrightarrow> (\<forall>s c h msg rb fs. linked s c \<longrightarrow> http_conn s = Some h \<longrightarrow> idle_http h
     \<longrightarrow> http_server s = srv \<longrightarrow> receive_msg UO_HTTP_MSG_TYPE_REQUEST (tc_rbuf c) = Some (Inr (msg, rb))
     \<longrightarrow> hm_method msg = mth \<longrightarrow> hm_method_sp_uri msg = target \<longrightarrow> hm_uri msg = uri \<longrightarrow> hm_body msg = Some content
     \<longrightarrow> (\<exists>h'. leads (server_func app) (on s c [TcpConn] (Usr Evt_after_recv # fs))
            (on (s\<lparr> http_conn := Some h' \<rparr>) (c\<lparr> tc_rbuf := rb \<rparr>) [TcpConn] fs)
          \<and> Q h' \<and> hm_role (hc_http_req h') = UO_HTTP_MSG_ROLE_RECV
          \<and> hm_headers (hc_http_req h') = hm_headers msg \<and> hm_strs (hc_http_req h') = hm_strs msg))"

lemma routed_handles:
  assumes "routed srv target a ps" and "app_replies app a mth uri ps content reply"
  shows "handles app srv mth target uri content (\<lambda>h. reply_ok (hc_http_res h) reply)"
  unfolding handles_def using leads_handled [where a = a and ps = ps and reply = reply and content = content] assms by blast

lemma unrouted_handles:
  assumes "unrouted srv target"
  shows "handles app srv mth target uri content
    (\<lambda>h. hc_http_res h = uo_http_msg_create_at UO_HTTP_MSG_TYPE_RESPONSE UO_HTTP_MSG_ROLE_SEND
       \<and> hm_method (hc_http_req h) = mth \<and> hm_uri (hc_http_req h) = uri \<and> shares (hm_refstack (hc_http_req h)) = (\<lambda>r. 0))"
  unfolding handles_def
proof (intro allI impI)
  fix s :: "'a server" and c h msg rb fs
  assume a: "linked s c" "http_conn s = Some h" "idle_http h" "http_server s = srv"
    "receive_msg UO_HTTP_MSG_TYPE_REQUEST (tc_rbuf c) = Some (Inr (msg, rb))" "hm_method msg = mth"
    "hm_method_sp_uri msg = target" "hm_uri msg = uri"
  show "\<exists>h'. leads (server_func app) (on s c [TcpConn] (Usr Evt_after_recv # fs))
      (on (s\<lparr> http_conn := Some h' \<rparr>) (c\<lparr> tc_rbuf := rb \<rparr>) [TcpConn] fs)
    \<and> (hc_http_res h' = uo_http_msg_create_at UO_HTTP_MSG_TYPE_RESPONSE UO_HTTP_MSG_ROLE_SEND
       \<and> hm_method (hc_http_req h') = mth \<and> hm_uri (hc_http_req h') = uri \<and> shares (hm_refstack (hc_http_req h')) = (\<lambda>r. 0))
    \<and> hm_role (hc_http_req h') = UO_HTTP_MSG_ROLE_RECV
    \<and> hm_headers (hc_http_req h') = hm_headers msg \<and> hm_strs (hc_http_req h') = hm_strs msg"
    using leads_unhandled [OF a(1-3,5), of app fs] assms a(4,6-8) receive_msg_shares [OF a(5)] by auto
qed

text \<open>A complete request that arrives on a connection that is ready is parsed and handled.\<close>

lemma leads_request:
  assumes "http_ready s c" and "method_str mth = Some m" and "version_str ver = Some v" and "plain uri"
    and "wire_ok hs content_type content"
    and "req = request_text m uri v (hs @ content_hdrs content_type content) content"
    and "length req \<le> bf_size (tc_rbuf c)" and "bf_size (tc_rbuf c) < 2 ^ 31"
    and "handles app (http_server s) mth (m @ '' '' @ uri) uri content Q"
  shows "\<exists>h rb. leads (server_func app) (uo_io_accept_async_io (EPOLLIN (Some req)) s)
      (on (s\<lparr> event := None, http_conn := Some h \<rparr>) ((received req c)\<lparr> tc_rbuf := rb \<rparr>) [TcpConn] [Next_send_cb_func, Advance])
    \<and> Q h \<and> hm_role (hc_http_req h) = UO_HTTP_MSG_ROLE_RECV
    \<and> hdrs_rel (hc_http_req h) (hs @ content_hdrs content_type content)
    \<and> length (bf_data rb) = bf_size rb \<and> 0 < bf_size rb \<and> bf_size rb < 2 ^ 63"
proof -
  let ?u = "server_func app" and ?H = "hs @ content_hdrs content_type content" and ?c = "received req c"
  obtain h where h: "waiting s c" "linked s c" "http_flow (tc_evt_handlers c)" "buf_rel (tc_rbuf c) []"
    "http_conn s = Some h" "idle_http h" using assms(1) by (auto simp: http_ready_def)
  let ?e = "s\<lparr> event := None \<rparr>"
  have req: "req \<noteq> []" "length (headers_text ?H) + length content < 2 ^ 31"
    using assms(6-8) by (auto simp: request_text_def CRLF_def)
  have hs: "eh_after_recv (tc_evt_handlers c) = ([], [Usr Evt_after_recv, Next_send_cb_func])"
    using h(3) by (simp add: flow_recv_send_repeat_def)
  have c: "buf_rel (tc_rbuf ?c) req" "linked ?e ?c" "bf_size (tc_rbuf ?c) = bf_size (tc_rbuf c)"
    using leads_received(2) [OF h(1,4) req(1) _ hs] assms(7) linked_cong [of ?c c ?e s] h(2) buf_relD [OF h(4)]
    by (auto simp: received_def uo_buf_set_ptr_rel_def buf_store_def store_def)
  have size: "0 < bf_size (tc_rbuf ?c)" using c(3) assms(7) req(1) by (cases req) auto
  obtain msg rb where msg: "receive_msg UO_HTTP_MSG_TYPE_REQUEST (tc_rbuf ?c) = Some (Inr (msg, rb))"
    "hdrs_rel msg ?H" "hm_method msg = mth" "hm_uri msg = uri" "hm_body msg = Some content"
    "hm_method_sp_uri msg = m @ '' '' @ uri" "length (bf_data rb) = bf_size rb" "0 < bf_size rb" "bf_size rb \<le> 2 * bf_size (tc_rbuf ?c)"
    using request_received [OF assms(2-5) _ _ c(1) [unfolded assms(6)] size [unfolded assms(6)]] req(2) assms(6) by auto
  obtain h2 where h2: "leads ?u (on ?e ?c [TcpConn] [Usr Evt_after_recv, Next_send_cb_func, Advance])
      (on (?e\<lparr> http_conn := Some h2 \<rparr>) (?c\<lparr> tc_rbuf := rb \<rparr>) [TcpConn] [Next_send_cb_func, Advance])"
    "Q h2" "hm_role (hc_http_req h2) = UO_HTTP_MSG_ROLE_RECV"
    "hm_headers (hc_http_req h2) = hm_headers msg" "hm_strs (hc_http_req h2) = hm_strs msg"
    using assms(9) [unfolded handles_def, rule_format, OF c(2) _ h(6) _ msg(1) msg(3) msg(6) msg(4) msg(5), of "[Next_send_cb_func, Advance]"]
      h(5) by auto
  have "leads ?u (uo_io_accept_async_io (EPOLLIN (Some req)) s) (on ?e ?c [TcpConn] [Usr Evt_after_recv, Next_send_cb_func, Advance])"
    using leads_received(1) [OF h(1,4) req(1) _ hs, of ?u] assms(7) by simp
  from leads_trans [OF this h2(1)] have "leads ?u (uo_io_accept_async_io (EPOLLIN (Some req)) s)
      (on (?e\<lparr> http_conn := Some h2 \<rparr>) (?c\<lparr> tc_rbuf := rb \<rparr>) [TcpConn] [Next_send_cb_func, Advance])" .
  moreover have "hdrs_rel (hc_http_req h2) ?H" using msg(2) h2(4,5) hdrs_rel_cong by blast
  ultimately show ?thesis using h2(2,3) msg(7-9) c(3) assms(8) by (intro exI [of _ h2] exI [of _ rb]) simp
qed

lemma server_more:
  fixes s s' :: "'a server"
  assumes "tcp.more s' = tcp.more s"
  shows "http_conn s' = http_conn s" "http_server s' = http_server s" "http_addr s' = http_addr s"
    "file_server s' = file_server s" "files s' = files s"
  using assms by (cases s; cases s'; simp)+

text \<open>The exchange, from the arrival of the request until the server waits again.\<close>

lemma exchange:
  assumes "http_ready s c" and "method_str mth = Some m" and "version_str ver = Some v" and "plain uri"
    and "wire_ok hs content_type content"
    and "req = request_text m uri v (hs @ content_hdrs content_type content) content"
    and "length req \<le> bf_size (tc_rbuf c)" and "bf_size (tc_rbuf c) < 2 ^ 31"
    and "handles app (http_server s) mth (m @ '' '' @ uri) uri content Q"
    and "list_all (\<lambda>w. 0 < w) (writes s)" and "length reply \<le> length (writes s)" and "ctls s = True # oks"
    and "map_of hs ''connection'' \<noteq> Some ''close''"
    and "\<And>h. Q h \<Longrightarrow> \<exists>res f. final_response (files s) (file_server s) h = Some (Inr (res, f)) \<and> reply_ok res reply"
  shows "\<exists>n s' c' h res f. run_cb (server_func app) n (uo_io_accept_async_io (EPOLLIN (Some req)) s) = Some (Inr s')
    \<and> sent s' = sent s @ reply \<and> http_ready s' c' \<and> http_server s' = http_server s \<and> files s' = files s
    \<and> Q h \<and> final_response (files s) (file_server s) h = Some (Inr (res, f))
    \<and> file_server s' = map_option (\<lambda>f. release_refs f (rev (hm_refstack (hc_http_req h)) @ rev (hm_refstack res))) f"
proof -
  let ?u = "server_func app" and ?H = "hs @ content_hdrs content_type content" and ?r = "received req c"
  have h: "linked s c" "http_flow (tc_evt_handlers c)" "tc_state c = NUL" "buf_rel (tc_wbuf c) []"
    using assms(1) by (simp_all add: http_ready_def)
  obtain h2 rb where h2: "leads ?u (uo_io_accept_async_io (EPOLLIN (Some req)) s)
      (on (s\<lparr> event := None, http_conn := Some h2 \<rparr>) (?r\<lparr> tc_rbuf := rb \<rparr>) [TcpConn] [Next_send_cb_func, Advance])"
    "Q h2" "hm_role (hc_http_req h2) = UO_HTTP_MSG_ROLE_RECV" "hdrs_rel (hc_http_req h2) ?H"
    "length (bf_data rb) = bf_size rb" "0 < bf_size rb" "bf_size rb < 2 ^ 63"
    using leads_request [OF assms(1-9)] by blast
  let ?s2 = "s\<lparr> event := None, http_conn := Some h2 \<rparr>" and ?c2 = "?r\<lparr> tc_rbuf := rb \<rparr>"
  obtain res f where res: "final_response (files s) (file_server s) h2 = Some (Inr (res, f))" "reply_ok res reply"
    using assms(14) [OF h2(2)] by blast
  have cl: "map_of ?H ''connection'' \<noteq> Some ''close''" using assms(13) by (auto simp: map_add_def content_hdrs_def split: option.splits)
  have L2: "linked ?s2 ?c2" using h(1) linked_cong [of ?c2 c ?s2 s] by (simp add: received_def)
  define s3 where "s3 h ws = after_response (?s2\<lparr> file_server := f, sent := sent s @ reply, writes := ws \<rparr>) h" for h ws
  obtain h3 wb ws where h3: "leads ?u (on ?s2 ?c2 [TcpConn] [Next_send_cb_func, Advance])
      (on (s3 h3 ws) (?c2\<lparr> tc_wbuf := wb, tc_state := CHR ''r'' \<rparr>) [TcpConn] [After_send, Advance])"
    "buf_rel wb reply" "hc_http_req h3 = hc_http_req h2" "hc_http_res h3 = res"
    using leads_sent [OF L2 _ _ res(2) _ _ _ _ _ get_header_rel [OF h2(4)] cl, of f app] h(2-4) assms(10,11) res(1)
    by (auto simp: received_def s3_def)
  have S: "ctls (s3 h3 ws) = True # oks" "sent (s3 h3 ws) = sent s @ reply" "http_server (s3 h3 ws) = http_server s"
    "files (s3 h3 ws) = files s" "http_conn (s3 h3 ws) = Some (snd (uo_http_conn_reset h3))"
    "file_server (s3 h3 ws) = map_option (\<lambda>f. release_refs f (fst (uo_http_conn_reset h3))) f"
    using assms(12) by (simp_all add: s3_def)
  let ?s3 = "s3 h3 ws" and ?c3 = "?c2\<lparr> tc_wbuf := wb, tc_state := CHR ''r'' \<rparr>"
  obtain rb' s' where s': "leads ?u (on ?s3 ?c3 [TcpConn] [After_send, Advance]) s'" "waiting s' ((emptied ?c3)\<lparr> tc_rbuf := rb' \<rparr>)"
    "buf_rel rb' []" "0 < bf_size rb'" "sent s' = sent ?s3" "tcp.more s' = tcp.more ?s3"
    using leads_wait_again [of ?c3 ?s3 oks ?u] h2(5-7) h(2) S(1) by (auto simp: flow_recv_send_repeat_def received_def)
  note leads_trans [OF leads_trans [OF h2(1) h3(1)] s'(1)]
  then obtain n where run: "run_cb ?u n (uo_io_accept_async_io (EPOLLIN (Some req)) s) = Some (Inr s')"
    using leads_stops s'(2) by (fastforce simp: waiting_def)
  let ?c' = "(emptied ?c3)\<lparr> tc_rbuf := rb' \<rparr>"
  note more = server_more [OF s'(6)]
  have "linked s' ?c'" using h(1) more(2) S(3) linked_cong [of ?c' c s' s] by (simp add: received_def)
  moreover have "buf_rel (tc_wbuf ?c') []" using buf_relD [OF h3(2)] by (simp add: buf_rel_def uo_buf_set_ptr_abs_def)
  moreover have "idle_http (snd (uo_http_conn_reset h3))" using reset_idle h3(3) h2(3) by simp
  ultimately have "http_ready s' ?c'" using s'(2-4) h(2) more(1) S(5) by (simp add: http_ready_def received_def)
  moreover have "fst (uo_http_conn_reset h3) = rev (hm_refstack (hc_http_req h2)) @ rev (hm_refstack res)"
    using h3(3,4) by (simp add: uo_http_conn_reset_def Let_def uo_http_msg_destroy_at_def)
  ultimately show ?thesis using run s'(5) more(2,4,5) S(2-4,6) h2(2) res(1) by (intro exI) auto
qed

lemma answered_response:
  "reply_ok (hc_http_res h) reply \<Longrightarrow> \<exists>res f. final_response fs st h = Some (Inr (res, f)) \<and> reply_ok res reply"
  by (simp add: final_response_def reply_ok_def)

section \<open>Opening a connection\<close>

lemma user_data_set:
  assumes "tc_user_data c = uo_hashtbl_create_at 0" and "ptr \<noteq> 0" and "ptr \<noteq> UO_HASHTBL_TAG_REMOVED"
  shows "\<exists>t. uo_tcp_conn_set_user_data c key ptr = Some (Inr (c\<lparr> tc_user_data := t \<rparr>))
    \<and> uo_tcp_conn_get_user_data (c\<lparr> tc_user_data := t \<rparr>) key = Some ptr"
proof -
  have "table_rel uo_strhash_djb2 (tc_user_data c) []" "ht_capacity (tc_user_data c) < 2 ^ 63"
    using table_rel_create [of 0 uo_strhash_djb2] assms(1) by (simp_all add: uo_hashtbl_create_at_def UO_HASHTBL_MIN_CAPACITY_def)
  from table_rel_set [OF this(1) assms(3) this(2), of key] obtain t where
    t: "uo_hashtbl_set uo_strhash_djb2 (tc_user_data c) (Some key) ptr = Some (Inr t)"
    "table_rel uo_strhash_djb2 t (AList.update key ptr [])" by blast
  from table_rel_get [OF t(2), of key] t(1) assms(2) show ?thesis
    by (intro exI [of _ t]) (simp add: uo_tcp_conn_set_user_data_def uo_tcp_conn_get_user_data_def uo_strhashtbl_set_def
        uo_strhashtbl_get_def)
qed

lemma created_idle: "idle_http uo_http_conn_create_for_server"
  by (simp add: idle_http_def uo_http_conn_create_for_server_def)

lemma leads_opened:
  fixes s :: "'a server"
  assumes "c = uo_tcp_conn_create_for_server fd shared hs" and "http_flow hs"
    and "eh_after_open hs = ([], [Usr Evt_after_open, Next_recv_cb_func])"
    and "http_addr s \<noteq> 0" and "http_addr s \<noteq> UO_HASHTBL_TAG_REMOVED" and "server_handlers s = no_http_handlers"
    and "ctls s = True # oks"
  shows "\<exists>s' c'. leads (server_func app) (uo_tcp_conn_open c s) s' \<and> http_ready s' c' \<and> http_server s' = http_server s
    \<and> sent s' = sent s \<and> writes s' = writes s \<and> ctls s' = oks \<and> file_server s' = file_server s \<and> files s' = files s
    \<and> 0x200 \<le> bf_size (tc_rbuf c') \<and> bf_size (tc_rbuf c') \<le> 0x400"
proof -
  let ?u = "server_func app" and ?h = uo_http_conn_create_for_server
  have c: "tc_user_data c = uo_hashtbl_create_at 0" "tc_evt_handlers c = hs" "tc_state c = NUL"
    "tc_rbuf c = uo_buf_alloc 0x200" "tc_wbuf c = uo_buf_alloc 0x200" "bf_size (uo_buf_alloc 0x200) = 0x200"
    using assms(1) by (simp_all add: uo_tcp_conn_create_for_server_def UO_TCP_BUF_SIZE_def uo_buf_alloc_def)
  obtain t where t: "uo_tcp_conn_set_user_data c ''http_conn'' (http_addr s) = Some (Inr (c\<lparr> tc_user_data := t \<rparr>))"
    "uo_tcp_conn_get_user_data (c\<lparr> tc_user_data := t \<rparr>) ''http_conn'' = Some (http_addr s)"
    using user_data_set [OF c(1) assms(4,5)] by blast
  let ?c = "c\<lparr> tc_user_data := t \<rparr>" and ?s = "s\<lparr> http_conn := Some ?h \<rparr>" and ?fs = "[Next_recv_cb_func, Advance]"
  have n: "he_after_open (server_handlers s) = ([], [])" using assms(6) by (simp add: no_http_handlers_def)
  have "uo_tcp_conn_open c s = on s c [TcpConn] (Usr Evt_after_open # ?fs)"
    using assms(3) c(2) by (simp add: uo_tcp_conn_open_def on_def)
  also have "leads ?u \<dots> (on ?s ?c [Ptr HttpConn] (Usr Pass_cb_to_tcp # ?fs))"
    by (rule on_step) (simp add: tcp_server_evt_handler_after_open_def pop_tcp_def on_cb t(1) n Let_def)
  also have "leads ?u \<dots> (on ?s ?c [TcpConn] ?fs)" by (rule leads_pass [of _ ?h]) simp
  also have "leads ?u \<dots> (on ?s (?c\<lparr> tc_state := CHR ''r'' \<rparr>) [TcpConn] [Advance])"
    using leads_next_recv [of ?u ?s ?c "[]"] next_from_none(2) [of ?c] c(3) by simp
  also have "leads ?u \<dots> (on ?s ?c [TcpConn] [Before_recv])"
    using leads_advance_recv [of "?c\<lparr> tc_state := CHR ''r'' \<rparr>" "[]" ?u ?s "[]" "[]"] c(2) assms(2) state_again [of ?c NUL] c(3)
    by (simp add: flow_recv_send_repeat_def)
  finally have 1: "leads ?u (uo_tcp_conn_open c s) (on ?s ?c [TcpConn] [Before_recv])" .
  obtain rb s' where s': "leads ?u (on ?s ?c [TcpConn] [Before_recv]) s'" "waiting s' (?c\<lparr> tc_rbuf := rb \<rparr>)" "buf_rel rb []"
    "sent s' = sent s" "writes s' = writes s" "ctls s' = oks" "0x200 \<le> bf_size rb" "bf_size rb \<le> 0x400"
    "tcp.more s' = tcp.more ?s"
    using leads_before_recv [of ?c "[]" ?s oks ?u] c(4,6) buf_rel_alloc [of "0x200"] assms(7) by auto
  note more = server_more [OF s'(9)]
  have "linked s' ?c" using t(2) assms(4,6) more(2) by (simp add: linked_def)
  then have "linked s' (?c\<lparr> tc_rbuf := rb \<rparr>)" using linked_cong [of "?c\<lparr> tc_rbuf := rb \<rparr>" ?c s' s'] by simp
  then have "http_ready s' (?c\<lparr> tc_rbuf := rb \<rparr>)"
    using s'(2,3,7) c(2,3,5) assms(2) more(1) created_idle buf_rel_alloc [of "0x200"] by (simp add: http_ready_def)
  then show ?thesis using leads_trans [OF 1 s'(1)] s'(4-8) more(2,4,5)
    by (intro exI [of _ s'] exI [of _ "?c\<lparr> tc_rbuf := rb \<rparr>"]) simp
qed

text \<open>The handlers of a TCP server on which an HTTP server has been created.\<close>

lemma created_flow:
  assumes "uo_http_server_create (Some srv) ptr = Some (Inr (hsrv, srv'))"
    and "ts_evt_handlers srv = no_handlers\<lparr> eh_after_close := append_handler ([], []) Server_after_close \<rparr>"
  shows "http_flow (ts_evt_handlers srv')" "eh_after_open (ts_evt_handlers srv') = ([], [Usr Evt_after_open, Next_recv_cb_func])"
    "hs_evt_handlers hsrv = no_http_handlers" "hs_req_handlers hsrv = []"
  using assms
  by (auto simp: uo_http_server_create_def uo_tcp_server_set_user_data_def no_handlers_def append_handler_def Let_def
      uo_tcp_server_set_opt_use_flow_recv_send_repeat_def flow_recv_send_repeat_def deref_def elim!: run_bind_InrE)

lemma routed_pattern:
  assumes "uo_http_req_handler_create (pattern_text segs fin) (hfunc (App a)) = Inr rh" and "hs_req_handlers srv = rh # rhs"
    and "pattern_ok segs fin" and "segs \<noteq> []" and "fill_ok segs vs fin rest" and "no_nul (fill segs vs rest)"
    and "match_end (fin @ [NUL]) rest" and "length segs < 2 ^ 60"
  shows "routed srv (fill segs vs rest) a (updates [] (zip (map snd segs) vs))"
  unfolding routed_def
proof
  fix refs
  from try_fill [OF assms(3-7) strtab_rel_create, of "hfunc (App a)" refs] assms(1,8) obtain params strs refs' where
    "uo_http_req_handler_try rh (fill segs vs rest) (uo_hashtbl_create_at 0) [] refs = Some (Inr (True, params, strs, refs'))"
    "strtab_rel params strs (updates [] (zip (map snd segs) vs))" by auto
  moreover have "rh_cb rh = hfunc (App a)" using assms(1)
    by (auto simp: uo_http_req_handler_create_def elim!: res_bind_InrE)
  ultimately show "\<exists>j params strs refs'.
      first_match (hs_req_handlers srv) 0 (fill segs vs rest) (uo_hashtbl_create_at 0) [] refs
        = Some (Inr (Some (hfunc (App a), j), params, strs, refs'))
      \<and> strtab_rel params strs (updates [] (zip (map snd segs) vs))"
    using assms(2) by auto
qed

section \<open>Properties\<close>

text \<open>
  C2: an HTTP server answers every request on a connection. When a complete request arrives, it
  is parsed from the receive buffer, the values of the parameters of the first matching pattern
  are extracted, the function registered for it is run on the request, and exactly the text of
  the response that this function composes goes to the socket, however the writes split it. The
  connection is then as it was before, ready for the next request, unless the client asks to
  close it.
\<close>

theorem uo_http_server_answers:
  assumes "http_ready s c" and "method_str mth = Some m" and "version_str ver = Some v" and "plain uri"
    and "wire_ok hs content_type content" and "map_of hs ''connection'' \<noteq> Some ''close''"
    and "req = request_text m uri v (hs @ content_hdrs content_type content) content"
    and "length req \<le> bf_size (tc_rbuf c)" and "bf_size (tc_rbuf c) < 2 ^ 31"
    and "routed (http_server s) (m @ '' '' @ uri) a ps" and "app_replies app a mth uri ps content reply"
    and "list_all (\<lambda>w. 0 < w) (writes s)" and "length reply \<le> length (writes s)" and "ctls s = True # oks"
  shows "\<exists>n s' c'. run_cb (server_func app) n (uo_io_accept_async_io (EPOLLIN (Some req)) s) = Some (Inr s')
    \<and> sent s' = sent s @ reply \<and> http_ready s' c' \<and> http_server s' = http_server s"
  using exchange [OF assms(1-5,7-9) routed_handles [OF assms(10,11)] assms(12-14,6) answered_response] by blast

text \<open>A server that greets, for the witness.\<close>

definition greet :: "unit \<Rightarrow> unit server \<Rightarrow> unit server run" where
  "greet u s =
     run_bind (Some (the_http s)) (\<lambda>h.
     run_bind (uo_http_conn_get_req_data h ''name'') (\<lambda>(name, h).
     run_bind (Some (uo_http_res_set_status_line (hc_http_res h) UO_HTTP_200 UO_HTTP_VER_1_1)) (\<lambda>(_, res).
       let content = ''hello, '' @ (case name of None \<Rightarrow> [] | Some n \<Rightarrow> n) in
     run_bind (uo_http_msg_set_content res content ''text/plain'' (length content)) (\<lambda>res.
       Some (Inr (s\<lparr> http_conn := Some (h\<lparr> hc_http_res := res \<rparr>) \<rparr>))))))"

definition greet_handlers :: "(unit http_func, http_ptr) uo_tcp_conn_evt_handlers" where
  "greet_handlers = \<lparr> eh_after_open = ([], [Usr Evt_after_open, Next_recv_cb_func]), eh_before_recv = ([], []),
     eh_after_recv = ([], [Usr Evt_after_recv, Next_send_cb_func]), eh_before_send = ([], [Usr Evt_before_send]),
     eh_after_send = ([], [Usr Evt_after_send, Next_recv_cb_func]), eh_before_close = ([], [Usr Evt_before_close]),
     eh_after_close = ([], [Server_after_close, Usr Evt_after_close]) \<rparr>"

definition greet_server :: "unit uo_http_server" where
  "greet_server = \<lparr> hs_user_data = uo_hashtbl_create_at 0, hs_evt_handlers = no_http_handlers,
     hs_req_handlers = [projr (uo_http_req_handler_create ''GET /hello/{name}'' (hfunc (App ())))] \<rparr>"

definition greet_start :: "unit server" where
  "greet_start = \<lparr> conn = None, cb_data = [], cb_funcs = [], phase = Ended, sent = [], closes = [], closing = [],
     writes = replicate 100 3, ctls = [True, True], event = None, http_conn = None, http_addr = 0x1000, released = [],
     http_server = greet_server, handler_addr = int, file_server = None,
     files = \<lparr> fs_stat = (\<lambda>f. None), fs_fopen = (\<lambda>f. None) \<rparr> \<rparr>"

definition greet_request :: string where
  "greet_request = request_text ''GET'' ''/hello/world'' ''HTTP/1.1'' ([(''host'', ''uo'')] @ content_hdrs ''text/plain'' []) []"

definition greet_reply :: string where
  "greet_reply = ''HTTP/1.1 200 OK'' @ CRLF @ headers_text (content_hdrs ''text/plain'' ''hello, world'') @ CRLF @ ''hello, world''"

lemma greet_lengths: "length greet_request \<le> 0x200" "length greet_reply \<le> 100"
  unfolding greet_request_def greet_reply_def by code_simp+

lemma greet_replies: "app_replies greet () UO_HTTP_GET ''/hello/world'' [(''name'', ''world'')] [] greet_reply"
  unfolding app_replies_def
proof (intro allI impI)
  fix s :: "unit server" and h
  assume h: "http_conn s = Some h" "cb_data s = [Ptr HttpConn]"
    "hc_http_res h = uo_http_msg_create_at UO_HTTP_MSG_TYPE_RESPONSE UO_HTTP_MSG_ROLE_SEND"
    "strtab_rel (hc_req_data h) (hc_req_strs h) [(''name'', ''world'')]"
  have d: "uo_http_conn_get_req_data h ''name'' = Some (Inr (Some ''world'', h))"
    using strtab_get_rel [OF h(4), of "''name''"] by (simp add: uo_http_conn_get_req_data_def)
  have "map_of status_strs UO_HTTP_200 = Some ''200 OK''" by code_simp
  from respond_content [OF this, of "''hello, world''" "''text/plain''"] obtain m res where
    m: "uo_http_res_set_status_line (hc_http_res h) UO_HTTP_200 UO_HTTP_VER_1_1 = Inr (True, m)" and
    res: "uo_http_msg_set_content m ''hello, world'' ''text/plain'' (length ''hello, world'') = Some (Inr res)" "reply_ok res greet_reply"
    using h(3) by (auto simp: greet_reply_def response_text_def)
  have "greet () s = Some (Inr (s\<lparr> http_conn := Some (h\<lparr> hc_http_res := res \<rparr>) \<rparr>))"
    using h(1,2) d m res(1) by (simp add: greet_def the_http_def)
  with res(2) show "\<exists>res. greet () s = Some (Inr (s\<lparr> http_conn := Some (h\<lparr> hc_http_res := res \<rparr>) \<rparr>)) \<and> reply_ok res greet_reply"
    by blast
qed

lemma greet_routed: "routed greet_server ''GET /hello/world'' () [(''name'', ''world'')]"
proof -
  let ?segs = "[(''GET /hello/'', ''name'')]" and ?vs = "[''world'']"
  have p: "pattern_ok ?segs []" "fill_ok ?segs ?vs [] []" "no_nul (fill ?segs ?vs [])" "match_end ([] @ [NUL]) []"
    unfolding pattern_ok_def braceless_def no_nul_def by code_simp+
  obtain rh where rh: "uo_http_req_handler_create (pattern_text ?segs []) (hfunc (App ()) :: unit http_handler) = Inr rh"
    using try_fill [OF p(1) _ p(2-4) strtab_rel_create, of "hfunc (App ())" "[]"] by auto
  then have "hs_req_handlers greet_server = rh # []" by (simp add: greet_server_def)
  from routed_pattern [OF rh this p(1) _ p(2-4)] show ?thesis by simp
qed

lemma greet_opened:
  "\<exists>s c. leads (server_func greet) (uo_tcp_conn_open (uo_tcp_conn_create_for_server 7 (uo_hashtbl_create_at 0) greet_handlers) greet_start) s
    \<and> http_ready s c \<and> http_server s = greet_server \<and> sent s = [] \<and> writes s = replicate 100 3 \<and> ctls s = [True]
    \<and> 0x200 \<le> bf_size (tc_rbuf c) \<and> bf_size (tc_rbuf c) \<le> 0x400"
proof -
  have "http_flow greet_handlers" "eh_after_open greet_handlers = ([], [Usr Evt_after_open, Next_recv_cb_func])"
    by (simp_all add: greet_handlers_def flow_recv_send_repeat_def)
  from leads_opened [OF refl this, of greet_start "[True]" greet 7 "uo_hashtbl_create_at 0"] show ?thesis
    by (auto simp: greet_start_def greet_server_def UO_HASHTBL_TAG_REMOVED_def)
qed

theorem uo_http_server_answers_witness:
  "\<exists>k s n s'. run_cb (server_func greet) k
        (uo_tcp_conn_open (uo_tcp_conn_create_for_server 7 (uo_hashtbl_create_at 0) greet_handlers) greet_start) = Some (Inr s)
     \<and> run_cb (server_func greet) n (uo_io_accept_async_io (EPOLLIN (Some greet_request)) s) = Some (Inr s')
     \<and> sent s' = greet_reply \<and> phase s' = Waiting"
proof -
  let ?c = "uo_tcp_conn_create_for_server 7 (uo_hashtbl_create_at 0) greet_handlers"
  obtain s c where s: "leads (server_func greet) (uo_tcp_conn_open ?c greet_start) s" "http_ready s c"
    "http_server s = greet_server" "sent s = []" "writes s = replicate 100 3" "ctls s = [True]"
    "0x200 \<le> bf_size (tc_rbuf c)" "bf_size (tc_rbuf c) \<le> 0x400"
    using greet_opened by blast
  have w: "method_str UO_HTTP_GET = Some ''GET''" "version_str UO_HTTP_VER_1_1 = Some ''HTTP/1.1''"
    "plain ''/hello/world''" "wire_ok [(''host'', ''uo'')] ''text/plain'' []" "map_of [(''host'', ''uo'')] ''connection'' \<noteq> Some ''close''"
    unfolding plain_def wire_ok_def header_ok_def by code_simp+
  have "\<exists>n s' c'. run_cb (server_func greet) n (uo_io_accept_async_io (EPOLLIN (Some greet_request)) s) = Some (Inr s')
      \<and> sent s' = sent s @ greet_reply \<and> http_ready s' c' \<and> http_server s' = http_server s"
    by (rule uo_http_server_answers [OF s(2) w greet_request_def, where oks = "[]"])
       (use s(3-8) greet_lengths greet_routed greet_replies in \<open>simp_all add: list_all_iff\<close>)
  moreover obtain k where "run_cb (server_func greet) k (uo_tcp_conn_open ?c greet_start) = Some (Inr s)"
    using leads_stops [OF s(1)] s(2) by (auto simp: http_ready_def waiting_def)
  ultimately show ?thesis using s(4) by (fastforce simp: http_ready_def waiting_def)
qed

end
