(* ===== verification/File_Cache.thy ===== *)
theory File_Cache
  imports File_Server
begin

text \<open>
  What the file server of \<^verbatim>\<open>uo_http_file_server.c\<close> guarantees: every request is answered with the
  present content of its file, the references to cached contents are counted exactly, and the
  cache stays within its limit as long as files keep their size.
\<close>

section \<open>The invariant\<close>

text \<open>
  The structure of a server's memory. The table holds exactly the entries that are allocated,
  except those at the addresses \<open>loose\<close>, under their targets. No two entries share a content,
  and the count of a content is the number of entries and of responses (\<open>held\<close>) that refer to it:
  nothing is leaked, and nothing that is in use is freed.
\<close>

definition in_entry :: "uo_http_file_server \<Rightarrow> nat \<Rightarrow> bool" where
  "in_entry st r \<longleftrightarrow> (\<exists>a e. fs_entries st a = Some e \<and> ce_content_ref e = r)"

definition table_inv :: "uo_http_file_server \<Rightarrow> nat set \<Rightarrow> bool" where
  "table_inv st loose \<longleftrightarrow> (\<exists>kvs. table_rel uo_strhash_djb2 (fs_cache st) kvs \<and> length kvs \<le> fs_next st
     \<and> ht_capacity (fs_cache st) \<le> 16 + 4 * fs_next st
     \<and> (\<forall>k w. (k, w) \<in> set kvs \<longleftrightarrow> unat w \<notin> loose \<and> (\<exists>e. fs_entries st (unat w) = Some e \<and> ce_uri e = k)))"

definition entries_inv :: "uo_http_file_server \<Rightarrow> bool" where
  "entries_inv st \<longleftrightarrow> 0 < fs_next st \<and> (\<forall>a e. fs_entries st a = Some e \<longrightarrow> 0 < a \<and> a < fs_next st)
     \<and> (\<forall>a b e f. fs_entries st a = Some e \<longrightarrow> fs_entries st b = Some f \<longrightarrow> ce_content_ref e = ce_content_ref f \<longrightarrow> a = b)"

definition counted :: "(char option list \<times> nat) option \<Rightarrow> nat \<Rightarrow> bool" where
  "counted c k \<longleftrightarrow> (case c of None \<Rightarrow> k = 0 | Some (_, n) \<Rightarrow> n = k \<and> 0 < k)"

definition counts_inv :: "uo_http_file_server \<Rightarrow> (nat \<Rightarrow> nat) \<Rightarrow> bool" where
  "counts_inv st held \<longleftrightarrow> (\<forall>r. counted (fs_contents st r) (held r + of_bool (in_entry st r)))
     \<and> (\<forall>r. fs_next st \<le> r \<longrightarrow> fs_contents st r = None)"

definition file_inv :: "uo_http_file_server \<Rightarrow> (nat \<Rightarrow> nat) \<Rightarrow> nat set \<Rightarrow> bool" where
  "file_inv st held loose \<longleftrightarrow> table_inv st loose \<and> entries_inv st \<and> counts_inv st held"

lemma counted_simps [simp]:
  "counted None k \<longleftrightarrow> k = 0" "counted (Some (b, n)) k \<longleftrightarrow> n = k \<and> 0 < k"
  by (simp_all add: counted_def)

lemma counted_cases: "counted c (Suc k) \<Longrightarrow> \<exists>b. c = Some (b, Suc k)"
  by (auto simp: counted_def split: option.splits)

lemma counts_invD:
  assumes "counts_inv st held"
  shows "counted (fs_contents st r) (held r + of_bool (in_entry st r))" "fs_next st \<le> r \<Longrightarrow> fs_contents st r = None"
  using assms by (simp_all add: counts_inv_def)

lemma file_invD:
  assumes "file_inv st held loose"
  shows "table_inv st loose" "entries_inv st" "counts_inv st held"
  using assms by (simp_all add: file_inv_def)

lemma entries_invD:
  assumes "entries_inv st"
  shows "0 < fs_next st" "fs_entries st a = Some e \<Longrightarrow> 0 < a" "fs_entries st a = Some e \<Longrightarrow> a < fs_next st"
    "fs_entries st a = Some e \<Longrightarrow> fs_entries st b = Some f \<Longrightarrow> ce_content_ref e = ce_content_ref f \<Longrightarrow> a = b"
  using assms unfolding entries_inv_def by blast+

lemma in_entryI: "fs_entries st a = Some e \<Longrightarrow> in_entry st (ce_content_ref e)"
  by (auto simp: in_entry_def)

lemma entry_content:
  assumes "counts_inv st held" and "fs_entries st a = Some e"
  obtains b where "fs_contents st (ce_content_ref e) = Some (b, Suc (held (ce_content_ref e)))"
  using counts_invD(1) [OF assms(1), of "ce_content_ref e"] in_entryI [OF assms(2)] counted_cases that by fastforce

text \<open>Looking a target up gives the entry of that target, or \<^verbatim>\<open>NULL\<close> when no entry has it.\<close>

lemma table_lookup:
  assumes "table_inv st loose" and "entries_inv st" and "fs_next st \<le> 2 ^ 64"
  shows "\<exists>ptr. uo_strhashtbl_get (fs_cache st) (Some uri) = Some ptr
    \<and> (if ptr = 0 then \<forall>a e. fs_entries st a = Some e \<longrightarrow> a \<notin> loose \<longrightarrow> ce_uri e \<noteq> uri
       else unat ptr \<notin> loose \<and> (\<exists>e. fs_entries st (unat ptr) = Some e \<and> ce_uri e = uri))"
proof -
  obtain kvs where kvs: "table_rel uo_strhash_djb2 (fs_cache st) kvs"
    "\<And>k w. (k, w) \<in> set kvs \<longleftrightarrow> unat w \<notin> loose \<and> (\<exists>e. fs_entries st (unat w) = Some e \<and> ce_uri e = k)"
    using assms(1) by (auto simp: table_inv_def)
  let ?p = "case map_of kvs uri of None \<Rightarrow> 0 | Some v \<Rightarrow> v"
  have g: "uo_strhashtbl_get (fs_cache st) (Some uri) = Some ?p"
    using table_rel_get [OF kvs(1)] by (simp add: uo_strhashtbl_get_def)
  show ?thesis
  proof (cases "map_of kvs uri")
    case None
    have "ce_uri e \<noteq> uri" if "fs_entries st a = Some e" "a \<notin> loose" for a e
    proof -
      have "a < 2 ^ 64" using entries_invD(3) [OF assms(2) that(1)] assms(3) by simp
      then show ?thesis
        using kvs(2) [of uri "of_nat a"] that None unat_of_nat_64 [of a] by (auto simp: map_of_eq_None_iff image_iff)
    qed
    with g None show ?thesis by auto
  next
    case (Some w)
    then have w: "unat w \<notin> loose" "\<exists>e. fs_entries st (unat w) = Some e \<and> ce_uri e = uri"
      using kvs(2) map_of_SomeD by fast+
    then have "w \<noteq> 0" using entries_invD(2) [OF assms(2), of "unat w"] by auto
    with g Some w show ?thesis by auto
  qed
qed

section \<open>Operations keep the invariant\<close>

lemma inv_updates [simp]:
  "table_inv (st\<lparr> fs_contents := c \<rparr>) loose = table_inv st loose" "entries_inv (st\<lparr> fs_contents := c \<rparr>) = entries_inv st"
  "in_entry (st\<lparr> fs_contents := c \<rparr>) r = in_entry st r"
  "table_inv (st\<lparr> fs_cache_space := n \<rparr>) loose = table_inv st loose" "entries_inv (st\<lparr> fs_cache_space := n \<rparr>) = entries_inv st"
  "counts_inv (st\<lparr> fs_cache_space := n \<rparr>) held = counts_inv st held"
  "entries_inv (st\<lparr> fs_cache := k \<rparr>) = entries_inv st" "counts_inv (st\<lparr> fs_cache := k \<rparr>) held = counts_inv st held"
  by (simp_all add: table_inv_def entries_inv_def counts_inv_def in_entry_def)

lemma content_inc_inv:
  assumes "file_inv st held loose" and "fs_contents st r = Some (b, n)"
  shows "content_inc st r = Inr (st\<lparr> fs_contents := (fs_contents st)(r \<mapsto> (b, n + 1)) \<rparr>)"
    and "file_inv (st\<lparr> fs_contents := (fs_contents st)(r \<mapsto> (b, n + 1)) \<rparr>) (held(r := held r + 1)) loose"
proof -
  note C = counts_invD [OF file_invD(3) [OF assms(1)]]
  show "content_inc st r = Inr (st\<lparr> fs_contents := (fs_contents st)(r \<mapsto> (b, n + 1)) \<rparr>)"
    using assms(2) by (simp add: content_inc_def)
  have "counts_inv (st\<lparr> fs_contents := (fs_contents st)(r \<mapsto> (b, n + 1)) \<rparr>) (held(r := held r + 1))"
    using C assms(2) C(1) [of r] unfolding counts_inv_def by auto
  then show "file_inv (st\<lparr> fs_contents := (fs_contents st)(r \<mapsto> (b, n + 1)) \<rparr>) (held(r := held r + 1)) loose"
    using file_invD [OF assms(1)] by (simp add: file_inv_def)
qed

text \<open>What reading a file gives: its content when it is a regular file that can be read.\<close>

definition file_now :: "file_system \<Rightarrow> string \<Rightarrow> string option" where
  "file_now fs filename = (case fs_stat fs filename of
       None \<Rightarrow> None
     | Some sb \<Rightarrow> if st_mode sb \<noteq> S_IFREG then None
         else (case fs_fopen fs filename of
             None \<Rightarrow> None
           | Some bytes \<Rightarrow> if length bytes < st_size sb then None else Some (take (st_size sb) bytes)))"

abbreviation block :: "string \<Rightarrow> char option list" where
  "block content \<equiv> map Some content @ [Some NUL]"

definition new_entry :: "uo_http_file_server \<Rightarrow> string \<Rightarrow> string \<Rightarrow> int \<Rightarrow> string \<Rightarrow> uo_http_file_cache_entry" where
  "new_entry st uri filename mtime content = \<lparr> ce_filename = filename, ce_uri = uri, ce_filetype = filetype_of filename,
     ce_content_ref = fs_next st, ce_mtime = mtime, ce_size = length content \<rparr>"

definition with_entry :: "uo_http_file_server \<Rightarrow> string \<Rightarrow> string \<Rightarrow> int \<Rightarrow> string \<Rightarrow> uo_http_file_server" where
  "with_entry st uri filename mtime content = st\<lparr> fs_contents := (fs_contents st)(fs_next st \<mapsto> (block content, 1)),
     fs_entries := (fs_entries st)(fs_next st + 1 \<mapsto> new_entry st uri filename mtime content), fs_next := fs_next st + 2 \<rparr>"

lemma entry_create_eq:
  "uo_http_file_cache_entry_create fs st uri filename = (case file_now fs filename of
       None \<Rightarrow> (None, st)
     | Some content \<Rightarrow> (Some (fs_next st + 1),
         with_entry st uri filename (st_mtime (the (fs_stat fs filename))) content))"
  by (cases st) (auto simp: uo_http_file_cache_entry_create_def file_now_def content_create_def with_entry_def new_entry_def Let_def
      min_def split: option.splits)

lemma ref_below: "counts_inv st held \<Longrightarrow> fs_entries st a = Some e \<Longrightarrow> ce_content_ref e < fs_next st"
  using entry_content counts_invD(2) by (metis linorder_not_less option.distinct(1))

lemma next_unused:
  assumes "counts_inv st held"
  shows "fs_contents st (fs_next st) = None" "held (fs_next st) = 0" "\<not> in_entry st (fs_next st)"
  using counts_invD [OF assms, of "fs_next st"] by (simp_all split: if_splits)

lemma with_entry_inv:
  assumes "file_inv st held {}"
  shows "file_inv (with_entry st uri filename mtime content) held {fs_next st + 1}"
proof -
  note F = file_invD [OF assms] and E = entries_invD [OF file_invD(2) [OF assms]]
  let ?st = "with_entry st uri filename mtime content" and ?n = "fs_next st"
  have none: "fs_entries st a = None" if "?n \<le> a" for a
    using E(3) [of a] that by (cases "fs_entries st a") auto
  have "table_inv ?st {?n + 1}"
  proof -
    obtain kvs where kvs: "table_rel uo_strhash_djb2 (fs_cache st) kvs" "length kvs \<le> ?n"
      "ht_capacity (fs_cache st) \<le> 16 + 4 * ?n"
      "\<And>k w. (k, w) \<in> set kvs \<longleftrightarrow> (\<exists>e. fs_entries st (unat w) = Some e \<and> ce_uri e = k)"
      using F(1) by (auto simp: table_inv_def)
    then show ?thesis using none [of "?n + 1"] unfolding table_inv_def
      by (intro exI [of _ kvs]) (auto simp: with_entry_def)
  qed
  moreover have "entries_inv ?st"
    using E ref_below [OF F(3)] unfolding entries_inv_def
    by (auto simp: with_entry_def new_entry_def split: if_splits) (blast dest: less_SucI | metis less_SucI less_irrefl)+
  moreover have "counts_inv ?st held"
  proof -
    have i: "in_entry ?st r \<longleftrightarrow> in_entry st r \<or> r = ?n" for r
      using none [of "?n + 1"] unfolding in_entry_def
      by (auto simp: with_entry_def new_entry_def split: if_splits) (metis option.distinct(1))+
    show ?thesis using F(3) next_unused [OF F(3)] unfolding counts_inv_def i by (auto simp: with_entry_def)
  qed
  ultimately show ?thesis by (simp add: file_inv_def)
qed

text \<open>Giving up a reference: the content is freed with the last one.\<close>

definition dropped :: "uo_http_file_server \<Rightarrow> nat \<Rightarrow> nat \<Rightarrow> (char option list \<times> nat) option" where
  "dropped st r = (fs_contents st)(r := (case fs_contents st r of None \<Rightarrow> None
     | Some (b, n) \<Rightarrow> if n = 1 then None else Some (b, n - 1)))"

lemma content_dec_eq: "fs_contents st r \<noteq> None \<Longrightarrow> content_dec st r = Inr (st\<lparr> fs_contents := dropped st r \<rparr>)"
  by (auto simp: content_dec_def dropped_def)

lemma dropped_other: "q \<noteq> r \<Longrightarrow> dropped st r q = fs_contents st q"
  by (simp add: dropped_def)

lemma counted_dropped: "counted (fs_contents st r) (Suc k) \<Longrightarrow> counted (dropped st r r) k"
  by (auto simp: dropped_def dest!: counted_cases)

lemma other_ref:
  assumes "entries_inv st" and "fs_entries st a = Some e" and "fs_entries st c = Some f"
  shows "ce_content_ref f \<noteq> ce_content_ref e \<longleftrightarrow> c \<noteq> a"
  using entries_invD(4) [OF assms(1,3,2)] assms(2,3) by auto

lemma destroy_counts:
  assumes "entries_inv st" and "counts_inv st held" and "fs_entries st a = Some e"
  shows "uo_http_file_cache_entry_destroy st a
      = Inr (st\<lparr> fs_contents := dropped st (ce_content_ref e), fs_entries := (fs_entries st)(a := None) \<rparr>)" (is "_ = Inr ?st")
    and "entries_inv (st\<lparr> fs_contents := dropped st (ce_content_ref e), fs_entries := (fs_entries st)(a := None) \<rparr>)"
    and "counts_inv (st\<lparr> fs_contents := dropped st (ce_content_ref e), fs_entries := (fs_entries st)(a := None) \<rparr>) held"
proof -
  let ?r = "ce_content_ref e"
  obtain b where b: "fs_contents st ?r = Some (b, Suc (held ?r))" using entry_content [OF assms(2,3)] .
  then show "uo_http_file_cache_entry_destroy st a = Inr ?st"
    using assms(3) by (simp add: uo_http_file_cache_entry_destroy_def entry_at_def content_dec_eq)
  show "entries_inv ?st" using assms(1) unfolding entries_inv_def by auto
  have i: "in_entry ?st q \<longleftrightarrow> in_entry st q \<and> q \<noteq> ?r" for q
    unfolding in_entry_def by (simp add: fun_upd_apply) (metis other_ref [OF assms(1,3)] option.distinct(1))
  have "counted (dropped st ?r q) (held q + of_bool (in_entry st q \<and> q \<noteq> ?r))" for q
  proof (cases "q = ?r")
    case True
    then show ?thesis using counted_dropped [of st ?r "held ?r"] b by simp
  next
    case False
    then show ?thesis using counts_invD(1) [OF assms(2), of q] by (simp add: dropped_other)
  qed
  moreover have "dropped st ?r q = None" if "fs_next st \<le> q" for q
    using counts_invD(2) [OF assms(2) that] by (auto simp: dropped_def)
  ultimately show "counts_inv ?st held" unfolding counts_inv_def i by simp
qed

lemma destroy_inv:
  assumes "file_inv st held {a}" and "fs_entries st a = Some e"
  shows "uo_http_file_cache_entry_destroy st a
      = Inr (st\<lparr> fs_contents := dropped st (ce_content_ref e), fs_entries := (fs_entries st)(a := None) \<rparr>)"
    and "file_inv (st\<lparr> fs_contents := dropped st (ce_content_ref e), fs_entries := (fs_entries st)(a := None) \<rparr>) held {}"
proof -
  note F = file_invD [OF assms(1)]
  have "table_inv (st\<lparr> fs_contents := dropped st (ce_content_ref e), fs_entries := (fs_entries st)(a := None) \<rparr>) {}"
    using F(1) unfolding table_inv_def by auto
  with destroy_counts [OF F(2,3) assms(2)] show "uo_http_file_cache_entry_destroy st a
      = Inr (st\<lparr> fs_contents := dropped st (ce_content_ref e), fs_entries := (fs_entries st)(a := None) \<rparr>)"
    and "file_inv (st\<lparr> fs_contents := dropped st (ce_content_ref e), fs_entries := (fs_entries st)(a := None) \<rparr>) held {}"
    by (simp_all add: file_inv_def)
qed

lemma table_distinct: "table_rel hash t kvs \<Longrightarrow> distinct (map fst kvs)"
  using distinct_kvps by (fastforce simp: table_rel_def table_at_def)

lemma remove_inv:
  assumes "file_inv st held {}" and "fs_entries st a = Some e" and "fs_next st \<le> 2 ^ 64"
  shows "\<exists>cache. uo_http_file_server_remove_cache_entry st (ce_uri e)
      = Some (Inr (a, st\<lparr> fs_cache := cache, fs_cache_space := fs_cache_space st + of_nat (ce_size e) \<rparr>))
    \<and> file_inv (st\<lparr> fs_cache := cache, fs_cache_space := fs_cache_space st + of_nat (ce_size e) \<rparr>) held {a}"
proof -
  note F = file_invD [OF assms(1)] and E = entries_invD [OF file_invD(2) [OF assms(1)]]
  obtain kvs where kvs: "table_rel uo_strhash_djb2 (fs_cache st) kvs" "length kvs \<le> fs_next st"
    "ht_capacity (fs_cache st) \<le> 16 + 4 * fs_next st"
    "\<And>k w. (k, w) \<in> set kvs \<longleftrightarrow> (\<exists>e. fs_entries st (unat w) = Some e \<and> ce_uri e = k)"
    using F(1) by (auto simp: table_inv_def)
  let ?u = "ce_uri e" and ?w = "of_nat a :: 64 word"
  have u: "unat ?w = a" "?w \<noteq> 0"
    using E(2,3) [OF assms(2)] assms(3) unat_of_nat_64 [of a] by (auto simp: unat_eq_zero [symmetric])
  note d = table_distinct [OF kvs(1)]
  have "(?u, ?w) \<in> set kvs" using kvs(4) u(1) assms(2) by simp
  with d have m: "map_of kvs ?u = Some ?w" by simp
  obtain t where t: "uo_strhashtbl_remove (fs_cache st) (Some ?u) = Some (Inr (?w, t))"
    "table_rel uo_strhash_djb2 t (AList.delete ?u kvs)" "ht_capacity t = ht_capacity (fs_cache st)"
    using table_rel_remove [OF kvs(1), of ?u] m by (auto simp: uo_strhashtbl_remove_def)
  let ?st = "st\<lparr> fs_cache := t, fs_cache_space := fs_cache_space st + of_nat (ce_size e) \<rparr>"
  have "uo_http_file_server_remove_cache_entry st ?u = Some (Inr (a, ?st))"
    using t(1) u assms(2) by (simp add: uo_http_file_server_remove_cache_entry_def entry_at_def)
  moreover have "table_inv ?st {a}"
  proof -
    have "(k, w) \<in> set (AList.delete ?u kvs) \<longleftrightarrow> unat w \<noteq> a \<and> (\<exists>f. fs_entries st (unat w) = Some f \<and> ce_uri f = k)" for k w
    proof -
      have w: "w = ?w" if "(k, w) \<in> set kvs" "k = ?u"
        using map_of_is_SomeI [OF d that(1)] m that(2) by (simp del: Some_eq_map_of_iff map_of_eq_Some_iff)
      have "k = ?u \<longleftrightarrow> unat w = a" if kw: "(k, w) \<in> set kvs"
      proof
        assume "k = ?u"
        then show "unat w = a" using w [OF kw] u(1) by simp
      next
        assume "unat w = a"
        then show "k = ?u" using kvs(4) [of k w] kw assms(2) by simp
      qed
      then show ?thesis using kvs(4) [of k w] by (auto simp: AList.delete_eq)
    qed
    moreover have "length (AList.delete ?u kvs) \<le> fs_next st" using length_delete_le [of ?u kvs] kvs(2) by simp
    ultimately show ?thesis using t(2,3) kvs(3) unfolding table_inv_def by auto
  qed
  ultimately show ?thesis using F(2,3) by (auto simp: file_inv_def)
qed

lemma table_shorter:
  assumes "table_rel hash t kvs" and "0 < n" and "\<And>k w. (k, w) \<in> set kvs \<Longrightarrow> 0 < unat w" and "\<And>k w. (k, w) \<in> set kvs \<Longrightarrow> unat w < n"
    and "\<And>k k' w. (k, w) \<in> set kvs \<Longrightarrow> (k', w) \<in> set kvs \<Longrightarrow> k = k'"
  shows "length kvs < n"
proof -
  have "inj_on (unat \<circ> snd) (set kvs)" using assms(5) by (auto simp: inj_on_def word_unat_eq_iff [symmetric])
  moreover have "(unat \<circ> snd) ` set kvs \<subseteq> {0 <..< n}" using assms(3,4) by fastforce
  ultimately have "card (set kvs) \<le> card {0 <..< n}" using card_inj_on_le by blast
  moreover have "card (set kvs) = length kvs"
    using table_distinct [OF assms(1)] by (metis distinct_card distinct_map)
  ultimately show ?thesis using assms(2) by simp
qed

lemma try_set_inv:
  assumes "file_inv st held {a}" and "fs_entries st a = Some e" and "fs_next st < 2 ^ 60"
    and "\<And>b f. fs_entries st b = Some f \<Longrightarrow> b \<noteq> a \<Longrightarrow> ce_uri f \<noteq> ce_uri e"
  shows "\<exists>cache. if fs_cache_space st < of_nat (ce_size e)
    then uo_http_file_server_try_set_cache_entry st a = Some (Inr (False, st\<lparr> fs_cache := cache \<rparr>))
      \<and> file_inv (st\<lparr> fs_cache := cache \<rparr>) held {a}
    else uo_http_file_server_try_set_cache_entry st a = Some (Inr (True,
        st\<lparr> fs_cache := cache, fs_cache_space := fs_cache_space st - of_nat (ce_size e) \<rparr>))
      \<and> file_inv (st\<lparr> fs_cache := cache, fs_cache_space := fs_cache_space st - of_nat (ce_size e) \<rparr>) held {}"
proof -
  note F = file_invD [OF assms(1)] and E = entries_invD [OF file_invD(2) [OF assms(1)]]
  obtain kvs where kvs: "table_rel uo_strhash_djb2 (fs_cache st) kvs" "length kvs \<le> fs_next st"
    "ht_capacity (fs_cache st) \<le> 16 + 4 * fs_next st"
    "\<And>k w. (k, w) \<in> set kvs \<longleftrightarrow> unat w \<noteq> a \<and> (\<exists>e. fs_entries st (unat w) = Some e \<and> ce_uri e = k)"
    using F(1) by (auto simp: table_inv_def)
  let ?u = "ce_uri e" and ?w = "of_nat a :: 64 word"
  have u: "unat ?w = a" using E(3) [OF assms(2)] assms(3) by (intro unat_of_nat_64) simp
  have fresh: "?u \<notin> fst ` set kvs" using kvs(4) assms(4) by fastforce
  then have "map_of kvs ?u = None" "AList.delete ?u kvs = kvs"
    by (auto simp: map_of_eq_None_iff AList.delete_eq filter_id_conv image_iff split_beta)
  then obtain t where t: "uo_strhashtbl_remove (fs_cache st) (Some ?u) = Some (Inr (0, t))"
    "table_rel uo_strhash_djb2 t kvs" "ht_capacity t = ht_capacity (fs_cache st)"
    using table_rel_remove [OF kvs(1), of ?u] by (auto simp: uo_strhashtbl_remove_def)
  have rm: "table_inv (st\<lparr> fs_cache := t \<rparr>) {a}" using t(2,3) kvs(2-4) by (auto simp: table_inv_def)
  have tag: "?w \<noteq> UO_HASHTBL_TAG_REMOVED"
  proof
    assume "?w = UO_HASHTBL_TAG_REMOVED"
    then have "(of_nat (a + 1) :: 64 word) = 0" by (simp add: UO_HASHTBL_TAG_REMOVED_def eq_neg_iff_add_eq_0 add.commute)
    moreover have "unat (of_nat (a + 1) :: 64 word) = a + 1"
      using E(3) [OF assms(2)] assms(3) by (intro unat_of_nat_64) simp
    ultimately show False by simp
  qed
  have "ht_capacity t < 2 ^ 63" using t(3) kvs(3) assms(3) by simp
  then obtain t2 where t2: "uo_strhashtbl_set t (Some ?u) ?w = Some (Inr t2)"
    "table_rel uo_strhash_djb2 t2 (AList.update ?u ?w kvs)" "ht_capacity t2 \<le> max (ht_capacity t) (4 * (length kvs + 1))"
    using table_rel_set [OF t(2) tag] by (auto simp: uo_strhashtbl_set_def)
  note upd = update_absent [OF fresh]
  have "table_inv (st\<lparr> fs_cache := t2 \<rparr>) {}"
  proof -
    have "(k, w) \<in> set (kvs @ [(?u, ?w)]) \<longleftrightarrow> (\<exists>f. fs_entries st (unat w) = Some f \<and> ce_uri f = k)" for k w
    proof -
      have "unat w = a \<longleftrightarrow> w = ?w" using u by (metis unat_eq_nat_uint word_unat_eq_iff)
      then show ?thesis using kvs(4) [of k w] assms(2) u by (cases "unat w = a") auto
    qed
    moreover have "length kvs < fs_next st"
    proof (rule table_shorter [OF kvs(1) E(1)])
      fix k k' w
      assume "(k, w) \<in> set kvs" "(k', w) \<in> set kvs"
      then show "k = k'" unfolding kvs(4) by auto
    qed (use kvs(4) E(2,3) in blast)+
    ultimately show ?thesis using t2(2,3) t(3) kvs(3) upd unfolding table_inv_def
      by (intro exI [of _ "kvs @ [(?u, ?w)]"]) auto
  qed
  moreover have "uo_http_file_server_try_set_cache_entry st a = (if fs_cache_space st < of_nat (ce_size e)
      then Some (Inr (False, st\<lparr> fs_cache := t \<rparr>))
      else Some (Inr (True, st\<lparr> fs_cache := t2, fs_cache_space := fs_cache_space st - of_nat (ce_size e) \<rparr>)))"
    using t(1) t2(1) assms(2) by (simp add: uo_http_file_server_try_set_cache_entry_def entry_at_def)
  ultimately show ?thesis using rm F(2,3) by (auto simp: file_inv_def)
qed

text \<open>An entry that is read again: its content is a new block.\<close>

definition refreshed :: "uo_http_file_server \<Rightarrow> nat \<Rightarrow> uo_http_file_cache_entry \<Rightarrow> stat_t \<Rightarrow> char option list \<Rightarrow> uo_http_file_server" where
  "refreshed st a e sb blk = st\<lparr> fs_contents := (dropped st (ce_content_ref e))(fs_next st \<mapsto> (blk, 1)),
     fs_entries := (fs_entries st)(a \<mapsto> e\<lparr> ce_mtime := st_mtime sb, ce_size := st_size sb, ce_content_ref := fs_next st \<rparr>),
     fs_next := fs_next st + 1 \<rparr>"

lemma refresh_eq:
  assumes "fs_entries st a = Some e" and "fs_contents st (ce_content_ref e) \<noteq> None"
  shows "uo_http_file_cache_entry_try_refresh fs st a sb = (case fs_fopen fs (ce_filename e) of
       None \<Rightarrow> Inr (False, st)
     | Some bytes \<Rightarrow>
         if st_size sb \<le> length bytes then Inr (True, refreshed st a e sb (block (take (st_size sb) bytes)))
         else Inr (False, refreshed st a e sb (map Some bytes @ replicate (st_size sb + 1 - length bytes) None)))"
  using assms
  by (cases st) (auto simp: uo_http_file_cache_entry_try_refresh_def entry_at_def content_dec_eq content_create_def refreshed_def
      dropped_def Let_def split: option.splits)

lemma refreshed_inv:
  assumes "file_inv st held {}" and "fs_entries st a = Some e"
  shows "file_inv (refreshed st a e sb blk) held {}"
proof -
  note F = file_invD [OF assms(1)] and E = entries_invD [OF file_invD(2) [OF assms(1)]]
  let ?st = "refreshed st a e sb blk" and ?r = "ce_content_ref e" and ?n = "fs_next st"
  define e' where "e' = e\<lparr> ce_mtime := st_mtime sb, ce_size := st_size sb, ce_content_ref := ?n \<rparr>"
  have e': "ce_content_ref e' = ?n" "ce_uri e' = ce_uri e" by (simp_all add: e'_def)
  have ent: "fs_entries ?st c = (if c = a then Some e' else fs_entries st c)" for c by (simp add: refreshed_def e'_def)
  have cont: "fs_contents ?st q = (if q = ?n then Some (blk, 1) else dropped st ?r q)" for q by (simp add: refreshed_def)
  have st: "fs_cache ?st = fs_cache st" "fs_next ?st = Suc ?n" by (simp_all add: refreshed_def)
  obtain b where b: "fs_contents st ?r = Some (b, Suc (held ?r))" using entry_content [OF F(3) assms(2)] .
  note below = ref_below [OF F(3)] and unused = next_unused [OF F(3)]
  have i: "in_entry ?st q \<longleftrightarrow> (if q = ?n then True else in_entry st q \<and> q \<noteq> ?r)" for q
    unfolding in_entry_def ent using e'(1) other_ref [OF F(2) assms(2)] by (metis option.inject)
  have "table_inv ?st {}"
    using F(1) assms(2) e'(2) unfolding table_inv_def ent st by (auto simp: le_SucI)
  moreover have "entries_inv ?st"
  proof -
    have "c = d" if "fs_entries ?st c = Some f" "fs_entries ?st d = Some g" "ce_content_ref f = ce_content_ref g" for c d f g
      using that E(4) below e'(1) unfolding ent by (metis less_irrefl option.inject)
    moreover have "0 < c \<and> c < Suc ?n" if "fs_entries ?st c = Some f" for c f
      using that E(2,3) assms(2) unfolding ent by (metis less_SucI)
    ultimately show ?thesis unfolding entries_inv_def st by blast
  qed
  moreover have "counts_inv ?st held"
  proof -
    have "counted (fs_contents ?st q) (held q + of_bool (in_entry ?st q))" for q
    proof (cases "q = ?r")
      case True
      then show ?thesis using counted_dropped [of st ?r "held ?r"] b below [OF assms(2)] unfolding cont i by simp
    next
      case False
      then show ?thesis using counts_invD(1) [OF F(3), of q] unused unfolding cont i by (simp add: dropped_other)
    qed
    moreover have "fs_contents ?st q = None" if "fs_next ?st \<le> q" for q
      using counts_invD(2) [OF F(3), of q] that unfolding cont st by (auto simp: dropped_def)
    ultimately show ?thesis unfolding counts_inv_def by blast
  qed
  ultimately show ?thesis by (simp add: file_inv_def)
qed

text \<open>A response is given up: its references to contents are taken back.\<close>

lemma release_step:
  assumes "file_inv st held loose" and "held r = Suc k"
  shows "content_dec st r = Inr (st\<lparr> fs_contents := dropped st r \<rparr>)"
    and "file_inv (st\<lparr> fs_contents := dropped st r \<rparr>) (held(r := k)) loose"
proof -
  note F = file_invD [OF assms(1)]
  let ?st = "st\<lparr> fs_contents := dropped st r \<rparr>"
  note C = counts_invD(1) [OF F(3)]
  have "fs_contents st r \<noteq> None" using C [of r] assms(2) by (auto dest: counted_cases)
  then show "content_dec st r = Inr ?st" by (rule content_dec_eq)
  have "counted (dropped st r q) ((held(r := k)) q + of_bool (in_entry st q))" for q
    using C [of q] counted_dropped [of st r "k + of_bool (in_entry st r)"] assms(2) by (cases "q = r") (simp_all add: dropped_other)
  moreover have "dropped st r q = None" if "fs_next st \<le> q" for q
    using counts_invD(2) [OF F(3) that] by (auto simp: dropped_def)
  ultimately have "counts_inv ?st (held(r := k))" unfolding counts_inv_def by simp
  then show "file_inv ?st (held(r := k)) loose" using F(1,2) by (simp add: file_inv_def)
qed

lemma release_inv:
  assumes "file_inv st (\<lambda>r. held r + shares refs r) loose"
  shows "file_inv (release_refs st refs) held loose \<and> fs_entries (release_refs st refs) = fs_entries st
    \<and> fs_cache (release_refs st refs) = fs_cache st \<and> fs_dirname (release_refs st refs) = fs_dirname st
    \<and> fs_cache_space (release_refs st refs) = fs_cache_space st \<and> fs_next (release_refs st refs) = fs_next st
    \<and> (\<forall>r. in_entry st r \<longrightarrow> map_option fst (fs_contents (release_refs st refs) r) = map_option fst (fs_contents st r))"
  using assms
proof (induction refs arbitrary: st)
  case Nil
  then show ?case by simp
next
  case (Cons x refs)
  show ?case
  proof (cases x)
    case (Block b)
    with Cons show ?thesis by simp
  next
    case (Shared q)
    let ?h = "\<lambda>r. held r + shares (x # refs) r" and ?k = "held q + shares refs q" and ?st = "st\<lparr> fs_contents := dropped st q \<rparr>"
    have s: "content_dec st q = Inr ?st" "file_inv ?st (?h(q := ?k)) loose"
      using release_step [OF Cons.prems, of q ?k] Shared by simp_all
    moreover have "?h(q := ?k) = (\<lambda>r. held r + shares refs r)" using Shared by (simp add: fun_eq_iff)
    moreover have "map_option fst (dropped st q r) = map_option fst (fs_contents st r)" if "in_entry st r" for r
    proof (cases "r = q")
      case True
      then have "counted (fs_contents st q) (Suc (Suc ?k))"
        using counts_invD(1) [OF file_invD(3) [OF Cons.prems], of q] Shared that by simp
      then obtain b where "fs_contents st q = Some (b, Suc (Suc ?k))" using counted_cases by blast
      then show ?thesis using True by (simp add: dropped_def)
    qed (simp add: dropped_def)
    moreover have "release_refs st (x # refs) = release_refs ?st refs" using s(1) Shared by simp
    ultimately show ?thesis using Cons.IH [of ?st] by simp
  qed
qed

section \<open>Serving\<close>

text \<open>
  The cache is coherent with states of the file system when the entry of every target has the
  name and the type of its file, and the content that the file has in each of the states in
  which its modification time is that of the entry.
\<close>

definition entry_ok :: "file_system set \<Rightarrow> uo_http_file_server \<Rightarrow> uo_http_file_cache_entry \<Rightarrow> bool" where
  "entry_ok FS st e \<longleftrightarrow> request_filename (fs_dirname st) (ce_uri e) = Some (Inr (ce_filename e))
     \<and> ce_filetype e = filetype_of (ce_filename e)
     \<and> (\<exists>c. map_option fst (fs_contents st (ce_content_ref e)) = Some (block c) \<and> length c = ce_size e \<and> length c < 2 ^ 61
          \<and> (\<forall>fs \<in> FS. \<forall>sb. fs_stat fs (ce_filename e) = Some sb \<longrightarrow> st_mtime sb = ce_mtime e
               \<longrightarrow> file_now fs (ce_filename e) = Some c))"

definition coherent :: "file_system set \<Rightarrow> uo_http_file_server \<Rightarrow> bool" where
  "coherent FS st \<longleftrightarrow> (\<forall>a e. fs_entries st a = Some e \<longrightarrow> entry_ok FS st e)"

text \<open>Files are of a size below \<open>2 ^ 61\<close>, and only regular files can be read completely.\<close>

definition fs_ok :: "file_system \<Rightarrow> bool" where
  "fs_ok fs \<longleftrightarrow> (\<forall>f sb. fs_stat fs f = Some sb \<longrightarrow> st_size sb < 2 ^ 61
     \<and> (\<forall>bytes. st_mode sb \<noteq> S_IFREG \<longrightarrow> fs_fopen fs f = Some bytes \<longrightarrow> length bytes < st_size sb))"

text \<open>A file is the same in two states of the file system when its modification time is the same.\<close>

definition agrees :: "file_system \<Rightarrow> file_system \<Rightarrow> bool" where
  "agrees fs fs' \<longleftrightarrow> (\<forall>f sb sb'. fs_stat fs f = Some sb \<longrightarrow> fs_stat fs' f = Some sb' \<longrightarrow> st_mtime sb' = st_mtime sb
     \<longrightarrow> file_now fs' f = file_now fs f)"

text \<open>The specification: the answer for a file is its present content, or that there is none.\<close>

definition file_reply :: "file_system \<Rightarrow> string \<Rightarrow> string" where
  "file_reply fs filename = (case file_now fs filename of
       None \<Rightarrow> response_text ''404 Not Found'' ''text/plain'' ''404 Not Found''
     | Some content \<Rightarrow> response_text ''200 OK'' (filetype_of filename) content)"

abbreviation fresh_res :: uo_http_msg where
  "fresh_res \<equiv> uo_http_msg_create_at UO_HTTP_MSG_TYPE_RESPONSE UO_HTTP_MSG_ROLE_SEND"

lemma filetype_length: "length (filetype_of f) < 2 ^ 20"
  by (simp add: filetype_of_def Let_def split: option.split)

lemma entry_ok_cong:
  assumes "fs_dirname st' = fs_dirname st"
    and "map_option fst (fs_contents st' (ce_content_ref e)) = map_option fst (fs_contents st (ce_content_ref e))"
  shows "entry_ok FS st' e = entry_ok FS st e"
  using assms by (simp add: entry_ok_def)

lemma not_found_reply:
  "\<exists>res. not_found fresh_res = Some (Inr res) \<and> shares (hm_refstack res) = (\<lambda>r. 0)
     \<and> reply_ok res (response_text ''404 Not Found'' ''text/plain'' ''404 Not Found'')"
proof -
  have s: "map_of status_strs UO_HTTP_404 = Some ''404 Not Found''" by code_simp
  obtain m res where "uo_http_res_set_status_line fresh_res UO_HTTP_404 UO_HTTP_VER_1_1 = Inr (True, m)"
    "uo_http_msg_set_content m ''404 Not Found'' ''text/plain'' (length ''404 Not Found'') = Some (Inr res)"
    "reply_ok res (response_text ''404 Not Found'' ''text/plain'' ''404 Not Found'')" "shares (hm_refstack res) = (\<lambda>r. 0)"
    using respond_content [OF s, of "''404 Not Found''" "''text/plain''"] by auto
  then show ?thesis by (simp add: not_found_def)
qed

lemma respond_inv:
  assumes "file_inv st held loose" and "fs_contents st (ce_content_ref e) = Some (block c, n)" and "length c = ce_size e"
    and "length c < 2 ^ 61" and "ce_filetype e = filetype_of f"
  shows "\<exists>res K. respond_entry st e fresh_res = Some (Inr (res, st\<lparr> fs_contents := K \<rparr>))
    \<and> reply_ok res (response_text ''200 OK'' (filetype_of f) c)
    \<and> file_inv (st\<lparr> fs_contents := K \<rparr>) (\<lambda>r. held r + shares (hm_refstack res) r) loose
    \<and> (\<forall>r. map_option fst (K r) = map_option fst (fs_contents st r))"
proof -
  let ?r = "ce_content_ref e"
  have s: "map_of status_strs UO_HTTP_200 = Some ''200 OK''" by code_simp
  obtain m res where m: "uo_http_res_set_status_line fresh_res UO_HTTP_200 UO_HTTP_VER_1_1 = Inr (True, m)"
    "uo_http_msg_set_content_ref m ?r c (ce_filetype e) (length c) = Some (Inr res)"
    "reply_ok res (response_text ''200 OK'' (filetype_of f) c)" "shares (hm_refstack res) = (\<lambda>q. if q = ?r \<and> c \<noteq> [] then 1 else 0)"
    using respond_content_ref [OF s assms(4), of "ce_filetype e" ?r] filetype_length [of f] assms(5) by auto
  have blk: "take (ce_size e) (block c) = map Some c" "\<not> length (block c) < ce_size e" using assms(3) by simp_all
  note R = respond_entry_def assms(2,3) m(1) m(2) [unfolded assms(3)] blk
  show ?thesis
  proof (cases "c = []")
    case True
    have "respond_entry st e fresh_res = Some (Inr (res, st\<lparr> fs_contents := fs_contents st \<rparr>))"
      using True assms(3) m(2) by (simp add: R comp_def)
    moreover have "(\<lambda>r. held r + shares (hm_refstack res) r) = held" using m(4) True by (simp add: fun_eq_iff)
    ultimately show ?thesis using m(3) assms(1) by (intro exI [of _ res] exI [of _ "fs_contents st"]) simp
  next
    case False
    note I = content_inc_inv [OF assms(1,2)]
    have nz: "ce_size e \<noteq> 0" using False assms(3) by (metis length_0_conv)
    let ?K = "(fs_contents st)(?r \<mapsto> (block c, n + 1))"
    have "respond_entry st e fresh_res = Some (Inr (res, st\<lparr> fs_contents := ?K \<rparr>))"
      using nz I(1) by (simp add: R comp_def)
    moreover have "(\<lambda>r. held r + shares (hm_refstack res) r) = held(?r := held ?r + 1)" using m(4) False by (simp add: fun_eq_iff)
    ultimately show ?thesis using m(3) I(2) assms(2) by (intro exI [of _ res] exI [of _ ?K]) simp
  qed
qed

text \<open>
  The accounting of the cache: the room that is left and the sizes of the entries add up to the
  limit. It relies on files that do not change their size, since an entry that is read again
  with another size is not accounted for.
\<close>

definition cached_size :: "uo_http_file_server \<Rightarrow> nat" where
  "cached_size st = (\<Sum>a < fs_next st. case fs_entries st a of None \<Rightarrow> 0 | Some e \<Rightarrow> ce_size e)"

definition same_size :: "file_system \<Rightarrow> file_system \<Rightarrow> bool" where
  "same_size fs fs' \<longleftrightarrow> (\<forall>f sb sb'. fs_stat fs f = Some sb \<longrightarrow> fs_stat fs' f = Some sb' \<longrightarrow> st_size sb' = st_size sb)"

definition accounted :: "file_system set \<Rightarrow> nat \<Rightarrow> uo_http_file_server \<Rightarrow> bool" where
  "accounted FS limit st \<longleftrightarrow> limit < 2 ^ 64 \<and> unat (fs_cache_space st) + cached_size st = limit
     \<and> (\<forall>a e. fs_entries st a = Some e \<longrightarrow> (\<forall>fs \<in> FS. \<forall>sb. fs_stat fs (ce_filename e) = Some sb \<longrightarrow> st_size sb = ce_size e))"

definition keeps_account :: "file_system set \<Rightarrow> file_system \<Rightarrow> uo_http_file_server \<Rightarrow> uo_http_file_server \<Rightarrow> bool" where
  "keeps_account FS fs st st' \<longleftrightarrow> (\<forall>limit. accounted FS limit st \<longrightarrow> (\<forall>fs' \<in> FS. same_size fs fs') \<longrightarrow> accounted FS limit st')"

lemma keeps_account_refl: "keeps_account FS fs st st"
  by (simp add: keeps_account_def)

lemma keeps_account_trans: "keeps_account FS fs st st' \<Longrightarrow> keeps_account FS fs st' st'' \<Longrightarrow> keeps_account FS fs st st''"
  by (simp add: keeps_account_def)

lemma keeps_account_contents:
  "keeps_account FS fs st st' \<Longrightarrow> keeps_account FS fs st (st'\<lparr> fs_contents := K \<rparr>)"
  by (simp add: keeps_account_def accounted_def cached_size_def)

text \<open>How the total changes when one entry does.\<close>

lemma cached_size_upd:
  assumes "a < fs_next st"
  shows "cached_size (st\<lparr> fs_entries := (fs_entries st)(a := x) \<rparr>) + (case fs_entries st a of None \<Rightarrow> 0 | Some e \<Rightarrow> ce_size e)
    = cached_size st + (case x of None \<Rightarrow> 0 | Some e \<Rightarrow> ce_size e)"
proof -
  let ?g = "\<lambda>m a. case m a of None \<Rightarrow> 0 | Some e \<Rightarrow> ce_size e" and ?m = "(fs_entries st)(a := x)"
  have a: "a \<in> {..<fs_next st}" using assms by simp
  have "(\<Sum>b < fs_next st. ?g ?m b) = ?g ?m a + (\<Sum>b \<in> {..<fs_next st} - {a}. ?g ?m b)"
    by (rule sum.remove [OF _ a]) simp
  moreover have "(\<Sum>b < fs_next st. ?g (fs_entries st) b) = ?g (fs_entries st) a + (\<Sum>b \<in> {..<fs_next st} - {a}. ?g (fs_entries st) b)"
    by (rule sum.remove [OF _ a]) simp
  moreover have "(\<Sum>b \<in> {..<fs_next st} - {a}. ?g ?m b) = (\<Sum>b \<in> {..<fs_next st} - {a}. ?g (fs_entries st) b)"
    by (rule sum.cong) simp_all
  ultimately show ?thesis by (simp add: cached_size_def)
qed

lemma cached_size_cong:
  assumes "fs_entries st' = fs_entries st" and "fs_next st' = fs_next st"
  shows "cached_size st' = cached_size st"
  using assms by (simp add: cached_size_def)

lemma removed_account:
  assumes "file_inv st held {}" and "fs_entries st a = Some e"
  shows "keeps_account FS fs st (st\<lparr> fs_cache := cache, fs_cache_space := fs_cache_space st + of_nat (ce_size e),
    fs_contents := K, fs_entries := (fs_entries st)(a := None) \<rparr>)" (is "keeps_account _ _ _ ?st")
proof -
  have a: "a < fs_next st" using entries_invD(3) [OF file_invD(2) [OF assms(1)] assms(2)] .
  have c: "cached_size ?st + ce_size e = cached_size st"
    using cached_size_upd [OF a, of None] assms(2) cached_size_cong [of ?st "st\<lparr> fs_entries := (fs_entries st)(a := None) \<rparr>"] by simp
  have "unat (fs_cache_space st + of_nat (ce_size e)) = unat (fs_cache_space st) + ce_size e"
    if "unat (fs_cache_space st) + cached_size st < 2 ^ 64"
    using that c by (subst unat_word_ariths) (simp add: unat_of_nat_64)
  then show ?thesis using c unfolding keeps_account_def accounted_def by (auto split: if_splits)
qed

lemma refreshed_account:
  assumes "file_inv st held {}" and "fs_entries st a = Some e" and "fs_stat fs (ce_filename e) = Some sb" and "fs \<in> FS"
  shows "keeps_account FS fs st (refreshed st a e sb blk)"
proof -
  note E = entries_invD(3) [OF file_invD(2) [OF assms(1)]]
  let ?e = "e\<lparr> ce_mtime := st_mtime sb, ce_size := st_size sb, ce_content_ref := fs_next st \<rparr>"
  have "cached_size (refreshed st a e sb blk) = cached_size (st\<lparr> fs_entries := (fs_entries st)(a \<mapsto> ?e) \<rparr>)"
    using E [OF assms(2)] E [of "fs_next st"] by (cases "fs_entries st (fs_next st)") (auto simp: cached_size_def refreshed_def)
  then have "cached_size (refreshed st a e sb blk) + ce_size e = cached_size st + st_size sb"
    using cached_size_upd [OF E [OF assms(2)], of "Some ?e"] assms(2) by simp
  then show ?thesis using assms(2-4) unfolding keeps_account_def accounted_def
    by (auto simp: refreshed_def split: if_splits)
qed

lemma unused_account:
  assumes "file_inv st held {}" and "fs_entries st' = fs_entries st" and "fs_next st' = fs_next st + 2"
    and "fs_cache_space st' = fs_cache_space st"
  shows "keeps_account FS fs st st'"
proof -
  have "fs_entries st a = None" if "fs_next st \<le> a" for a
    using entries_invD(3) [OF file_invD(2) [OF assms(1)], of a] that by (cases "fs_entries st a") auto
  then have "cached_size st' = cached_size st" using assms(2,3) by (simp add: cached_size_def)
  then show ?thesis using assms(2,4) by (simp add: keeps_account_def accounted_def)
qed

lemma added_account:
  assumes "file_inv st held {}" and "fs_entries st' = (fs_entries st)(fs_next st + 1 \<mapsto> e)" and "fs_next st' = fs_next st + 2"
    and "fs_cache_space st' = fs_cache_space st - of_nat (ce_size e)" and "\<not> fs_cache_space st < of_nat (ce_size e)"
    and "ce_size e < 2 ^ 64" and "fs_stat fs (ce_filename e) = Some sb" and "st_size sb = ce_size e"
  shows "keeps_account FS fs st st'"
proof -
  have "fs_entries st a = None" if "fs_next st \<le> a" for a
    using entries_invD(3) [OF file_invD(2) [OF assms(1)], of a] that by (cases "fs_entries st a") auto
  then have c: "cached_size st' = cached_size st + ce_size e" using assms(2,3) by (simp add: cached_size_def)
  have s: "unat (fs_cache_space st) = unat (fs_cache_space st') + ce_size e"
    using assms(4-6) by (simp add: unat_sub unat_of_nat_64 word_less_nat_alt not_less word_le_nat_alt)
  show ?thesis using assms(2,7,8) c s unfolding keeps_account_def accounted_def same_size_def by (auto split: if_splits)
qed

text \<open>The outcome of a request: the answer is right, and the invariant and the coherence are kept.\<close>

definition serves :: "file_system set \<Rightarrow> file_system \<Rightarrow> uo_http_file_server \<Rightarrow> (nat \<Rightarrow> nat) \<Rightarrow> string \<Rightarrow> (uo_http_msg \<times> uo_http_file_server) run \<Rightarrow> bool" where
  "serves FS fs st held filename r \<longleftrightarrow> (\<exists>res st'. r = Some (Inr (res, st')) \<and> reply_ok res (file_reply fs filename)
     \<and> file_inv st' (\<lambda>r. held r + shares (hm_refstack res) r) {} \<and> coherent FS st'
     \<and> fs_dirname st' = fs_dirname st \<and> fs_next st' \<le> fs_next st + 2 \<and> keeps_account FS fs st st')"

text \<open>An entry whose file is gone is removed; \<open>st\<close> may have read it again in vain before.\<close>

lemma serve_gone:
  assumes "file_inv st held {}" and "fs_entries st a = Some e" and "fs_next st \<le> 2 ^ 64" and "file_now fs filename = None"
    and "\<And>b f. fs_entries st b = Some f \<Longrightarrow> b \<noteq> a \<Longrightarrow> entry_ok FS st f"
    and "fs_dirname st = fs_dirname st0" and "fs_next st \<le> fs_next st0 + 2" and "keeps_account FS fs st0 st"
  shows "serves FS fs st0 held filename
    (run_bind (uo_http_file_server_remove_cache_entry st (ce_uri e)) (\<lambda>(_, st).
     run_bind (Some (uo_http_file_cache_entry_destroy st a)) (\<lambda>st.
     run_bind (not_found fresh_res) (\<lambda>http_res. Some (Inr (http_res, st))))))"
proof -
  obtain cache where r: "uo_http_file_server_remove_cache_entry st (ce_uri e)
      = Some (Inr (a, st\<lparr> fs_cache := cache, fs_cache_space := fs_cache_space st + of_nat (ce_size e) \<rparr>))"
    "file_inv (st\<lparr> fs_cache := cache, fs_cache_space := fs_cache_space st + of_nat (ce_size e) \<rparr>) held {a}"
    using remove_inv [OF assms(1-3)] by blast
  let ?st1 = "st\<lparr> fs_cache := cache, fs_cache_space := fs_cache_space st + of_nat (ce_size e) \<rparr>"
  let ?st2 = "?st1\<lparr> fs_contents := dropped ?st1 (ce_content_ref e), fs_entries := (fs_entries ?st1)(a := None) \<rparr>"
  have d: "uo_http_file_cache_entry_destroy ?st1 a = Inr ?st2" "file_inv ?st2 held {}"
    using destroy_inv [OF r(2)] assms(2) by simp_all
  obtain res where res: "not_found fresh_res = Some (Inr res)" "shares (hm_refstack res) = (\<lambda>r. 0)"
    "reply_ok res (file_reply fs filename)" using not_found_reply assms(4) by (auto simp: file_reply_def)
  have "entry_ok FS ?st2 f" if "fs_entries ?st2 b = Some f" for b f
  proof -
    have b: "b \<noteq> a" "fs_entries st b = Some f" using that by (auto split: if_splits)
    then have "ce_content_ref f \<noteq> ce_content_ref e" using other_ref [OF file_invD(2) [OF assms(1)] assms(2)] by blast
    then show ?thesis using assms(5) [OF b(2,1)] entry_ok_cong [of ?st2 st f FS] by (simp add: dropped_def)
  qed
  moreover have "keeps_account FS fs st0 ?st2"
    using keeps_account_trans [OF assms(8) removed_account [OF assms(1,2)]] by simp
  ultimately show ?thesis using r(1) d res assms(6,7) unfolding serves_def coherent_def by simp
qed

text \<open>An entry with the present content of its file answers the request.\<close>

lemma serve_valid:
  assumes "file_inv st held {}" and "fs_entries st a = Some e" and "coherent FS st" and "ce_filename e = filename"
    and "map_option fst (fs_contents st (ce_content_ref e)) = Some (block c)" and "file_now fs filename = Some c"
    and "fs_dirname st = fs_dirname st0" and "fs_next st \<le> fs_next st0 + 2" and "keeps_account FS fs st0 st"
  shows "serves FS fs st0 held filename (respond_entry st e fresh_res)"
proof -
  have "entry_ok FS st e" using assms(2,3) by (simp add: coherent_def)
  then have ok: "ce_filetype e = filetype_of filename" "length c = ce_size e" "length c < 2 ^ 61"
    using assms(4,5) by (auto simp: entry_ok_def inj_map_eq_map)
  obtain n where n: "fs_contents st (ce_content_ref e) = Some (block c, n)" using assms(5) by auto
  obtain res K where r: "respond_entry st e fresh_res = Some (Inr (res, st\<lparr> fs_contents := K \<rparr>))"
    "reply_ok res (response_text ''200 OK'' (filetype_of filename) c)"
    "file_inv (st\<lparr> fs_contents := K \<rparr>) (\<lambda>r. held r + shares (hm_refstack res) r) {}"
    "\<forall>r. map_option fst (K r) = map_option fst (fs_contents st r)"
    using respond_inv [OF assms(1) n ok(2,3,1)] by blast
  have "coherent FS (st\<lparr> fs_contents := K \<rparr>)" using assms(3) r(4) by (simp add: coherent_def entry_ok_def)
  then show ?thesis using r(1-3) assms(6-9) keeps_account_contents [of FS fs st0 st K] by (simp add: serves_def file_reply_def)
qed

lemma refreshed_others:
  assumes "file_inv st held {}" and "coherent FS st" and "fs_entries st a = Some e"
    and "fs_entries (refreshed st a e sb blk) b = Some f" and "b \<noteq> a"
  shows "entry_ok FS (refreshed st a e sb blk) f"
proof -
  note F = file_invD [OF assms(1)]
  have b: "fs_entries st b = Some f" using assms(4,5) by (simp add: refreshed_def)
  then have "ce_content_ref f \<noteq> ce_content_ref e" "ce_content_ref f \<noteq> fs_next st"
    using other_ref [OF F(2) assms(3)] assms(5) ref_below [OF F(3)] by fastforce+
  then show ?thesis using assms(2) b entry_ok_cong [of "refreshed st a e sb blk" st f FS]
    by (simp add: coherent_def refreshed_def dropped_def)
qed

lemma serve_cached:
  assumes "file_inv st held {}" and "coherent FS st" and "fs_ok fs" and "fs_next st < 2 ^ 60"
    and "fs_entries st a = Some e" and "fs \<in> FS" and "\<forall>fs' \<in> FS. agrees fs fs'"
  shows "serves FS fs st held (ce_filename e)
    (run_bind (case fs_stat fs (ce_filename e) of
                 None \<Rightarrow> Some (Inr (False, st))
               | Some sb \<Rightarrow>
                   if st_mtime sb \<noteq> ce_mtime e then Some (uo_http_file_cache_entry_try_refresh fs st a sb)
                   else Some (Inr (True, st))) (\<lambda>(valid, st).
     if \<not> valid
     then run_bind (uo_http_file_server_remove_cache_entry st (ce_uri e)) (\<lambda>(_, st).
          run_bind (Some (uo_http_file_cache_entry_destroy st a)) (\<lambda>st.
          run_bind (not_found fresh_res) (\<lambda>http_res. Some (Inr (http_res, st)))))
     else run_bind (Some (entry_at st a)) (\<lambda>e. respond_entry st e fresh_res)))"
proof -
  let ?f = "ce_filename e"
  note F = file_invD [OF assms(1)]
  have ok: "\<And>b f. fs_entries st b = Some f \<Longrightarrow> entry_ok FS st f" using assms(2) by (simp add: coherent_def)
  obtain c where c: "map_option fst (fs_contents st (ce_content_ref e)) = Some (block c)"
    "\<And>sb. fs_stat fs ?f = Some sb \<Longrightarrow> st_mtime sb = ce_mtime e \<Longrightarrow> file_now fs ?f = Some c"
    using ok [OF assms(5)] assms(6) by (auto simp: entry_ok_def)
  have cont: "fs_contents st (ce_content_ref e) \<noteq> None" using c(1) by auto
  consider "fs_stat fs ?f = None" | sb where "fs_stat fs ?f = Some sb" "st_mtime sb = ce_mtime e"
    | sb where "fs_stat fs ?f = Some sb" "st_mtime sb \<noteq> ce_mtime e" "fs_fopen fs ?f = None"
    | sb bytes where "fs_stat fs ?f = Some sb" "st_mtime sb \<noteq> ce_mtime e" "fs_fopen fs ?f = Some bytes" "st_size sb \<le> length bytes"
    | sb bytes where "fs_stat fs ?f = Some sb" "st_mtime sb \<noteq> ce_mtime e" "fs_fopen fs ?f = Some bytes" "\<not> st_size sb \<le> length bytes"
    by (cases "fs_stat fs ?f"; cases "fs_fopen fs ?f") blast+
  then show ?thesis
  proof cases
    case 1
    have "file_now fs ?f = None" using 1 by (simp add: file_now_def)
    from serve_gone [OF assms(1,5) _ this ok refl _ keeps_account_refl] show ?thesis using 1 assms(4) by simp
  next
    case 2
    from serve_valid [OF assms(1,5,2) refl c(1) c(2) [OF 2] refl _ keeps_account_refl] show ?thesis using 2 assms(5) by (simp add: entry_at_def)
  next
    case 3
    have "file_now fs ?f = None" using 3 by (simp add: file_now_def)
    from serve_gone [OF assms(1,5) _ this ok refl _ keeps_account_refl] show ?thesis
      using 3 assms(4) refresh_eq [OF assms(5) cont, of fs sb] by simp
  next
    case 4
    let ?c = "take (st_size sb) bytes"
    let ?st = "refreshed st a e sb (block ?c)"
    define e' where "e' = e\<lparr> ce_mtime := st_mtime sb, ce_size := st_size sb, ce_content_ref := fs_next st \<rparr>"
    have fs: "st_mode sb = S_IFREG" "st_size sb < 2 ^ 61" using assms(3) 4 by (fastforce simp: fs_ok_def)+
    have now: "file_now fs ?f = Some ?c" using 4 fs(1) by (simp add: file_now_def)
    have all: "file_now fs' ?f = Some ?c" if "fs' \<in> FS" "fs_stat fs' ?f = Some sb'" "st_mtime sb' = st_mtime sb" for fs' sb'
      using assms(7) that 4(1) now unfolding agrees_def by metis
    have e': "fs_entries ?st a = Some e'" "ce_filename e' = ?f" "map_option fst (fs_contents ?st (ce_content_ref e')) = Some (block ?c)"
      by (simp_all add: refreshed_def e'_def)
    have "entry_ok FS ?st f" if "fs_entries ?st b = Some f" for b f
    proof (cases "b = a")
      case True
      then have "f = e'" using that e'(1) by simp
      then show ?thesis using ok [OF assms(5)] e'(3) all fs(2) 4(4) by (simp add: entry_ok_def e'_def refreshed_def)
    next
      case False
      then show ?thesis using refreshed_others [OF assms(1,2,5) that] by simp
    qed
    then have "coherent FS ?st" by (simp add: coherent_def)
    from serve_valid [where ?st0.0 = st, OF refreshed_inv [OF assms(1,5)] e'(1) this e'(2,3) now _ _
        refreshed_account [OF assms(1,5) 4(1) assms(6)]] show ?thesis
      using 4 refresh_eq [OF assms(5) cont, of fs sb] e'(1) by (simp add: entry_at_def refreshed_def)
  next
    case 5
    let ?st = "refreshed st a e sb (map Some bytes @ replicate (st_size sb + 1 - length bytes) None)"
    have now: "file_now fs ?f = None" using 5 by (simp add: file_now_def)
    have ent: "fs_entries ?st a = Some (e\<lparr> ce_mtime := st_mtime sb, ce_size := st_size sb, ce_content_ref := fs_next st \<rparr>)"
      by (simp add: refreshed_def)
    from serve_gone [where ?st0.0 = st, OF refreshed_inv [OF assms(1,5)] ent _ now
        refreshed_others [OF assms(1,2,5)] _ _ refreshed_account [OF assms(1,5) 5(1) assms(6)]] show ?thesis
      using 5 assms(4) refresh_eq [OF assms(5) cont, of fs sb] by (simp add: refreshed_def)
  qed
qed

lemma serve_uncached:
  assumes "file_inv st held {}" and "coherent FS st" and "fs_ok fs" and "fs_next st + 2 < 2 ^ 60"
    and "\<And>a e. fs_entries st a = Some e \<Longrightarrow> ce_uri e \<noteq> uri" and "request_filename (fs_dirname st) uri = Some (Inr filename)"
    and "\<forall>fs' \<in> FS. agrees fs fs'"
  shows "serves FS fs st held filename
    (case uo_http_file_cache_entry_create fs st uri filename of
       (Some a, st) \<Rightarrow>
         run_bind (Some (entry_at st a)) (\<lambda>e.
         run_bind (respond_entry st e fresh_res) (\<lambda>(http_res, st).
         run_bind (uo_http_file_server_try_set_cache_entry st a) (\<lambda>(ok, st).
         run_bind (Some (if ok then Inr st else uo_http_file_cache_entry_destroy st a)) (\<lambda>st.
           Some (Inr (http_res, st))))))
     | (None, st) \<Rightarrow> run_bind (not_found fresh_res) (\<lambda>http_res. Some (Inr (http_res, st))))"
proof (cases "file_now fs filename")
  case None
  obtain res where "not_found fresh_res = Some (Inr res)" "shares (hm_refstack res) = (\<lambda>r. 0)" "reply_ok res (file_reply fs filename)"
    using not_found_reply None by (auto simp: file_reply_def)
  then show ?thesis using assms(1,2) None keeps_account_refl by (simp add: entry_create_eq serves_def)
next
  case (Some c)
  define e where "e = new_entry st uri filename (st_mtime (the (fs_stat fs filename))) c"
  define st1 where "st1 = with_entry st uri filename (st_mtime (the (fs_stat fs filename))) c"
  let ?a = "fs_next st + 1"
  have e: "ce_content_ref e = fs_next st" "ce_size e = length c" "ce_uri e = uri" "ce_filename e = filename" "ce_filetype e = filetype_of filename"
    by (simp_all add: e_def new_entry_def)
  have s1: "fs_entries st1 = (fs_entries st)(?a \<mapsto> e)" "fs_contents st1 = (fs_contents st)(fs_next st \<mapsto> (block c, 1))"
    "fs_next st1 = fs_next st + 2" "fs_dirname st1 = fs_dirname st" by (simp_all add: st1_def with_entry_def e_def)
  have len: "length c < 2 ^ 61" using Some assms(3) by (fastforce simp: file_now_def fs_ok_def split: option.splits if_splits)
  have i1: "file_inv st1 held {?a}" using with_entry_inv [OF assms(1)] by (simp add: st1_def)
  have c1: "fs_contents st1 (ce_content_ref e) = Some (block c, 1)" using s1(2) e(1) by simp
  obtain res K where r: "respond_entry st1 e fresh_res = Some (Inr (res, st1\<lparr> fs_contents := K \<rparr>))"
    "reply_ok res (file_reply fs filename)" "file_inv (st1\<lparr> fs_contents := K \<rparr>) (\<lambda>r. held r + shares (hm_refstack res) r) {?a}"
    "\<And>r. map_option fst (K r) = map_option fst (fs_contents st1 r)"
    using respond_inv [OF i1 c1 _ len e(5)] e(2) Some by (auto simp: file_reply_def)
  let ?st2 = "st1\<lparr> fs_contents := K \<rparr>" and ?h = "\<lambda>r. held r + shares (hm_refstack res) r"
  have below: "fs_entries st b = Some f \<Longrightarrow> ce_content_ref f \<noteq> fs_next st \<and> b \<noteq> ?a" for b f
    using ref_below [OF file_invD(3) [OF assms(1)], of b f] entries_invD(3) [OF file_invD(2) [OF assms(1)], of b f] by auto
  have old: "entry_ok FS st' f" if "fs_entries st b = Some f" "fs_dirname st' = fs_dirname st"
    "map_option fst (fs_contents st' (ce_content_ref f)) = map_option fst (K (ce_content_ref f))" for st' b f
    using assms(2) that below [OF that(1)] r(4) s1(2) entry_ok_cong [of st' st f FS] by (simp add: coherent_def)
  obtain sb where sb: "fs_stat fs filename = Some sb" using Some by (auto simp: file_now_def split: option.splits)
  have all: "file_now fs' filename = Some c" if "fs' \<in> FS" "fs_stat fs' filename = Some sb'" "st_mtime sb' = ce_mtime e" for fs' sb'
    using assms(7) that sb Some unfolding agrees_def by (simp add: e_def new_entry_def)
  have new: "entry_ok FS st' e" if "fs_dirname st' = fs_dirname st" "fs_contents st' = K" for st'
    using that assms(6) e r(4) [of "fs_next st"] s1(2) len all by (auto simp: entry_ok_def)
  obtain cache where t: "if fs_cache_space ?st2 < of_nat (ce_size e)
    then uo_http_file_server_try_set_cache_entry ?st2 ?a = Some (Inr (False, ?st2\<lparr> fs_cache := cache \<rparr>))
      \<and> file_inv (?st2\<lparr> fs_cache := cache \<rparr>) ?h {?a}
    else uo_http_file_server_try_set_cache_entry ?st2 ?a = Some (Inr (True,
        ?st2\<lparr> fs_cache := cache, fs_cache_space := fs_cache_space ?st2 - of_nat (ce_size e) \<rparr>))
      \<and> file_inv (?st2\<lparr> fs_cache := cache, fs_cache_space := fs_cache_space ?st2 - of_nat (ce_size e) \<rparr>) ?h {}"
    using try_set_inv [OF r(3), of e] s1(1,3) assms(4,5) e(3) by (auto split: if_splits)
  have C: "uo_http_file_cache_entry_create fs st uri filename = (Some ?a, st1)" "entry_at st1 ?a = Inr e"
    using Some s1(1) by (simp_all add: entry_create_eq st1_def entry_at_def)
  show ?thesis
  proof (cases "fs_cache_space ?st2 < of_nat (ce_size e)")
    case True
    let ?st3 = "?st2\<lparr> fs_cache := cache \<rparr>"
    let ?st4 = "?st3\<lparr> fs_contents := dropped ?st3 (ce_content_ref e), fs_entries := (fs_entries ?st3)(?a := None) \<rparr>"
    have d: "uo_http_file_cache_entry_destroy ?st3 ?a = Inr ?st4" "file_inv ?st4 ?h {}"
      using destroy_inv [of ?st3 ?h ?a e] t True s1(1) by simp_all
    have "coherent FS ?st4" unfolding coherent_def
      using old below s1(1,4) e(1) by (auto simp: dropped_def split: if_splits)
    moreover have "fs_entries st ?a = None" using below [of ?a] by (cases "fs_entries st ?a") auto
    then have "keeps_account FS fs st ?st4"
      using s1 by (intro unused_account [OF assms(1)]) (auto simp: fun_eq_iff st1_def with_entry_def)
    ultimately show ?thesis using True t d r(1,2) C s1(3,4) by (simp add: serves_def)
  next
    case False
    let ?st3 = "?st2\<lparr> fs_cache := cache, fs_cache_space := fs_cache_space ?st2 - of_nat (ce_size e) \<rparr>"
    have "coherent FS ?st3" unfolding coherent_def using old new s1(1,4) by (auto split: if_splits)
    moreover have "keeps_account FS fs st ?st3"
      using False s1 e(2,4) len sb Some
      by (intro added_account [OF assms(1), of _ e fs sb]) (auto simp: st1_def with_entry_def file_now_def split: if_splits option.splits)
    ultimately show ?thesis using False t r(1,2) C s1(3,4) by (simp add: serves_def)
  qed
qed

lemma serve_correct:
  assumes "file_inv st held {}" and "coherent FS st" and "fs_ok fs" and "fs_next st + 2 < 2 ^ 60"
    and "request_filename (fs_dirname st) (hm_uri req) = Some (Inr filename)"
    and "fs \<in> FS" and "\<forall>fs' \<in> FS. agrees fs fs'"
  shows "serves FS fs st held filename (uo_http_file_server_serve fs st req fresh_res)"
proof -
  note F = file_invD [OF assms(1)]
  obtain ptr where ptr: "uo_strhashtbl_get (fs_cache st) (Some (hm_uri req)) = Some ptr"
    "if ptr = 0 then \<forall>a e. fs_entries st a = Some e \<longrightarrow> ce_uri e \<noteq> hm_uri req
     else \<exists>e. fs_entries st (unat ptr) = Some e \<and> ce_uri e = hm_uri req"
    using table_lookup [OF F(1,2), of "hm_uri req"] assms(4) by auto
  have get: "uo_http_file_server_get_cache_entry st (hm_uri req) = Some (Inr (unat ptr))"
    using ptr(1) by (simp add: uo_http_file_server_get_cache_entry_def)
  show ?thesis
  proof (cases "ptr = 0")
    case True
    then show ?thesis using serve_uncached [OF assms(1-4) _ assms(5,7)] ptr(2) get assms(5)
      by (simp add: uo_http_file_server_serve_def Let_def)
  next
    case False
    then obtain e where e: "fs_entries st (unat ptr) = Some e" "ce_uri e = hm_uri req" "unat ptr \<noteq> 0"
      using ptr(2) by (auto simp: unat_eq_0)
    have "entry_ok FS st e" using assms(2) e(1) by (simp add: coherent_def)
    then have f: "ce_filename e = filename" using assms(5) e(2) by (simp add: entry_ok_def)
    have "fs_next st < 2 ^ 60" using assms(4) by simp
    from serve_cached [OF assms(1-3) this e(1) assms(6,7)] show ?thesis
      unfolding uo_http_file_server_serve_def Let_def get e(2) f by (simp add: entry_at_def e(1,3) f)
  qed
qed

section \<open>File names\<close>

text \<open>
  The file of a target is the directory followed by the decoded target, with \<^verbatim>\<open>index.html\<close> for
  directories, provided that the name fits into the buffer and a target that ends with a slash
  has no escapes.
\<close>

definition decoded :: "string \<Rightarrow> string" where
  "decoded uri = (case uo_uri_decode uri (length uri) of Inl _ \<Rightarrow> [] | Inr d \<Rightarrow> d)"

definition file_of :: "string \<Rightarrow> string \<Rightarrow> string" where
  "file_of dirname uri = dirname @ decoded uri @ (if last uri = CHR ''/'' then ''index.html'' else [])"

definition target_ok :: "string \<Rightarrow> string \<Rightarrow> bool" where
  "target_ok dirname uri \<longleftrightarrow> uri \<noteq> [] \<and> length dirname + length uri < 0x100 \<and> no_nul (dirname @ decoded uri)
     \<and> (last uri = CHR ''/'' \<longrightarrow> length (decoded uri) = length uri)"

lemma memcpy_in_place:
  assumes "buf_rel b s" and "length s + length t < bf_size b"
  shows "\<exists>b'. uo_buf_memcpy_append fuel b t = Some (Inr (int (length s), b')) \<and> buf_rel b' (s @ t) \<and> bf_size b' = bf_size b"
proof -
  have "memcpy_grow fuel b (length t) = Some b"
    using assms buf_relD [OF assms(1)] by (subst memcpy_grow.simps) (simp add: uo_buf_get_len_after_ptr_def)
  moreover obtain b2 where b2: "buf_store b (bf_ptr b) t = Inr b2" "buf_rel b2 s" "bf_size b2 = bf_size b"
    "take (length s + length t) (bf_data b2) = map Some (s @ t)"
    using buf_store_at_ptr [OF assms(1), of t] assms(2) by auto
  moreover have "buf_rel (uo_buf_set_ptr_rel b2 (int (length t))) (s @ t)"
    using b2 assms(2) by (intro buf_rel_advance) auto
  ultimately show ?thesis
    by (auto simp: uo_buf_memcpy_append_def uo_buf_get_ptr_def buf_relD(2) [OF assms(1)] uo_buf_set_ptr_rel_def)
qed

lemma decode_over:
  assumes "buf_rel b (s @ t)" and "length d \<le> length t"
  shows "\<exists>b'. buf_store b (int (length s)) d = Inr b' \<and> buf_rel b' (s @ d @ drop (length d) t) \<and> bf_size b' = bf_size b"
proof -
  note B = buf_relD [OF assms(1)]
  have l: "length s + length t \<le> length (bf_data b)" using B by simp
  have t: "take (length s + length t) (bf_data b) = map Some (s @ t)" using assms(1) by (simp add: buf_rel_def)
  have "take (length s) (bf_data b) = map Some s"
    using take_prefix_eq [OF t, of "length s"] by simp
  moreover have "take (length t - length d) (drop (length s + length d) (bf_data b)) = map Some (drop (length d) t)"
  proof -
    have "take (length t - length d) (drop (length s + length d) (bf_data b))
        = drop (length s + length d) (take (length s + length t) (bf_data b))" using assms(2) by (simp add: drop_take)
    then show ?thesis using t by (simp add: drop_map)
  qed
  ultimately show ?thesis using assms l B
    by (auto simp: buf_store_def store_def buf_rel_def)
qed

lemma block_string_text:
  assumes "take (length s + 1) b = map Some (s @ [NUL])" and "no_nul s"
  shows "block_string b = Inr s"
proof -
  have b: "b = map Some s @ Some NUL # drop (length s + 1) b"
    using assms(1) append_take_drop_id [of "length s + 1" b] by simp
  have "takeWhile (\<lambda>c. c \<noteq> Some NUL) b = map Some s"
    using assms(2) takeWhile_append2 [of "map Some s" "\<lambda>c. c \<noteq> Some NUL" "Some NUL # drop (length s + 1) b"]
    by (subst b) (auto simp: no_nul_def)
  moreover have "length s \<noteq> length b" by (subst b) simp
  ultimately show ?thesis by (auto simp: block_string_def comp_def)
qed

lemma request_filename_eq:
  assumes "target_ok dirname uri"
  shows "request_filename dirname uri = Some (Inr (file_of dirname uri))"
proof -
  have a: "uri \<noteq> []" "length dirname + length uri < 0x100" "no_nul (dirname @ decoded uri)"
    "last uri = CHR ''/'' \<Longrightarrow> length (decoded uri) = length uri" using assms by (simp_all add: target_ok_def)
  obtain d where d: "uo_uri_decode uri (length uri) = Inr d" "length d \<le> length uri" "decoded uri = d"
    using uri_decode_loop_total [of 0 uri "[]"] by (auto simp: uo_uri_decode_def decoded_def)
  have sz: "bf_size (uo_buf_alloc 0x100) = 0x100" by (simp add: uo_buf_alloc_def)
  obtain b0 where b0: "uo_buf_memcpy_append 64 (uo_buf_alloc 0x100) dirname = Some (Inr (0, b0))" "buf_rel b0 dirname" "bf_size b0 = 0x100"
    using memcpy_in_place [OF buf_rel_alloc [of "0x100"], of dirname 64] a(2) sz by auto
  obtain b1 where b1: "uo_buf_memcpy_append 64 b0 uri = Some (Inr (int (length dirname), b1))" "buf_rel b1 (dirname @ uri)" "bf_size b1 = 0x100"
    using memcpy_in_place [OF b0(2), of uri 64] a(2) b0(3) by auto
  obtain b2 where b2: "buf_store b1 (int (length dirname)) d = Inr b2" "buf_rel b2 (dirname @ d @ drop (length d) uri)" "bf_size b2 = 0x100"
    using decode_over [OF b1(2) d(2)] b1(3) by auto
  have p: "uo_buf_get_ptr b0 = int (length dirname)" using buf_relD(2) [OF b0(2)] by (simp add: uo_buf_get_ptr_def)
  note R = request_filename_def b0(1,3) b1(1,3) p d(1) b2(1) a(1)
  show ?thesis
  proof (cases "last uri = CHR ''/''")
    case True
    have "drop (length d) uri = []" using a(4) [OF True] d(3) by simp
    then obtain b3 where b3: "uo_buf_memcpy_append 64 b2 (''index.html'' @ [NUL]) = Some (Inr (int (length (dirname @ d)), b3))"
      "buf_rel b3 ((dirname @ d @ ''index.html'') @ [NUL])"
      using buf_rel_memcpy [OF b2(2), of "''index.html'' @ [NUL]" 64] b2(3) a(2) d(2) by auto
    have "take (length (dirname @ d @ ''index.html'') + 1) (bf_data b3) = map Some ((dirname @ d @ ''index.html'') @ [NUL])"
      using b3(2) by (simp add: buf_rel_def)
    from block_string_text [OF this] have "block_string (bf_data b3) = Inr (file_of dirname uri)"
      using a(3) True d(3) by (simp add: file_of_def no_nul_def)
    then show ?thesis using True a(1) b3(1) by (simp add: R Let_def last_conv_nth)
  next
    case False
    have l: "length (bf_data b2) = 0x100" "take (length (dirname @ d)) (bf_data b2) = map Some (dirname @ d)"
      using b2(2,3) take_prefix_eq [of "length (dirname @ d @ drop (length d) uri)" "bf_data b2" _ "length (dirname @ d)"]
      by (auto simp: buf_rel_def)
    obtain b3 where b3: "buf_store b2 (int (length (dirname @ d))) [NUL] = Inr b3"
      "bf_data b3 = map Some (dirname @ d) @ [Some NUL] @ drop (length (dirname @ d) + 1) (bf_data b2)"
      using l a(2) d(2) by (simp add: buf_store_def store_def nat_int_add)
    have "block_string (bf_data b3) = Inr (dirname @ d)"
      using a(3) d(3) by (intro block_string_text) (simp_all add: b3(2))
    then show ?thesis using False a(1) b3(1) d(3) by (simp add: R Let_def last_conv_nth file_of_def)
  qed
qed

text \<open>
  Segments that lead out of the directory are not rejected, and an escape in a target that ends
  with a slash leaves bytes of the target in the name.
\<close>

lemma file_of_traversal: "target_ok ''/www'' ''/%2E%2E/etc/passwd'' \<and> file_of ''/www'' ''/%2E%2E/etc/passwd'' = ''/www/../etc/passwd''"
  unfolding target_ok_def no_nul_def by code_simp

section \<open>Sequences of requests\<close>

text \<open>Requests, each with the state the file system has by then; a response is given up once it has been sent.\<close>

fun serve_all :: "uo_http_file_server \<Rightarrow> (file_system \<times> uo_http_msg) list \<Rightarrow> (uo_http_msg list \<times> uo_http_file_server) run" where
  "serve_all st [] = Some (Inr ([], st))"
| "serve_all st ((fs, req) # rs) =
     run_bind (uo_http_file_server_serve fs st req fresh_res) (\<lambda>(res, st).
     run_bind (serve_all (release_refs st (uo_http_msg_destroy_at res)) rs) (\<lambda>(ress, st).
       Some (Inr (res # ress, st))))"

lemma create_inv:
  assumes "uo_http_file_server_create fs dirname cache_size = Some st"
  shows "file_inv st (\<lambda>r. 0) {}" "coherent FS st" "fs_dirname st = dirname" "fs_next st = 1"
    "accounted FS (unat cache_size) st"
proof -
  have st: "st = \<lparr> fs_cache = uo_hashtbl_create_at 0, fs_dirname = dirname, fs_cache_space = cache_size,
      fs_entries = Map.empty, fs_contents = Map.empty, fs_next = 1 \<rparr>"
    using assms by (auto simp: uo_http_file_server_create_def split: option.splits if_splits)
  have "table_rel uo_strhash_djb2 (uo_hashtbl_create_at 0) []" by (rule table_rel_create) simp
  then show "file_inv st (\<lambda>r. 0) {}"
    unfolding st file_inv_def table_inv_def entries_inv_def counts_inv_def in_entry_def
    by (auto simp: uo_hashtbl_create_at_def UO_HASHTBL_MIN_CAPACITY_def intro!: exI [of _ "[]"])
  show "coherent FS st" "fs_dirname st = dirname" "fs_next st = 1" "accounted FS (unat cache_size) st"
    using unsigned_less [of cache_size] by (simp_all add: st coherent_def accounted_def cached_size_def)
qed

lemma release_keeps:
  assumes "file_inv st (\<lambda>r. held r + shares refs r) {}" and "coherent FS st"
  shows "coherent FS (release_refs st refs)" "accounted FS limit (release_refs st refs) = accounted FS limit st"
proof -
  note R = release_inv [OF assms(1)]
  show "coherent FS (release_refs st refs)" unfolding coherent_def
  proof (intro allI impI)
    fix a e
    assume "fs_entries (release_refs st refs) a = Some e"
    then have e: "fs_entries st a = Some e" using R by simp
    show "entry_ok FS (release_refs st refs) e"
      using entry_ok_cong [of "release_refs st refs" st e FS] R in_entryI [OF e] assms(2) e by (simp add: coherent_def)
  qed
  show "accounted FS limit (release_refs st refs) = accounted FS limit st"
    using R cached_size_cong [of "release_refs st refs" st] by (simp add: accounted_def)
qed

lemma coherent_mono: "coherent FS st \<Longrightarrow> FS' \<subseteq> FS \<Longrightarrow> coherent FS' st"
  unfolding coherent_def entry_ok_def by (meson subsetD)

lemma serve_all_correct:
  assumes "file_inv st (\<lambda>r. 0) {}" and "coherent (fst ` set rs) st"
    and "\<forall>(fs, req) \<in> set rs. fs_ok fs \<and> target_ok (fs_dirname st) (hm_uri req)" and "sorted_wrt agrees (map fst rs)"
    and "fs_next st + 2 * length rs < 2 ^ 60"
  shows "\<exists>ress st'. serve_all st rs = Some (Inr (ress, st')) \<and> file_inv st' (\<lambda>r. 0) {} \<and> fs_next st' \<le> fs_next st + 2 * length rs
    \<and> list_all2 (\<lambda>(fs, req) res. reply_ok res (file_reply fs (file_of (fs_dirname st) (hm_uri req)))) rs ress
    \<and> (sorted_wrt same_size (map fst rs) \<longrightarrow> (\<forall>limit. accounted (fst ` set rs) limit st
          \<longrightarrow> unat (fs_cache_space st') + cached_size st' = limit))"
  using assms
proof (induction rs arbitrary: st)
  case Nil
  then show ?case by (auto simp: accounted_def)
next
  case (Cons x rs)
  obtain fs req where x: "x = (fs, req)" by (cases x)
  let ?FS = "fst ` set (x # rs)" and ?f = "file_of (fs_dirname st) (hm_uri req)"
  have ag: "\<forall>fs' \<in> ?FS. agrees fs fs'" using Cons.prems(4) x by (auto simp: agrees_def)
  have pre: "fs_ok fs" "fs_next st + 2 < 2 ^ 60" "request_filename (fs_dirname st) (hm_uri req) = Some (Inr ?f)" "fs \<in> ?FS"
    using Cons.prems(3,5) x request_filename_eq by auto
  obtain res st1 where s: "uo_http_file_server_serve fs st req fresh_res = Some (Inr (res, st1))" "reply_ok res (file_reply fs ?f)"
    "file_inv st1 (\<lambda>r. 0 + shares (hm_refstack res) r) {}" "coherent ?FS st1" "fs_dirname st1 = fs_dirname st"
    "fs_next st1 \<le> fs_next st + 2" "keeps_account ?FS fs st st1"
    using serve_correct [OF Cons.prems(1,2) pre(1-4) ag] unfolding serves_def by blast
  let ?refs = "uo_http_msg_destroy_at res"
  have r: "file_inv st1 (\<lambda>r. 0 + shares ?refs r) {}" using s(3) by (simp add: uo_http_msg_destroy_at_def)
  let ?st2 = "release_refs st1 ?refs"
  note R = release_inv [OF r] and K = release_keeps [OF r s(4)]
  have sub: "coherent (fst ` set rs) ?st2" by (rule coherent_mono [OF K(1)]) auto
  obtain ress st' where IH: "serve_all ?st2 rs = Some (Inr (ress, st'))" "file_inv st' (\<lambda>r. 0) {}"
    "fs_next st' \<le> fs_next st1 + 2 * length rs"
    "list_all2 (\<lambda>(fs, req) res. reply_ok res (file_reply fs (file_of (fs_dirname st) (hm_uri req)))) rs ress"
    "sorted_wrt same_size (map fst rs) \<longrightarrow> (\<forall>limit. accounted (fst ` set rs) limit ?st2
       \<longrightarrow> unat (fs_cache_space st') + cached_size st' = limit)"
    using Cons.IH [OF _ sub] R s(5,6) Cons.prems(3-5) by auto
  have "unat (fs_cache_space st') + cached_size st' = limit"
    if "sorted_wrt same_size (map fst (x # rs))" "accounted ?FS limit st" for limit
  proof -
    have "\<forall>fs' \<in> ?FS. same_size fs fs'" using that(1) x by (auto simp: same_size_def)
    then have "accounted ?FS limit ?st2" using s(7) that(2) K(2) by (simp add: keeps_account_def)
    then have "accounted (fst ` set rs) limit ?st2" by (auto simp: accounted_def)
    then show ?thesis using IH(5) that(1) by simp
  qed
  then show ?case using s(1,2,6) IH(1-4) x by auto
qed

text \<open>Destroying the server frees every entry and every content that no response holds.\<close>

lemma destroy_entries_all:
  assumes "entries_inv st" and "counts_inv st (\<lambda>r. 0)" and "distinct as" and "dom (fs_entries st) = set as"
  shows "\<exists>st'. destroy_entries st as = Inr st' \<and> fs_entries st' = Map.empty \<and> fs_contents st' = Map.empty"
  using assms
proof (induction as arbitrary: st)
  case Nil
  then have e: "fs_entries st = Map.empty" by simp
  have "fs_contents st r = None" for r
    using counts_invD(1) [OF Nil.prems(2), of r] e by (cases "fs_contents st r") (auto simp: in_entry_def)
  then show ?case using e by auto
next
  case (Cons a as)
  then obtain e where e: "fs_entries st a = Some e" by (auto simp: dom_def)
  let ?st = "st\<lparr> fs_contents := dropped st (ce_content_ref e), fs_entries := (fs_entries st)(a := None) \<rparr>"
  note D = destroy_counts [OF Cons.prems(1,2) e]
  have dom: "dom (fs_entries ?st) = set as" using Cons.prems(3,4) by auto
  have "distinct as" using Cons.prems(3) by simp
  from Cons.IH [OF D(2,3) this dom] D(1) show ?case by (auto simp del: fun_upd_apply)
qed

lemma destroy_all:
  assumes "file_inv st (\<lambda>r. 0) {}" and "fs_next st \<le> 2 ^ 64"
  shows "\<exists>st'. uo_http_file_server_destroy st = Inr st' \<and> fs_entries st' = Map.empty \<and> fs_contents st' = Map.empty"
proof -
  note F = file_invD [OF assms(1)] and E = entries_invD [OF file_invD(2) [OF assms(1)]]
  obtain kvs where kvs: "table_rel uo_strhash_djb2 (fs_cache st) kvs"
    "\<And>k w. (k, w) \<in> set kvs \<longleftrightarrow> (\<exists>e. fs_entries st (unat w) = Some e \<and> ce_uri e = k)"
    using F(1) by (auto simp: table_inv_def)
  let ?as = "map (unat \<circ> snd) kvs"
  have "distinct kvs" using table_distinct [OF kvs(1)] by (simp add: distinct_map)
  moreover have "inj_on (unat \<circ> snd) (set kvs)" unfolding inj_on_def using kvs(2) by (auto simp: word_unat_eq_iff [symmetric])
  ultimately have d: "distinct ?as" by (simp add: distinct_map)
  have "a \<in> set ?as" if "fs_entries st a = Some e" for a e
  proof -
    have "unat (of_nat a :: 64 word) = a" using E(3) [OF that] assms(2) by (intro unat_of_nat_64) simp
    then have "(ce_uri e, of_nat a) \<in> set kvs" "(unat \<circ> snd) (ce_uri e, of_nat a :: 64 word) = a" using kvs(2) that by simp_all
    then show ?thesis by (metis image_eqI image_set)
  qed
  then have "dom (fs_entries st) = set ?as" using kvs(2) by (auto simp: dom_def)
  from destroy_entries_all [OF F(2,3) d this] show ?thesis
    using table_rel_list [OF kvs(1)] by (simp add: uo_http_file_server_destroy_def split_beta comp_def)
qed

section \<open>Properties\<close>


text \<open>
  C40: As long as files keep their size, the sizes of the entries and the free space of the cache
  add up to the size the cache was created with, so that the cache never holds more than that.
\<close>

theorem uo_http_file_server_limit:
  assumes "uo_http_file_server_create fs0 dirname cache_size = Some st"
    and "\<forall>(fs, req) \<in> set rs. fs_ok fs \<and> target_ok dirname (hm_uri req)"
    and "sorted_wrt agrees (map fst rs)" and "sorted_wrt same_size (map fst rs)" and "length rs < 2 ^ 58"
  shows "\<exists>ress st'. serve_all st rs = Some (Inr (ress, st')) \<and> unat (fs_cache_space st') + cached_size st' = unat cache_size"
proof -
  note C = create_inv [OF assms(1)]
  show ?thesis using serve_all_correct [OF C(1,2), of rs] C(3,4) C(5) [of "fst ` set rs"] assms(2-5) by auto
qed

section \<open>An example\<close>

text \<open>A directory with one page, which is replaced by another of the same size.\<close>

definition site :: "string \<Rightarrow> int \<Rightarrow> file_system" where
  "site page mtime =
     \<lparr> fs_stat = (\<lambda>f. if f = ''/www'' then Some \<lparr> st_mode = S_IFDIR, st_mtime = 0, st_size = 1 \<rparr>
                      else if f = ''/www/index.html'' then Some \<lparr> st_mode = S_IFREG, st_mtime = mtime, st_size = length page \<rparr>
                      else None),
       fs_fopen = (\<lambda>f. if f = ''/www/index.html'' then Some page else None) \<rparr>"

definition request_for :: "string \<Rightarrow> uo_http_msg" where
  "request_for target = (uo_http_msg_create_at UO_HTTP_MSG_TYPE_REQUEST UO_HTTP_MSG_ROLE_RECV)\<lparr> hm_uri := target \<rparr>"

definition visits :: "(file_system \<times> uo_http_msg) list" where
  "visits = [(site ''old'' 1, request_for ''/''), (site ''old'' 1, request_for ''/''),
             (site ''new'' 2, request_for ''/''), (site ''new'' 2, request_for ''/x'')]"

lemma site_ok: "length page < 2 ^ 61 \<Longrightarrow> fs_ok (site page mtime)"
  by (auto simp: fs_ok_def site_def split: if_splits)

lemma visits_ok:
  "\<forall>(fs, req) \<in> set visits. fs_ok fs \<and> target_ok ''/www'' (hm_uri req)"
  "sorted_wrt agrees (map fst visits)" "sorted_wrt same_size (map fst visits)" "length visits < 2 ^ 58"
proof -
  have "target_ok ''/www'' ''/''" "target_ok ''/www'' ''/x''" by code_simp+
  then show "\<forall>(fs, req) \<in> set visits. fs_ok fs \<and> target_ok ''/www'' (hm_uri req)"
    by (simp add: visits_def site_ok request_for_def)
qed (auto simp: visits_def agrees_def same_size_def site_def file_now_def split: if_splits)


theorem uo_http_file_server_limit_witness:
  "\<exists>st ress st'. uo_http_file_server_create (site ''old'' 1) ''/www'' 100 = Some st
    \<and> serve_all st visits = Some (Inr (ress, st')) \<and> unat (fs_cache_space st') + cached_size st' = 100"
proof -
  obtain st where st: "uo_http_file_server_create (site ''old'' 1) ''/www'' 100 = Some st"
    by (auto simp: uo_http_file_server_create_def site_def)
  from uo_http_file_server_limit [OF this visits_ok] st show ?thesis by auto
qed

end
