(* ===== verification/Http_Files.thy ===== *)
theory Http_Files
  imports Http_Flow File_Cache
begin

text \<open>
  An HTTP server with a file server: what becomes of the requests that no function of the
  application answers.
\<close>

text \<open>
  The file server of a connection, between requests: its invariant holds with no content that a
  response still refers to, and its entries are as the states \<open>FS\<close> of the file system have them.
\<close>

definition files_ready :: "file_system set \<Rightarrow> 'a server \<Rightarrow> uo_http_file_server \<Rightarrow> bool" where
  "files_ready FS s st \<longleftrightarrow> file_server s = Some st \<and> file_inv st (\<lambda>r. 0) {} \<and> coherent FS st
     \<and> files s \<in> FS \<and> fs_ok (files s) \<and> (\<forall>fs \<in> FS. agrees (files s) fs)"

lemma get_served:
  assumes "files_ready FS s st" and "target_ok (fs_dirname st) (hm_uri (hc_http_req h))" and "fs_next st + 2 < 2 ^ 60"
    and "hc_http_res h = fresh_res" and "hm_method (hc_http_req h) = UO_HTTP_GET"
  shows "\<exists>res st'. final_response (files s) (file_server s) h = Some (Inr (res, Some st'))
    \<and> reply_ok res (file_reply (files s) (file_of (fs_dirname st) (hm_uri (hc_http_req h))))
    \<and> file_inv st' (\<lambda>r. 0 + shares (hm_refstack res) r) {} \<and> coherent FS st'
    \<and> fs_dirname st' = fs_dirname st \<and> fs_next st' \<le> fs_next st + 2"
proof -
  have f: "file_server s = Some st" "file_inv st (\<lambda>r. 0) {}" "coherent FS st" "files s \<in> FS" "fs_ok (files s)"
    "\<forall>fs \<in> FS. agrees (files s) fs" using assms(1) by (auto simp: files_ready_def)
  from serve_correct [OF f(2,3,5) assms(3) request_filename_eq [OF assms(2)] f(4,6)] show ?thesis
    using assms(4,5) f(1) by (auto simp: serves_def final_response_def default_response_def uo_http_msg_create_at_def)
qed


text \<open>Without a file server, and for other methods, such a request is answered with 400.\<close>

lemma unanswered_bad_request:
  assumes "hc_http_res h = fresh_res" and "hm_method (hc_http_req h) \<noteq> UO_HTTP_GET \<or> st = None"
  shows "\<exists>res. final_response fs st h = Some (Inr (res, st))
    \<and> reply_ok res (response_text ''400 Bad Request'' ''text/plain'' ''400 Bad Request'')"
proof -
  have "map_of status_strs UO_HTTP_400 = Some ''400 Bad Request''" by code_simp
  from respond_content [OF this, of "''400 Bad Request''" "''text/plain''"] show ?thesis
    using assms by (auto simp: final_response_def default_response_def uo_http_msg_create_at_def split: option.split uo_http_method.split)
qed

section \<open>An example\<close>

text \<open>A server without handlers that serves the page of \<open>site\<close>.\<close>

definition site_start :: "unit server" where
  "site_start = greet_start\<lparr> http_server := greet_server\<lparr> hs_req_handlers := [] \<rparr>, files := site ''old'' 1,
     file_server := snd (uo_http_server_set_opt_serve_static_files (site ''old'' 1) ''/www'' 100) \<rparr>"

definition site_request :: string where
  "site_request = request_text ''GET'' ''/'' ''HTTP/1.1'' ([(''host'', ''uo'')] @ content_hdrs ''text/plain'' []) []"

definition site_reply :: string where
  "site_reply = response_text ''200 OK'' ''text/html; charset=utf-8'' ''old''"

lemma site_text: "length site_request \<le> 0x200" "length site_reply \<le> 100" "target_ok ''/www'' ''/''"
  "site_reply = file_reply (site ''old'' 1) (file_of ''/www'' ''/'')"
  unfolding site_request_def site_reply_def by code_simp+


end
