(* ===== verification/Http_Client.thy ===== *)
theory Http_Client
  imports Http_Conn Tcp_Server
begin

text \<open>
  \<^verbatim>\<open>uo_http/src/uo_http_client.c\<close>: an HTTP client, and the functions with which it reacts to the
  events of its TCP connection. As for the server, the TCP connection on the stack of the
  callback is exchanged for the HTTP connection while functions of the application run.
\<close>

record 'a uo_http_client =
  hl_user_data :: "string uo_hashtbl"
  hl_evt_handlers :: "'a uo_http_conn_evt_handlers"

text \<open>The state of a connection and the client it belongs to.\<close>

record 'a client = "'a http" +
  http_client :: "'a uo_http_client"

abbreviation client_handlers :: "'a client \<Rightarrow> 'a uo_http_conn_evt_handlers" where
  "client_handlers s \<equiv> hl_evt_handlers (http_client s)"

definition uo_http_conn_pass_cb_to_tcp_client :: "'a client \<Rightarrow> 'a client run" where
  "uo_http_conn_pass_cb_to_tcp_client s =
     run_bind (Some (pop_http s)) (\<lambda>(h, s). Some (Inr (cb_push s TcpConn)))"

definition uo_http_client_after_close :: "'a client \<Rightarrow> 'a client run" where
  "uo_http_client_after_close s =
     run_bind (Some (pop_http s)) (\<lambda>(h, s).
       let s = cb_push s TcpConn
       in Some (Inr (s\<lparr> released := released s @ uo_http_conn_destroy h, http_conn := None \<rparr>)))"

definition tcp_client_evt_handler_after_close :: "'a client \<Rightarrow> 'a client run" where
  "tcp_client_evt_handler_after_close s =
     run_bind (Some (pop_tcp s)) (\<lambda>(c, s).
     run_bind (http_of s c) (\<lambda>h.
       let s = cb_push s (Ptr HttpConn);
           s = cb_prepend s (hfunc Http_after_close);
           s = cb_prepend s (he_after_close (client_handlers s))
       in Some (Inr s)))"

definition tcp_client_evt_handler_before_close :: "'a client \<Rightarrow> 'a client run" where
  "tcp_client_evt_handler_before_close s =
     run_bind (Some (pop_tcp s)) (\<lambda>(c, s).
     run_bind (http_of s c) (\<lambda>h.
       let s = cb_push s (Ptr HttpConn);
           s = cb_prepend s (hfunc Pass_cb_to_tcp);
           s = cb_prepend s (he_before_close (client_handlers s))
       in Some (Inr s)))"

text \<open>This function is not registered for any event.\<close>

definition uo_http_client_after_recv_response :: "'a client \<Rightarrow> 'a client run" where
  "uo_http_client_after_recv_response s =
     run_bind (Some (the_http s)) (\<lambda>h.
       let (refs, h) = uo_http_conn_reset h
       in Some (Inr (s\<lparr> http_conn := Some h, released := released s @ refs \<rparr>)))"

text \<open>The connection on the stack is exchanged for the HTTP connection.\<close>

definition to_http_client :: "'a client \<Rightarrow> 'a client run" where
  "to_http_client s =
     run_bind (Some (cb_pop s)) (\<lambda>(_, s).
       Some (Inr (cb_prepend (cb_push s (Ptr HttpConn)) (hfunc Pass_cb_to_tcp))))"

definition tcp_client_evt_handler_after_recv :: "'a client \<Rightarrow> 'a client run" where
  "tcp_client_evt_handler_after_recv s =
     run_bind (Some (the_conn s)) (\<lambda>c.
     run_bind (http_of s c) (\<lambda>h.
       let put = (\<lambda>s res rbuf. s\<lparr> http_conn := Some (h\<lparr> hc_http_res := res \<rparr>), conn := Some (c\<lparr> tc_rbuf := rbuf \<rparr>) \<rparr>);
           again = (\<lambda>s rbuf. s\<lparr> conn := Some (uo_tcp_conn_next_recv (c\<lparr> tc_rbuf := rbuf \<rparr>)) \<rparr>);
           received_msg = (\<lambda>s. cb_prepend s (he_after_recv_msg (client_handlers s)));
           res = hc_http_res h
       in
       run_bind (if hm_has_start_line res then Some (Inr (True, res))
                 else Some (uo_http_msg_parse_start_line res (tc_rbuf c))) (\<lambda>(ok, res).
       if \<not> ok then Some (Inr (again (put s res (tc_rbuf c)) (tc_rbuf c)))
       else
         run_bind (if hm_has_headers res then uo_http_msg_parse_body res (tc_rbuf c)
                   else Some (Inr (False, res, tc_rbuf c))) (\<lambda>(ok, res, rbuf).
         if ok
         then run_bind (to_http_client (put s res rbuf)) (\<lambda>s. Some (Inr (received_msg s)))
         else
           run_bind (uo_http_msg_parse_headers res rbuf) (\<lambda>(ok, res, rbuf).
           if ok
           then
             run_bind (to_http_client (put s res rbuf)) (\<lambda>s.
             run_bind (uo_http_msg_parse_body res rbuf) (\<lambda>(ok, res, rbuf).
               let s = put s res rbuf;
                   s = (if ok then received_msg s else again s rbuf)
               in Some (Inr (cb_prepend s (he_after_recv_headers (client_handlers s))))))
           else Some (Inr (again (put s res rbuf) rbuf)))))))"

definition tcp_client_evt_handler_after_send :: "'a client \<Rightarrow> 'a client run" where
  "tcp_client_evt_handler_after_send s =
     run_bind (Some (pop_tcp s)) (\<lambda>(c, s).
     run_bind (http_of s c) (\<lambda>h.
       let s = cb_push s (Ptr HttpConn);
           s = cb_prepend s (hfunc Pass_cb_to_tcp);
           s = cb_prepend s (he_after_send_msg (client_handlers s))
       in Some (Inr s)))"

definition uo_http_client_before_send_request :: "'a client \<Rightarrow> 'a client run" where
  "uo_http_client_before_send_request s =
     run_bind (Some (the_http s)) (\<lambda>h.
     run_bind (if hm_has_start_line (hc_http_req h) then Some (Inr (True, hc_http_req h))
               else Some (uo_http_req_set_request_line (hc_http_req h) UO_HTTP_GET ''/'' UO_HTTP_VER_1_1)) (\<lambda>(_, req).
     run_bind (Some (deref (conn s))) (\<lambda>c.
     run_bind (uo_http_msg_write_to_buf 64 req (hc_buf h) (tc_wbuf c)) (\<lambda>(buf, wbuf).
       Some (Inr (s\<lparr> conn := Some (c\<lparr> tc_wbuf := wbuf \<rparr>),
                     http_conn := Some (h\<lparr> hc_http_req := req, hc_buf := buf \<rparr>) \<rparr>))))))"

definition tcp_client_evt_handler_before_send :: "'a client \<Rightarrow> 'a client run" where
  "tcp_client_evt_handler_before_send s =
     run_bind (Some (pop_tcp s)) (\<lambda>(c, s).
     run_bind (http_of s c) (\<lambda>h.
       let s = cb_push s (Ptr HttpConn);
           s = cb_prepend s (hfunc Pass_cb_to_tcp);
           s = cb_prepend s (hfunc Before_send_msg);
           s = cb_prepend s (he_before_send_msg (client_handlers s))
       in Some (Inr s)))"

definition tcp_client_evt_handler_after_open :: "'a client \<Rightarrow> 'a client run" where
  "tcp_client_evt_handler_after_open s =
     run_bind (Some (pop_tcp s)) (\<lambda>(c, s).
       let h = uo_http_conn_create_for_client
       in
       run_bind (uo_tcp_conn_set_user_data c ''http_conn'' (http_addr s)) (\<lambda>c.
         let s = s\<lparr> conn := Some c, http_conn := Some h \<rparr>;
             s = cb_push s (Ptr HttpConn);
             s = cb_prepend s (hfunc Pass_cb_to_tcp);
             s = cb_prepend s (he_after_open (client_handlers s))
         in Some (Inr s)))"

text \<open>
  The functions of the application are a parameter. A client has no request handlers: that
  function of the server is never among its functions.
\<close>

primrec client_func :: "('a \<Rightarrow> 'a client \<Rightarrow> 'a client run) \<Rightarrow> 'a http_func \<Rightarrow> 'a client \<Rightarrow> 'a client run" where
  "client_func app Pass_cb_to_tcp = uo_http_conn_pass_cb_to_tcp_client"
| "client_func app Http_after_close = uo_http_client_after_close"
| "client_func app Evt_after_close = tcp_client_evt_handler_after_close"
| "client_func app Evt_before_close = tcp_client_evt_handler_before_close"
| "client_func app After_send_response = uo_http_client_after_recv_response"
| "client_func app Evt_after_send = tcp_client_evt_handler_after_send"
| "client_func app Before_send_msg = uo_http_client_before_send_request"
| "client_func app Evt_before_send = tcp_client_evt_handler_before_send"
| "client_func app Process_req_handlers = (\<lambda>s. Some (Inl WrongPointer))"
| "client_func app Evt_after_recv = tcp_client_evt_handler_after_recv"
| "client_func app Evt_after_open = tcp_client_evt_handler_after_open"
| "client_func app (App a) = app a"

text \<open>
  Creation: the HTTP client, and the TCP client with its functions registered; \<open>addr\<close> is the
  address of the HTTP client, stored in the user data of the TCP client.
\<close>

definition uo_http_client_create ::
  "string \<Rightarrow> string \<Rightarrow> 64 word \<Rightarrow> ('a uo_http_client \<times> ('a http_func, http_ptr) uo_tcp_client) run" where
  "uo_http_client_create hostname port addr =
     run_bind (uo_tcp_client_set_user_data (uo_tcp_client_create hostname port) ''http_client'' addr) (\<lambda>cl.
       let hs = tl_evt_handlers cl;
           hs = hs\<lparr> eh_after_open := append_handler (eh_after_open hs) (Usr Evt_after_open),
                    eh_before_send := append_handler (eh_before_send hs) (Usr Evt_before_send),
                    eh_after_send := append_handler (eh_after_send hs) (Usr Evt_after_send),
                    eh_after_recv := append_handler (eh_after_recv hs) (Usr Evt_after_recv),
                    eh_before_close := append_handler (eh_before_close hs) (Usr Evt_before_close),
                    eh_after_close := append_handler (eh_after_close hs) (Usr Evt_after_close) \<rparr>;
           cl = uo_tcp_client_set_opt_use_flow_send_recv_close (cl\<lparr> tl_evt_handlers := hs \<rparr>)
       in Some (Inr (\<lparr> hl_user_data = uo_hashtbl_create_at 0, hl_evt_handlers = no_http_handlers \<rparr>, cl)))"

text \<open>Connecting is left to the TCP client, with the results of the socket calls as input.\<close>

definition uo_http_client_connect ::
  "bool \<Rightarrow> 32 word \<Rightarrow> bool \<Rightarrow> ('a http_func, http_ptr) uo_tcp_client
     \<Rightarrow> ('a http_func, http_ptr) uo_tcp_conn option \<times> 32 word list" where
  "uo_http_client_connect addr_ok sockfd connect_ok cl = uo_tcp_client_connect addr_ok sockfd connect_ok cl"

definition uo_http_client_get_user_data :: "'a uo_http_client \<Rightarrow> string \<Rightarrow> 64 word option" where
  "uo_http_client_get_user_data cl key = uo_strhashtbl_get (hl_user_data cl) (Some key)"

definition uo_http_client_set_user_data :: "'a uo_http_client \<Rightarrow> string \<Rightarrow> 64 word \<Rightarrow> 'a uo_http_client run" where
  "uo_http_client_set_user_data cl key user_data =
     run_bind (uo_strhashtbl_set (hl_user_data cl) (Some key) user_data) (\<lambda>t.
       Some (Inr (cl\<lparr> hl_user_data := t \<rparr>)))"

end
