(* ===== verification/Http_Exchange.thy ===== *)
theory Http_Exchange
  imports Http_Flow Http_Client
begin

text \<open>
  How an HTTP client behaves on a connection: it opens, the request that the application composes
  is sent, the response that arrives is parsed and handed to the application, and the connection
  is closed.
\<close>

section \<open>Steps of the client\<close>

lemma on_client [simp]:
  fixes s :: "'a client"
  shows "http_client (on s c ds fs) = http_client s"
  by (simp add: on_def)

text \<open>
  The TCP connection refers to its HTTP connection, and the application has registered the
  function \<open>a\<close>, which composes the request, and \<open>b\<close>, which takes the response.
\<close>

definition refers :: "('a http_func, http_ptr) uo_tcp_conn \<Rightarrow> bool" where
  "refers c \<longleftrightarrow> (\<exists>p. uo_tcp_conn_get_user_data c ''http_conn'' = Some p \<and> p \<noteq> 0)"

lemma refers_http_of: "refers c \<Longrightarrow> http_conn s = Some h \<Longrightarrow> http_of s c = Some (Inr h)"
  by (auto simp: refers_def http_of_def)

lemma refers_cong:
  "tc_user_data c' = tc_user_data c \<Longrightarrow> tc_shared_user_data c' = tc_shared_user_data c \<Longrightarrow> refers c' = refers c"
  by (simp add: refers_def uo_tcp_conn_get_user_data_def cong: if_cong option.case_cong)

definition uses :: "'a client \<Rightarrow> 'a \<Rightarrow> 'a \<Rightarrow> bool" where
  "uses s a b \<longleftrightarrow> client_handlers s = no_http_handlers\<lparr> he_before_send_msg := hfunc (App a), he_after_recv_msg := hfunc (App b) \<rparr>"

lemma uses_handlers:
  assumes "uses s a b"
  shows "he_after_open (client_handlers s) = ([], [])" "he_after_recv_headers (client_handlers s) = ([], [])"
    "he_after_recv_msg (client_handlers s) = hfunc (App b)" "he_before_send_msg (client_handlers s) = hfunc (App a)"
    "he_after_send_msg (client_handlers s) = ([], [])" "he_before_close (client_handlers s) = ([], [])"
    "he_after_close (client_handlers s) = ([], [])"
  using assms by (simp_all add: uses_def no_http_handlers_def)

definition client_flow :: "('a http_func, http_ptr) uo_tcp_conn_evt_handlers \<Rightarrow> bool" where
  "client_flow hs \<longleftrightarrow> eh_after_open hs = ([], [Usr Evt_after_open, Next_send_cb_func])
     \<and> eh_before_send hs = ([], [Usr Evt_before_send]) \<and> eh_after_send hs = ([], [Usr Evt_after_send, Next_recv_cb_func])
     \<and> eh_before_recv hs = ([], []) \<and> eh_after_recv hs = ([], [Usr Evt_after_recv, Next_close_cb_func])
     \<and> eh_before_close hs = ([], [Usr Evt_before_close]) \<and> eh_after_close hs = ([], [Usr Evt_after_close])"

lemma client_created_flow:
  assumes "uo_http_client_create hostname port addr = Some (Inr (hcl, cl))"
  shows "client_flow (tl_evt_handlers cl)" "hl_evt_handlers hcl = no_http_handlers"
  using assms
  by (auto simp: uo_http_client_create_def uo_tcp_client_set_user_data_def uo_tcp_client_create_def no_handlers_def
      append_handler_def Let_def uo_tcp_client_set_opt_use_flow_send_recv_close_def client_flow_def elim!: run_bind_InrE)

lemma leads_pass_client:
  fixes s :: "'a client"
  assumes "http_conn s = Some h"
  shows "leads (client_func app) (on s c [Ptr HttpConn] (Usr Pass_cb_to_tcp # fs)) (on s c [TcpConn] fs)"
  using assms by (intro on_step) (simp add: uo_http_conn_pass_cb_to_tcp_client_def pop_http_def on_cb)

section \<open>Sending the request\<close>

text \<open>A function of the application that composes a request with the given text.\<close>

definition app_requests :: "('a \<Rightarrow> 'a client \<Rightarrow> 'a client run) \<Rightarrow> 'a \<Rightarrow> string \<Rightarrow> bool" where
  "app_requests app a request \<longleftrightarrow> (\<forall>s h. http_conn s = Some h \<longrightarrow> cb_data s = [Ptr HttpConn]
     \<longrightarrow> hc_http_req h = uo_http_msg_create_at UO_HTTP_MSG_TYPE_REQUEST UO_HTTP_MSG_ROLE_SEND
     \<longrightarrow> (\<exists>req. app a s = Some (Inr (s\<lparr> http_conn := Some (h\<lparr> hc_http_req := req \<rparr>) \<rparr>)) \<and> reply_ok req request))"

lemma leads_write_request:
  fixes s :: "'a client"
  assumes "http_conn s = Some h" and "reply_ok (hc_http_req h) request" and "buf_rel (tc_wbuf c) []"
  shows "\<exists>wb. leads (client_func app) (on s c [Ptr HttpConn] (Usr Before_send_msg # fs))
      (on (s\<lparr> http_conn := Some (h\<lparr> hc_buf := uo_buf_set_ptr_abs (hc_buf h) 0 \<rparr>) \<rparr>) (c\<lparr> tc_wbuf := wb \<rparr>) [Ptr HttpConn] fs)
    \<and> buf_rel wb request"
proof -
  obtain hs where hs: "hdrs_rel (hc_http_req h) hs" "message_text (hc_http_req h) hs = request"
    "length (start_line_text (hc_http_req h)) + length (headers_text hs) < 2 ^ 31"
    using assms(2) by (auto simp: reply_ok_def)
  obtain wb where wb: "uo_http_msg_write_to_buf 64 (hc_http_req h) (hc_buf h) (tc_wbuf c)
      = Some (Inr (uo_buf_set_ptr_abs (hc_buf h) 0, wb))" "buf_rel wb request"
    using write_to_buf_text [OF _ hs(1) assms(3) _ hs(3), of "hc_buf h"] assms(2) hs(2) by (auto simp: reply_ok_def)
  have "leads (client_func app) (on s c [Ptr HttpConn] (Usr Before_send_msg # fs))
      (on (s\<lparr> http_conn := Some (h\<lparr> hc_buf := uo_buf_set_ptr_abs (hc_buf h) 0 \<rparr>) \<rparr>) (c\<lparr> tc_wbuf := wb \<rparr>) [Ptr HttpConn] fs)"
    using assms(2) by (intro on_step) (simp add: uo_http_client_before_send_request_def the_http_def assms(1) reply_ok_def wb(1) on_cb)
  with wb(2) show ?thesis by blast
qed

text \<open>From the request for sending until the request is sent.\<close>

lemma leads_requested:
  fixes s :: "'a client"
  assumes "refers c" and "http_conn s = Some h" and "uses s a b" and "app_requests app a request"
    and "hc_http_req h = uo_http_msg_create_at UO_HTTP_MSG_TYPE_REQUEST UO_HTTP_MSG_ROLE_SEND"
    and "client_flow (tc_evt_handlers c)" and "tc_state c = CHR ''s''" and "buf_rel (tc_wbuf c) []"
    and "list_all (\<lambda>w. 0 < w) (writes s)" and "length request \<le> length (writes s)"
  shows "\<exists>h' wb ws. leads (client_func app) (on s c [TcpConn] [Advance])
      (on (s\<lparr> http_conn := Some h', sent := sent s @ request, writes := ws \<rparr>)
        (c\<lparr> tc_wbuf := wb, tc_state := CHR ''r'' \<rparr>) [TcpConn] [After_send, Advance])
    \<and> hc_http_res h' = hc_http_res h"
proof -
  let ?u = "client_func app" and ?c = "c\<lparr> tc_state := NUL \<rparr>" and ?fs = "[Usr Before_send_msg, Usr Pass_cb_to_tcp, Send]"
  have F: "eh_before_send (tc_evt_handlers c) = ([], [Usr Evt_before_send])"
    "eh_after_send (tc_evt_handlers c) = ([], [Usr Evt_after_send, Next_recv_cb_func])"
    using assms(6) by (simp_all add: client_flow_def)
  have R: "refers (c\<lparr> tc_state := st, tc_wbuf := wb \<rparr>)" "refers (c\<lparr> tc_state := st \<rparr>)" for wb st
    using assms(1) refers_cong [of "c\<lparr> tc_state := st, tc_wbuf := wb \<rparr>" c] refers_cong [of "c\<lparr> tc_state := st \<rparr>" c] by simp_all
  obtain req where req: "app a (on s ?c [Ptr HttpConn] ?fs)
      = Some (Inr ((on s ?c [Ptr HttpConn] ?fs)\<lparr> http_conn := Some (h\<lparr> hc_http_req := req \<rparr>) \<rparr>))" "reply_ok req request"
    using assms(4) [unfolded app_requests_def, rule_format, of "on s ?c [Ptr HttpConn] ?fs" h] assms(2,5) by auto
  define h1 where "h1 = h\<lparr> hc_http_req := req \<rparr>"
  let ?s1 = "s\<lparr> http_conn := Some h1 \<rparr>"
  have w: "reply_ok (hc_http_req h1) request" "buf_rel (tc_wbuf ?c) []" using req(2) assms(8) by (simp_all add: h1_def)
  obtain wb where wb: "leads ?u (on ?s1 ?c [Ptr HttpConn] ?fs)
      (on (?s1\<lparr> http_conn := Some (h1\<lparr> hc_buf := uo_buf_set_ptr_abs (hc_buf h1) 0 \<rparr>) \<rparr>) (?c\<lparr> tc_wbuf := wb \<rparr>)
        [Ptr HttpConn] [Usr Pass_cb_to_tcp, Send])" "buf_rel wb request"
    using leads_write_request [OF _ w(1,2), of ?s1] by auto
  define h2 where "h2 = h1\<lparr> hc_buf := uo_buf_set_ptr_abs (hc_buf h1) 0 \<rparr>"
  let ?s2 = "s\<lparr> http_conn := Some h2 \<rparr>" and ?c2 = "?c\<lparr> tc_wbuf := wb \<rparr>"
  obtain ws where ws: "send_loop (writes ?s2) request (sent ?s2) = Some (True, sent s @ request, ws)"
    using send_loop_all [OF assms(9,10), of "sent s"] by auto
  let ?s3 = "?s2\<lparr> sent := sent s @ request, writes := ws \<rparr>" and ?gs = "[Next_recv_cb_func, After_send, Advance]"
  have "leads ?u (on s c [TcpConn] [Advance]) (on s ?c [TcpConn] [Usr Evt_before_send, Send])"
    using leads_advance_send [of c "[Usr Evt_before_send]" ?u s "[]" "[]"] F(1) assms(7) by simp
  also have "leads ?u \<dots> (on s ?c [Ptr HttpConn] (Usr (App a) # ?fs))"
    by (rule on_step) (simp add: tcp_client_evt_handler_before_send_def pop_tcp_def on_cb refers_http_of [OF R(2)] assms(2)
        uses_handlers [OF assms(3)])
  also have "leads ?u \<dots> (on ?s1 ?c [Ptr HttpConn] ?fs)"
    using req(1) by (intro on_step) (simp add: on_cb h1_def)
  also have "leads ?u \<dots> (on ?s2 ?c2 [Ptr HttpConn] [Usr Pass_cb_to_tcp, Send])"
    using wb(1) by (simp add: h2_def)
  also have "leads ?u \<dots> (on ?s2 ?c2 [TcpConn] [Send])" by (rule leads_pass_client [of _ h2]) simp
  also have "leads ?u \<dots> (on ?s3 ?c2 [TcpConn] (Usr Evt_after_send # ?gs))"
    using leads_send [of ?c2 request ?s2 "sent s @ request" ws "[Usr Evt_after_send, Next_recv_cb_func]" ?u "[]" "[]"] wb(2) ws F(2)
    by simp
  also have "leads ?u \<dots> (on ?s3 ?c2 [Ptr HttpConn] (Usr Pass_cb_to_tcp # ?gs))"
    by (rule on_step) (simp add: tcp_client_evt_handler_after_send_def pop_tcp_def on_cb refers_http_of [OF R(1)]
        uses_handlers [OF assms(3)])
  also have "leads ?u \<dots> (on ?s3 ?c2 [TcpConn] ?gs)" by (rule leads_pass_client [of _ h2]) simp
  also have "leads ?u \<dots> (on ?s3 (?c2\<lparr> tc_state := CHR ''r'' \<rparr>) [TcpConn] [After_send, Advance])"
    using leads_next_recv [of ?u ?s3 ?c2 "[]"] next_from_none(2) [of ?c2] by simp
  also have "?c2\<lparr> tc_state := CHR ''r'' \<rparr> = c\<lparr> tc_wbuf := wb, tc_state := CHR ''r'' \<rparr>" by (cases c) simp
  finally show ?thesis by (intro exI [of _ h2] exI [of _ wb] exI [of _ ws]) (simp add: h2_def h1_def)
qed

section \<open>Receiving the response\<close>

text \<open>A complete response that arrives is parsed and handed to the application.\<close>

lemma leads_response:
  fixes s :: "'a client"
  assumes "refers c" and "http_conn s = Some h" and "uses s a b"
    and "hc_http_res h = uo_http_msg_create_at UO_HTTP_MSG_TYPE_RESPONSE UO_HTTP_MSG_ROLE_RECV"
    and "receive_msg UO_HTTP_MSG_TYPE_RESPONSE (tc_rbuf c) = Some (Inr (msg, rb))"
  shows "leads (client_func app) (on s c [TcpConn] (Usr Evt_after_recv # fs))
    (on (s\<lparr> http_conn := Some (h\<lparr> hc_http_res := msg \<rparr>) \<rparr>) (c\<lparr> tc_rbuf := rb \<rparr>)
      [Ptr HttpConn] (Usr (App b) # Usr Pass_cb_to_tcp # fs))"
proof -
  let ?c = "uo_http_msg_create_at UO_HTTP_MSG_TYPE_RESPONSE UO_HTTP_MSG_ROLE_RECV"
  obtain m1 m2 b2 where p: "uo_http_msg_parse_start_line ?c (tc_rbuf c) = Inr (True, m1)"
    "uo_http_msg_parse_headers m1 (tc_rbuf c) = Some (Inr (True, m2, b2))"
    "uo_http_msg_parse_body m2 b2 = Some (Inr (True, msg, rb))"
    using assms(5) by (auto simp: receive_msg_def elim!: run_bind_InrE split: if_splits)
  have f: "\<not> hm_has_start_line ?c" "\<not> hm_has_headers m1"
    using parse_start_line_keeps [OF p(1)] by (simp_all add: uo_http_msg_create_at_def)
  show ?thesis
    by (rule on_step) (simp add: tcp_client_evt_handler_after_recv_def refers_http_of [OF assms(1)] assms(2,4) p f Let_def
        to_http_client_def on_cb uses_handlers [OF assms(3)])
qed

text \<open>After the response the connection is closed, and what was allocated for it is freed.\<close>

lemma leads_closed:
  fixes s :: "'a client"
  assumes "refers c" and "http_conn s = Some h" and "uses s a b" and "client_flow (tc_evt_handlers c)" and "tc_state c = NUL"
  shows "\<exists>s'. leads (client_func app) (on s c [TcpConn] [Next_close_cb_func, Advance]) s' \<and> phase s' = Running \<and> cb_funcs s' = []
    \<and> conn s' = None \<and> http_conn s' = None \<and> closes s' = closes s @ [tc_sockfd c, tc_sockfd c]
    \<and> released s' = released s @ uo_http_conn_destroy h \<and> sent s' = sent s"
proof -
  let ?u = "client_func app"
  have F: "eh_before_close (tc_evt_handlers c) = ([], [Usr Evt_before_close])" "eh_after_close (tc_evt_handlers c) = ([], [Usr Evt_after_close])"
    using assms(4) by (simp_all add: client_flow_def)
  let ?s = "s\<lparr> closes := closes s @ [tc_sockfd c] \<rparr>"
  let ?t = "?s\<lparr> released := released s @ uo_http_conn_destroy h, http_conn := None \<rparr>"
  note H = uses_handlers [OF assms(3)]
  have "leads ?u (on s c [TcpConn] [Next_close_cb_func, Advance]) (on s (c\<lparr> tc_state := CHR ''c'' \<rparr>) [TcpConn] [Advance])"
    using next_from_none(3) [OF assms(5)] by (intro on_step) (simp add: uo_tcp_conn_next_close_cb_func_def on_upds)
  also have "leads ?u \<dots> (on s c [TcpConn] [Usr Evt_before_close, Close])"
    using leads_advance_close [of "c\<lparr> tc_state := CHR ''c'' \<rparr>" "[Usr Evt_before_close]" ?u s "[]" "[]"] F(1)
      state_again [OF assms(5)] by simp
  also have "leads ?u \<dots> (on s c [Ptr HttpConn] [Usr Pass_cb_to_tcp, Close])"
    by (rule on_step) (simp add: tcp_client_evt_handler_before_close_def pop_tcp_def on_cb refers_http_of [OF assms(1)] assms(2) H)
  also have "leads ?u \<dots> (on s c [TcpConn] [Close])" by (rule leads_pass_client [OF assms(2)])
  also have "leads ?u \<dots> (on ?s c [TcpConn] [Usr Evt_after_close, After_close])"
    using F(2) by (intro on_step) (simp add: uo_tcp_conn_close_def Let_def on_upds on_append)
  also have "leads ?u \<dots> (on ?s c [Ptr HttpConn] [Usr Http_after_close, After_close])"
    by (rule on_step) (simp add: tcp_client_evt_handler_after_close_def pop_tcp_def on_cb refers_http_of [OF assms(1)] assms(2) H)
  also have "leads ?u \<dots> (on ?t c [TcpConn] [After_close])"
    by (rule on_step) (simp add: uo_http_client_after_close_def pop_http_def on_cb assms(2) Let_def)
  also have "leads ?u \<dots> (uo_tcp_conn_destroy (on ?t c [TcpConn] []) c)"
    by (rule on_step) (simp add: uo_tcp_conn_after_close_def)
  finally show ?thesis
    by (intro exI [of _ "uo_tcp_conn_destroy (on ?t c [TcpConn] []) c"]) (simp add: uo_tcp_conn_destroy_def on_def)
qed

lemma client_more:
  fixes s s' :: "'a client"
  assumes "tcp.more s' = tcp.more s"
  shows "http_conn s' = http_conn s" "http_client s' = http_client s" "released s' = released s"
  using assms by (cases s; cases s'; simp)+

section \<open>Opening a connection\<close>

text \<open>A client that has sent its request and waits for the response.\<close>

definition awaits :: "'a client \<Rightarrow> ('a http_func, http_ptr) uo_tcp_conn \<Rightarrow> 'a \<Rightarrow> 'a \<Rightarrow> bool" where
  "awaits s c a b \<longleftrightarrow> waiting s c \<and> refers c \<and> uses s a b \<and> client_flow (tc_evt_handlers c) \<and> tc_state c = NUL
     \<and> buf_rel (tc_rbuf c) [] \<and> (\<exists>h. http_conn s = Some h
         \<and> hc_http_res h = uo_http_msg_create_at UO_HTTP_MSG_TYPE_RESPONSE UO_HTTP_MSG_ROLE_RECV)"

lemma client_opened:
  fixes s :: "'a client"
  assumes "c = uo_tcp_conn_create_for_client fd shared hs" and "client_flow hs"
    and "http_addr s \<noteq> 0" and "http_addr s \<noteq> UO_HASHTBL_TAG_REMOVED" and "uses s a b" and "app_requests app a request"
    and "list_all (\<lambda>w. 0 < w) (writes s)" and "length request \<le> length (writes s)" and "ctls s = True # oks"
  shows "\<exists>s' c'. leads (client_func app) (uo_tcp_conn_open c s) s' \<and> awaits s' c' a b \<and> sent s' = sent s @ request
    \<and> closes s' = closes s \<and> tc_sockfd c' = fd \<and> 0x200 \<le> bf_size (tc_rbuf c') \<and> bf_size (tc_rbuf c') \<le> 0x400"
proof -
  let ?u = "client_func app" and ?h = uo_http_conn_create_for_client
  have c: "tc_user_data c = uo_hashtbl_create_at 0" "tc_evt_handlers c = hs" "tc_state c = NUL"
    "tc_rbuf c = uo_buf_alloc 0x200" "tc_wbuf c = uo_buf_alloc 0x200" "bf_size (uo_buf_alloc 0x200) = 0x200"
    "tc_sockfd c = fd" "length (bf_data (uo_buf_alloc 0x200)) = 0x200"
    using assms(1) by (simp_all add: uo_tcp_conn_create_for_client_def UO_TCP_BUF_SIZE_def uo_buf_alloc_def)
  obtain t where t: "uo_tcp_conn_set_user_data c ''http_conn'' (http_addr s) = Some (Inr (c\<lparr> tc_user_data := t \<rparr>))"
    "uo_tcp_conn_get_user_data (c\<lparr> tc_user_data := t \<rparr>) ''http_conn'' = Some (http_addr s)"
    using user_data_set [OF c(1) assms(3,4)] by blast
  let ?c = "c\<lparr> tc_user_data := t \<rparr>" and ?s = "s\<lparr> http_conn := Some ?h \<rparr>"
  have R: "refers ?c" using t(2) assms(3) by (simp add: refers_def)
  have R': "refers (?c\<lparr> tc_state := CHR ''s'' \<rparr>)" using R refers_cong [of "?c\<lparr> tc_state := CHR ''s'' \<rparr>" ?c] by simp
  have U: "uses ?s a b" using assms(5) by (simp add: uses_def)
  have "uo_tcp_conn_open c s = on s c [TcpConn] (Usr Evt_after_open # [Next_send_cb_func, Advance])"
    using assms(2) c(2) by (simp add: uo_tcp_conn_open_def on_def client_flow_def)
  also have "leads ?u \<dots> (on ?s ?c [Ptr HttpConn] (Usr Pass_cb_to_tcp # [Next_send_cb_func, Advance]))"
    by (rule on_step) (simp add: tcp_client_evt_handler_after_open_def pop_tcp_def on_cb t(1) uses_handlers [OF assms(5)] Let_def)
  also have "leads ?u \<dots> (on ?s ?c [TcpConn] [Next_send_cb_func, Advance])" by (rule leads_pass_client [of _ ?h]) simp
  also have "leads ?u \<dots> (on ?s (?c\<lparr> tc_state := CHR ''s'' \<rparr>) [TcpConn] [Advance])"
    using leads_next_send [of ?u ?s ?c "[]"] next_from_none(1) [of ?c] c(3) by simp
  finally have 1: "leads ?u (uo_tcp_conn_open c s) (on ?s (?c\<lparr> tc_state := CHR ''s'' \<rparr>) [TcpConn] [Advance])" .
  obtain h wb ws where h: "leads ?u (on ?s (?c\<lparr> tc_state := CHR ''s'' \<rparr>) [TcpConn] [Advance])
      (on (?s\<lparr> http_conn := Some h, sent := sent s @ request, writes := ws \<rparr>)
        (?c\<lparr> tc_state := CHR ''s'', tc_wbuf := wb, tc_state := CHR ''r'' \<rparr>) [TcpConn] [After_send, Advance])"
    "hc_http_res h = hc_http_res ?h"
    using leads_requested [OF R' _ U assms(6), of ?h] assms(2,7,8) c(2,5) buf_rel_alloc [of "0x200"]
    by (auto simp: uo_http_conn_create_for_client_def)
  let ?c3 = "?c\<lparr> tc_state := CHR ''s'', tc_wbuf := wb, tc_state := CHR ''r'' \<rparr>"
  let ?s3 = "?s\<lparr> http_conn := Some h, sent := sent s @ request, writes := ws \<rparr>"
  obtain rb s' where s': "leads ?u (on ?s3 ?c3 [TcpConn] [After_send, Advance]) s'" "waiting s' ((emptied ?c3)\<lparr> tc_rbuf := rb \<rparr>)"
    "buf_rel rb []" "sent s' = sent ?s3" "closes s' = closes ?s3" "tcp.more s' = tcp.more ?s3" "0x200 \<le> bf_size rb" "bf_size rb \<le> 0x400"
    using leads_wait_again [of ?c3 ?s3 oks ?u] assms(2,9) c(2,4,6,8) by (auto simp: client_flow_def)
  let ?c' = "(emptied ?c3)\<lparr> tc_rbuf := rb \<rparr>"
  note M = client_more [OF s'(6)]
  have "refers ?c'" using R refers_cong [of ?c' ?c] by simp
  then have "awaits s' ?c' a b"
    using s'(2,3) assms(2,5) c(2) M(1,2) h(2) by (simp add: awaits_def uses_def uo_http_conn_create_for_client_def)
  moreover have "leads ?u (uo_tcp_conn_open c s) s'" using leads_trans [OF leads_trans [OF 1 h(1)] s'(1)] .
  ultimately show ?thesis using s'(4,5,7,8) c(7) by (intro exI [of _ s'] exI [of _ ?c']) simp
qed

section \<open>The response\<close>

lemma client_answered:
  fixes s1 :: "'a client"
  assumes "awaits s1 c1 a b" and "map_of status_strs st = Some sstr" and "version_str ver = Some v" and "wire_ok rhs content_type content"
    and "response = v @ '' '' @ sstr @ CRLF @ headers_text (rhs @ content_hdrs content_type content) @ CRLF @ content"
    and "length response \<le> bf_size (tc_rbuf c1)" and "length response \<le> 0x200" and "\<And>s. app b s = Some (Inr s)"
  shows "\<exists>k s2 h s3. leads (client_func app) (uo_io_accept_async_io (EPOLLIN (Some response)) s1) s2
    \<and> hd (cb_funcs s2) = Usr (App b) \<and> cb_data s2 = [Ptr HttpConn] \<and> http_conn s2 = Some h
    \<and> hm_status (hc_http_res h) = st \<and> hm_ver (hc_http_res h) = ver \<and> hm_body (hc_http_res h) = Some content
    \<and> hdrs_rel (hc_http_res h) (rhs @ content_hdrs content_type content)
    \<and> run_cb (client_func app) k (uo_io_accept_async_io (EPOLLIN (Some response)) s1) = Some (Inr s3)
    \<and> phase s3 = Ended \<and> conn s3 = None \<and> http_conn s3 = None \<and> closes s3 = closes s1 @ [tc_sockfd c1, tc_sockfd c1]"
proof -
  let ?u = "client_func app" and ?H = "rhs @ content_hdrs content_type content"
  obtain h1 where h1: "waiting s1 c1" "refers c1" "uses s1 a b" "client_flow (tc_evt_handlers c1)" "tc_state c1 = NUL"
    "buf_rel (tc_rbuf c1) []" "http_conn s1 = Some h1"
    "hc_http_res h1 = uo_http_msg_create_at UO_HTTP_MSG_TYPE_RESPONSE UO_HTTP_MSG_ROLE_RECV"
    using assms(1) by (auto simp: awaits_def)
  let ?c2 = "received response c1" and ?s2 = "s1\<lparr> event := None \<rparr>"
  have resp: "response \<noteq> []" "length response \<le> bf_size (tc_rbuf c1)" "length (headers_text ?H) < 2 ^ 31" "length content < 2 ^ 61"
    using assms(5-7) by (auto simp: CRLF_def)
  have hs: "eh_after_recv (tc_evt_handlers c1) = ([], [Usr Evt_after_recv, Next_close_cb_func])"
    using h1(4) by (simp add: client_flow_def)
  note L = leads_received [OF h1(1,6) resp(1) _ hs]
  have c2: "buf_rel (tc_rbuf ?c2) response" "refers ?c2" "uses ?s2 a b" "tc_evt_handlers ?c2 = tc_evt_handlers c1"
    "tc_state ?c2 = NUL" "tc_sockfd ?c2 = tc_sockfd c1"
    using L(2) resp(2) h1(2,3,5) refers_cong [of ?c2 c1] by (simp_all add: received_def uses_def)
  have size: "0 < bf_size (tc_rbuf ?c2)" using buf_relD [OF c2(1)] resp(1) by (cases response) auto
  obtain msg rb where msg: "receive_msg UO_HTTP_MSG_TYPE_RESPONSE (tc_rbuf ?c2) = Some (Inr (msg, rb))"
    "hdrs_rel msg ?H" "hm_status msg = st" "hm_ver msg = ver" "hm_body msg = Some content"
    using response_received [OF assms(2-4) resp(3,4) c2(1) [unfolded assms(5)] size [unfolded assms(5)]] assms(5) by auto
  let ?h = "h1\<lparr> hc_http_res := msg \<rparr>" and ?c3 = "?c2\<lparr> tc_rbuf := rb \<rparr>" and ?fs = "[Next_close_cb_func, Advance]"
  let ?t = "?s2\<lparr> http_conn := Some ?h \<rparr>"
  let ?s3 = "on ?t ?c3 [Ptr HttpConn] (Usr (App b) # Usr Pass_cb_to_tcp # ?fs)"
  have "leads ?u (uo_io_accept_async_io (EPOLLIN (Some response)) s1) (on ?s2 ?c2 [TcpConn] [Usr Evt_after_recv, Next_close_cb_func, Advance])"
    using L(1) [of ?u] resp(2) by simp
  also have "leads ?u \<dots> ?s3"
    using h1(7) by (intro leads_response [OF c2(2) _ c2(3) h1(8) msg(1)]) simp
  finally have l3: "leads ?u (uo_io_accept_async_io (EPOLLIN (Some response)) s1) ?s3" .
  have "leads ?u ?s3 (on ?t ?c3 [Ptr HttpConn] (Usr Pass_cb_to_tcp # ?fs))"
    by (rule on_step) (simp add: assms(8))
  also have "leads ?u \<dots> (on ?t ?c3 [TcpConn] ?fs)" by (rule leads_pass_client [of _ ?h]) simp
  finally have l4: "leads ?u ?s3 (on ?t ?c3 [TcpConn] ?fs)" .
  have R: "refers ?c3" "uses ?t a b" "client_flow (tc_evt_handlers ?c3)" "tc_state ?c3 = NUL" "http_conn ?t = Some ?h"
    using c2 h1(4) refers_cong [of ?c3 ?c2] by (simp_all add: uses_def)
  obtain s4 where s4: "leads ?u (on ?t ?c3 [TcpConn] ?fs) s4" "phase s4 = Running" "cb_funcs s4 = []"
    "conn s4 = None" "http_conn s4 = None" "closes s4 = closes s1 @ [tc_sockfd c1, tc_sockfd c1]"
    using leads_closed [OF R(1,5,2-4), of app] c2(6) by auto
  have "leads ?u s4 (s4\<lparr> phase := Ended \<rparr>)"
    unfolding leads_def using s4(2,3) by (intro exI [of _ 1]) (simp add: run_cb.simps [of ?u "Suc _" s4] invoke_def)
  from leads_stops [OF leads_trans [OF leads_trans [OF leads_trans [OF l3 l4] s4(1)] this]]
  obtain k where "run_cb ?u k (uo_io_accept_async_io (EPOLLIN (Some response)) s1) = Some (Inr (s4\<lparr> phase := Ended \<rparr>))" by auto
  then show ?thesis using l3 msg(2-5) s4(4-6)
    by (intro exI [of _ k] exI [of _ ?s3] exI [of _ ?h] exI [of _ "s4\<lparr> phase := Ended \<rparr>"]) simp
qed

section \<open>Properties\<close>

text \<open>
  C7: A client exchanges a request for a response. When its connection is opened, exactly the
  text of the request that the application composes goes to the socket, however the writes
  split it. When the complete response arrives, the application's function is run on a
  connection whose response has the status, the version, the headers and the content of the
  text that arrived; and if that function leaves the connection alone, the connection is closed
  and freed afterwards, with everything that its messages refer to.
\<close>

theorem uo_http_client_exchange:
  assumes "c = uo_tcp_conn_create_for_client fd shared hs" and "client_flow hs"
    and "http_addr s \<noteq> 0" and "http_addr s \<noteq> UO_HASHTBL_TAG_REMOVED" and "uses s a b" and "app_requests app a request"
    and "list_all (\<lambda>w. 0 < w) (writes s)" and "length request \<le> length (writes s)" and "ctls s = True # oks"
    and "map_of status_strs st = Some sstr" and "version_str ver = Some v" and "wire_ok rhs content_type content"
    and "response = v @ '' '' @ sstr @ CRLF @ headers_text (rhs @ content_hdrs content_type content) @ CRLF @ content"
    and "length response \<le> 0x200" and "\<And>s. app b s = Some (Inr s)"
  shows "\<exists>n s1 k s2 h s3. run_cb (client_func app) n (uo_tcp_conn_open c s) = Some (Inr s1)
    \<and> phase s1 = Waiting \<and> sent s1 = sent s @ request
    \<and> leads (client_func app) (uo_io_accept_async_io (EPOLLIN (Some response)) s1) s2
    \<and> hd (cb_funcs s2) = Usr (App b) \<and> cb_data s2 = [Ptr HttpConn] \<and> http_conn s2 = Some h
    \<and> hm_status (hc_http_res h) = st \<and> hm_ver (hc_http_res h) = ver \<and> hm_body (hc_http_res h) = Some content
    \<and> hdrs_rel (hc_http_res h) (rhs @ content_hdrs content_type content)
    \<and> run_cb (client_func app) k (uo_io_accept_async_io (EPOLLIN (Some response)) s1) = Some (Inr s3)
    \<and> phase s3 = Ended \<and> conn s3 = None \<and> http_conn s3 = None \<and> closes s3 = closes s @ [fd, fd]"
proof -
  let ?u = "client_func app"
  obtain s1 c1 where s1: "leads ?u (uo_tcp_conn_open c s) s1" "awaits s1 c1 a b" "sent s1 = sent s @ request"
    "closes s1 = closes s" "tc_sockfd c1 = fd" "0x200 \<le> bf_size (tc_rbuf c1)"
    using client_opened [OF assms(1-9)] by blast
  have p: "phase s1 = Waiting" using s1(2) by (auto simp: awaits_def waiting_def)
  then obtain n where n: "run_cb ?u n (uo_tcp_conn_open c s) = Some (Inr s1)" using leads_stops [OF s1(1)] by auto
  have len: "length response \<le> bf_size (tc_rbuf c1)" using assms(14) s1(6) by simp
  obtain k s2 h s3 where "leads ?u (uo_io_accept_async_io (EPOLLIN (Some response)) s1) s2"
    "hd (cb_funcs s2) = Usr (App b)" "cb_data s2 = [Ptr HttpConn]" "http_conn s2 = Some h"
    "hm_status (hc_http_res h) = st" "hm_ver (hc_http_res h) = ver" "hm_body (hc_http_res h) = Some content"
    "hdrs_rel (hc_http_res h) (rhs @ content_hdrs content_type content)"
    "run_cb ?u k (uo_io_accept_async_io (EPOLLIN (Some response)) s1) = Some (Inr s3)"
    "phase s3 = Ended" "conn s3 = None" "http_conn s3 = None" "closes s3 = closes s1 @ [tc_sockfd c1, tc_sockfd c1]"
    using client_answered [where app = app, OF s1(2) assms(10-13) len assms(14,15)] by blast
  then show ?thesis using n p s1(3-5)
    by (intro exI [of _ n] exI [of _ s1] exI [of _ k] exI [of _ s2] exI [of _ h] exI [of _ s3]) simp
qed

section \<open>An example\<close>

text \<open>A client that asks for a greeting and looks at the response.\<close>

primrec ask :: "bool \<Rightarrow> bool client \<Rightarrow> bool client run" where
  "ask True s = run_bind (Some (the_http s)) (\<lambda>h.
     run_bind (compose_request UO_HTTP_GET ''/hello/world'' UO_HTTP_VER_1_1 [(''host'', ''uo'')] ''text/plain'' [] (hc_http_req h)) (\<lambda>req.
       Some (Inr (s\<lparr> http_conn := Some (h\<lparr> hc_http_req := req \<rparr>) \<rparr>))))"
| "ask False s = Some (Inr s)"

definition ask_handlers :: "(bool http_func, http_ptr) uo_tcp_conn_evt_handlers" where
  "ask_handlers = \<lparr> eh_after_open = ([], [Usr Evt_after_open, Next_send_cb_func]), eh_before_recv = ([], []),
     eh_after_recv = ([], [Usr Evt_after_recv, Next_close_cb_func]), eh_before_send = ([], [Usr Evt_before_send]),
     eh_after_send = ([], [Usr Evt_after_send, Next_recv_cb_func]), eh_before_close = ([], [Usr Evt_before_close]),
     eh_after_close = ([], [Usr Evt_after_close]) \<rparr>"

definition ask_conn :: "(bool http_func, http_ptr) uo_tcp_conn" where
  "ask_conn = uo_tcp_conn_create_for_client 5 (uo_hashtbl_create_at 0) ask_handlers"

definition ask_start :: "bool client" where
  "ask_start = \<lparr> conn = None, cb_data = [], cb_funcs = [], phase = Ended, sent = [], closes = [], closing = [],
     writes = replicate 100 7, ctls = [True], event = None, http_conn = None, http_addr = 0x1000, released = [],
     http_client = \<lparr> hl_user_data = uo_hashtbl_create_at 0,
       hl_evt_handlers = no_http_handlers\<lparr> he_before_send_msg := hfunc (App True), he_after_recv_msg := hfunc (App False) \<rparr> \<rparr> \<rparr>"

lemma ask_requests: "app_requests ask True greet_request"
  unfolding app_requests_def
proof (intro allI impI)
  fix s :: "bool client" and h
  assume h: "http_conn s = Some h" "cb_data s = [Ptr HttpConn]"
    "hc_http_req h = uo_http_msg_create_at UO_HTTP_MSG_TYPE_REQUEST UO_HTTP_MSG_ROLE_SEND"
  have w: "method_str UO_HTTP_GET = Some ''GET''" "version_str UO_HTTP_VER_1_1 = Some ''HTTP/1.1''"
    "wire_ok [(''host'', ''uo'')] ''text/plain'' []"
    unfolding plain_def wire_ok_def header_ok_def by code_simp+
  have "length (headers_text ([(''host'', ''uo'')] @ content_hdrs ''text/plain'' [])) \<le> 100" by code_simp
  then show "\<exists>req. ask True s = Some (Inr (s\<lparr> http_conn := Some (h\<lparr> hc_http_req := req \<rparr>) \<rparr>)) \<and> reply_ok req greet_request"
    using composed_request [OF w(1,2) _ w(3), of "''/hello/world''"] h by (auto simp: the_http_def greet_request_def)
qed

lemma ask_ok:
  "client_flow ask_handlers" "http_addr ask_start \<noteq> 0" "http_addr ask_start \<noteq> UO_HASHTBL_TAG_REMOVED" "uses ask_start True False"
  "list_all (\<lambda>w. 0 < w) (writes ask_start)" "length greet_request \<le> length (writes ask_start)" "ctls ask_start = True # []"
  "sent ask_start = []" "closes ask_start = []"
proof -
  have "length greet_request \<le> 100" unfolding greet_request_def by code_simp
  then show "length greet_request \<le> length (writes ask_start)" by (simp add: ask_start_def)
qed (simp_all add: client_flow_def ask_handlers_def ask_start_def uses_def UO_HASHTBL_TAG_REMOVED_def list_all_iff)

lemma greet_reply_parts:
  "map_of status_strs UO_HTTP_200 = Some ''200 OK''" "version_str UO_HTTP_VER_1_1 = Some ''HTTP/1.1''"
  "wire_ok [] ''text/plain'' ''hello, world''" "length greet_reply \<le> 0x200"
  "greet_reply = ''HTTP/1.1'' @ '' '' @ ''200 OK'' @ CRLF @ headers_text ([] @ content_hdrs ''text/plain'' ''hello, world'')
     @ CRLF @ ''hello, world''"
proof -
  show "wire_ok [] ''text/plain'' ''hello, world''" unfolding plain_def wire_ok_def header_ok_def by code_simp
qed (code_simp | use greet_lengths in simp | simp add: greet_reply_def)+

theorem uo_http_client_exchange_witness:
  "\<exists>n s1 k s2 h s3. run_cb (client_func ask) n (uo_tcp_conn_open ask_conn ask_start) = Some (Inr s1) \<and> sent s1 = greet_request
    \<and> leads (client_func ask) (uo_io_accept_async_io (EPOLLIN (Some greet_reply)) s1) s2 \<and> http_conn s2 = Some h
    \<and> hm_status (hc_http_res h) = UO_HTTP_200 \<and> hm_body (hc_http_res h) = Some ''hello, world''
    \<and> run_cb (client_func ask) k (uo_io_accept_async_io (EPOLLIN (Some greet_reply)) s1) = Some (Inr s3) \<and> phase s3 = Ended"
  using uo_http_client_exchange [OF ask_conn_def ask_ok(1-4) ask_requests ask_ok(5-7) greet_reply_parts(1-3,5,4) ask.simps(2)]
  unfolding ask_ok(8) append_Nil by blast

end
