(* ===== verification/Httpc.thy ===== *)
theory Httpc
  imports Http_Conn
begin

text \<open>
  \<^verbatim>\<open>uo_httpc/src/uo_httpc.c\<close> and \<^verbatim>\<open>uo_httpc/src/uo_http_res.c\<close>: a blocking HTTP client of its own, which
  keeps the headers of its requests, the request and the response in one buffer. The directory
  is not part of the current build, and the code calls an earlier interface of the callbacks.

  The buffer is a block of characters, \<^term>\<open>None\<close> where nothing has been written; pointers into it
  are offsets, and \<open>buf_len\<close> is its length. What the calls of the socket and TLS libraries return
  is input. Texts that the code takes as a pointer and a length are strings.
\<close>

section \<open>The client\<close>

datatype http_header = HTTP_HEADER_NONE | HTTP_HEADER_HOST | HTTP_HEADER_ACCEPT | HTTP_HEADER_CONNECTION
  | HTTP_HEADER_CONTENT_TYPE

text \<open>The values of the enumeration, which are used as sets of bits.\<close>

primrec header_flag :: "http_header \<Rightarrow> 32 word" where
  "header_flag HTTP_HEADER_NONE = 0"
| "header_flag HTTP_HEADER_HOST = 1"
| "header_flag HTTP_HEADER_ACCEPT = 2"
| "header_flag HTTP_HEADER_CONNECTION = 3"
| "header_flag HTTP_HEADER_CONTENT_TYPE = 4"

record uo_httpc =
  hp_opt_tls :: bool
  hp_opt_sem :: bool
  hp_header_flags :: "32 word"
  hp_headers_len :: nat
  hp_request_len :: nat
  hp_hostname_len :: nat
  hp_hostname :: nat
  hp_buf :: "char option list"

definition BUF_INIT_LEN :: nat where
  "BUF_INIT_LEN = 0x10000"

text \<open>Writing parts one after the other, as \<^verbatim>\<open>uo_mem_write\<close> does, with the position behind them.\<close>

fun mem_writes :: "char option list \<Rightarrow> nat \<Rightarrow> char option list list \<Rightarrow> (nat \<times> char option list) cres" where
  "mem_writes b p [] = Inr (p, b)"
| "mem_writes b p (s # ss) = res_bind (store b (int p) s) (\<lambda>b. mem_writes b (p + length s) ss)"

definition chars :: "string \<Rightarrow> char option list" where
  "chars s = map Some s"

definition uo_httpc_grow_buf :: "char option list \<Rightarrow> char option list" where
  "uo_httpc_grow_buf b = b @ replicate (length b) None"

text \<open>
  Creation, from whether the name of the host could be resolved and TLS be set up. The host's
  name is put into the buffer as the first header and turned to lower case there.
\<close>

definition uo_httpc_create :: "string \<Rightarrow> bool \<Rightarrow> bool \<Rightarrow> bool \<Rightarrow> bool \<Rightarrow> uo_httpc option cres" where
  "uo_httpc_create hostname opt_tls opt_sem gai_ok tls_ok =
     (if \<not> gai_ok then Inr None
      else
        let headers_len = length ''Host: '' + length hostname + length CRLF;
            b = replicate (max BUF_INIT_LEN headers_len) None;
            h = length ''Host: '';
            n = length hostname
        in res_bind (mem_writes b 0 [chars ''Host: '', chars hostname, chars CRLF]) (\<lambda>(p, b).
             let b = take h b @ map (map_option tolower) (take n (drop h b)) @ drop (h + n) b
             in if p \<noteq> headers_len then Inl AssertFailed
                else if opt_tls \<and> \<not> tls_ok then Inr None
                else Inr (Some \<lparr> hp_opt_tls = opt_tls, hp_opt_sem = opt_sem, hp_header_flags = header_flag HTTP_HEADER_HOST,
                       hp_headers_len = headers_len, hp_request_len = 0, hp_hostname_len = n, hp_hostname = h,
                       hp_buf = b \<rparr>)))"

text \<open>
  Setting a header. The pointer to which it is written is taken before the buffer grows, so it
  is dangling when that happens.
\<close>

definition header_name :: "http_header \<Rightarrow> string option" where
  "header_name header = (case header of
       HTTP_HEADER_ACCEPT \<Rightarrow> Some ''Accept: ''
     | HTTP_HEADER_CONNECTION \<Rightarrow> Some ''Connection: ''
     | HTTP_HEADER_CONTENT_TYPE \<Rightarrow> Some ''Content-Type: ''
     | _ \<Rightarrow> None)"

definition uo_httpc_set_header :: "uo_httpc \<Rightarrow> http_header \<Rightarrow> string \<Rightarrow> uo_httpc cres" where
  "uo_httpc_set_header hp header val =
     (case header_name header of
        None \<Rightarrow> Inr hp
      | Some name \<Rightarrow>
          if hp_header_flags hp AND header_flag header = header_flag header then Inr hp
          else
            let p = hp_headers_len hp;
                headers_len = p + length name + length val + length CRLF
            in if length (hp_buf hp) < headers_len then Inl UseAfterFree
               else res_bind (mem_writes (hp_buf hp) p [chars name, chars val, chars CRLF]) (\<lambda>(p, b).
                      if p \<noteq> headers_len then Inl AssertFailed
                      else Inr (hp\<lparr> hp_header_flags := hp_header_flags hp OR header_flag header,
                                    hp_headers_len := headers_len, hp_buf := b \<rparr>)))"

text \<open>
  The loop that doubles the buffer until it is as long as needed; it does not end for an empty
  buffer.
\<close>

function grow_until :: "nat \<Rightarrow> char option list \<Rightarrow> char option list option" where
  "grow_until need b =
     (if need \<le> length b then Some b else if b = [] then None else grow_until need (uo_httpc_grow_buf b))"
  by pat_completeness auto
termination
proof (relation "measure (\<lambda>(need, b). need - length b)", simp)
  fix need :: nat and b :: "char option list"
  assume "\<not> need \<le> length b" and "b \<noteq> []"
  then show "((need, uo_httpc_grow_buf b), need, b) \<in> measure (\<lambda>(need, b). need - length b)"
    by (cases b) (simp_all add: uo_httpc_grow_buf_def)
qed

declare grow_until.simps [simp del]

text \<open>
  The request is composed behind the headers, with a copy of them. The result is the client,
  and whether a semaphore was allocated for the caller; the request is then handed to another
  thread by way of the callback.
\<close>

definition uo_httpc_init_request :: "uo_httpc \<Rightarrow> string \<Rightarrow> string \<Rightarrow> string option \<Rightarrow> (bool \<times> uo_httpc) run" where
  "uo_httpc_init_request hp http_method path body =
     (let headers_len = hp_headers_len hp;
          body_len = (case body of None \<Rightarrow> 0 | Some t \<Rightarrow> length t)
      in case grow_until (body_len + headers_len * 2 + 0x400) (hp_buf hp) of
           None \<Rightarrow> None
         | Some b \<Rightarrow>
             run_bind (Some (mem_writes b headers_len
                 ([chars http_method, chars path, chars '' HTTP/1.1'', chars CRLF, take headers_len b]
                  @ (case body of
                       Some t \<Rightarrow> [chars ''Content-Length: '', chars (decimal (length t)), chars (CRLF @ CRLF), chars t]
                     | None \<Rightarrow> [chars CRLF])))) (\<lambda>(p, b).
               Some (Inr (hp_opt_sem hp, hp\<lparr> hp_request_len := p - headers_len, hp_buf := b \<rparr>))))"

definition uo_httpc_get :: "uo_httpc \<Rightarrow> string \<Rightarrow> (bool \<times> uo_httpc) run" where
  "uo_httpc_get hp path = uo_httpc_init_request hp ''GET '' path None"

definition uo_httpc_post :: "uo_httpc \<Rightarrow> string \<Rightarrow> string option \<Rightarrow> (bool \<times> uo_httpc) run" where
  "uo_httpc_post hp path body = uo_httpc_init_request hp ''POST '' path body"

definition uo_httpc_put :: "uo_httpc \<Rightarrow> string \<Rightarrow> string option \<Rightarrow> (bool \<times> uo_httpc) run" where
  "uo_httpc_put hp path body = uo_httpc_init_request hp ''PUT '' path body"

section \<open>The headers of a response\<close>

text \<open>
  The comparisons of the code clear one bit of every byte, so that letters of both cases are the
  same. They are made here byte by byte up to the first difference.
\<close>

primrec masked :: "char \<Rightarrow> char" where
  "masked (Char b0 b1 b2 b3 b4 b5 b6 b7) = Char b0 b1 b2 b3 b4 False b6 b7"

fun masked_match :: "string \<Rightarrow> char option list \<Rightarrow> bool cres" where
  "masked_match [] m = Inr True"
| "masked_match (c # cs) [] = Inl OutOfBounds"
| "masked_match (c # cs) (None # m) = Inl Uninitialised"
| "masked_match (c # cs) (Some d # m) = (if masked c = masked d then masked_match cs m else Inr False)"

definition HEADER_TRANSFER_ENCODING_CHUNKED :: string where
  "HEADER_TRANSFER_ENCODING_CHUNKED = ''Transfer-Encoding: chunked''"

definition HEADER_CONTENT_LENGTH :: string where
  "HEADER_CONTENT_LENGTH = ''Content-Length: ''"

text \<open>\<^verbatim>\<open>sscanf\<close> with \<^verbatim>\<open>%ld\<close>, which stops at the largest and the smallest value.\<close>

definition sscanf_ld :: "string \<Rightarrow> int option" where
  "sscanf_ld s = map_option (\<lambda>(neg, n). if neg then max (- (2 ^ 63)) (- int n) else min (2 ^ 63 - 1) (int n)) (scan_decimal s)"

text \<open>
  The loop over the lines of \<open>len\<close> bytes, from the line at \<open>hdr\<close> on. A text that ends with a
  carriage return makes the code search behind its end, with a length that is no longer
  bounded.
\<close>

function parse_header_lines :: "char option list \<Rightarrow> nat \<Rightarrow> nat \<Rightarrow> int cres" where
  "parse_header_lines m len hdr =
     (if len < hdr
      then (let rest = takeWhile (\<lambda>c. c \<noteq> Some CHR 0x0D) (drop hdr m)
            in if None \<in> set rest then Inl Uninitialised
               else if length rest = length (drop hdr m) then Inl OutOfBounds
               else Inr (- 1))
      else case find_idx (\<lambda>c. c = Some CHR 0x0D) (take (len - hdr) (drop hdr m)) of
             None \<Rightarrow> Inr (- 1)
           | Some i \<Rightarrow>
               res_bind (masked_match HEADER_TRANSFER_ENCODING_CHUNKED (drop hdr m)) (\<lambda>chunked.
                 if chunked then Inr (- 2)
                 else res_bind (masked_match HEADER_CONTENT_LENGTH (drop hdr m)) (\<lambda>found.
                   if found
                   then res_bind (block_string (drop (hdr + length HEADER_CONTENT_LENGTH) m)) (\<lambda>val.
                          Inr (case sscanf_ld val of Some n \<Rightarrow> n | None \<Rightarrow> - 1))
                   else parse_header_lines m len (hdr + i + 2))))"
  by pat_completeness auto
termination by (relation "measure (\<lambda>(m, len, hdr). Suc len - hdr)") auto

declare parse_header_lines.simps [simp del]

definition parse_response_headers :: "char option list \<Rightarrow> nat \<Rightarrow> int cres" where
  "parse_response_headers m len = parse_header_lines m len 0"

section \<open>Receiving\<close>

text \<open>
  What calls of \<^verbatim>\<open>recv\<close> or \<^verbatim>\<open>SSL_read\<close> return: bytes, no bytes at the end of the connection, an
  error after which the code may try again, or another error. A call does not return when
  nothing of this is left. More bytes than there is room for are left for the next call, and a
  call without room returns nothing.
\<close>

datatype recv_result = Received string | Would_block | Recv_error

definition RECV_RETRY_MAX_TRIES :: nat where
  "RECV_RETRY_MAX_TRIES = 3"

definition recv_call :: "nat \<Rightarrow> recv_result list \<Rightarrow> (recv_result \<times> recv_result list) option" where
  "recv_call room rs =
     (if room = 0 then Some (Received [], rs)
      else case rs of
             [] \<Rightarrow> None
           | Received bs # rs \<Rightarrow>
               if length bs \<le> room then Some (Received bs, rs)
               else Some (Received (take room bs), Received (drop room bs) # rs)
           | r # rs \<Rightarrow> Some (r, rs))"

text \<open>
  The state of the loops: the buffer, the position behind what was received, the room that the
  next call is told, the number of retries, and whether the buffer has been moved since the
  pointer to the body was taken.
\<close>

record rx =
  rx_buf :: "char option list"
  rx_p :: nat
  rx_room :: nat
  rx_retries :: nat
  rx_moved :: bool
  rx_input :: "recv_result list"

text \<open>The inner loop, which tries again; there is no result when the loop fails.\<close>

function recv_retry :: "nat \<Rightarrow> nat \<Rightarrow> recv_result list \<Rightarrow> (string option \<times> nat \<times> recv_result list) option" where
  "recv_retry room tries rs =
     (case recv_call room rs of
        None \<Rightarrow> None
      | Some (Received bs, rs) \<Rightarrow> Some (Some bs, tries, rs)
      | Some (Would_block, rs) \<Rightarrow>
          if tries < RECV_RETRY_MAX_TRIES then recv_retry room (tries + 1) rs else Some (None, tries, rs)
      | Some (Recv_error, rs) \<Rightarrow> Some (None, tries, rs))"
  by pat_completeness auto
termination by (relation "measure (\<lambda>(room, tries, rs). RECV_RETRY_MAX_TRIES - tries)") auto

declare recv_retry.simps [simp del]

text \<open>
  The bytes are in the buffer behind \<open>p\<close>. When no room is left the buffer is doubled, but the
  room for the next call stays zero.
\<close>

definition rx_advance :: "rx \<Rightarrow> string \<Rightarrow> rx cres" where
  "rx_advance st bs =
     res_bind (store (rx_buf st) (int (rx_p st)) (chars bs)) (\<lambda>b.
       let p = rx_p st + length bs;
           room = length b - p;
           (b, moved) = (if room = 0 then (uo_httpc_grow_buf b, True) else (b, rx_moved st))
       in res_bind (store b (int p) (chars [NUL])) (\<lambda>b.
            Inr (st\<lparr> rx_buf := b, rx_p := p, rx_room := room, rx_moved := moved \<rparr>)))"

text \<open>A call with retries and what follows it: the number of bytes, or none after an error.\<close>

definition rx_recv :: "rx \<Rightarrow> (nat option \<times> rx) run" where
  "rx_recv st =
     (case recv_retry (rx_room st) (rx_retries st) (rx_input st) of
        None \<Rightarrow> None
      | Some (r, tries, rs) \<Rightarrow>
          let st = st\<lparr> rx_retries := tries, rx_input := rs \<rparr> in
          case r of
            None \<Rightarrow> Some (Inr (None, st))
          | Some bs \<Rightarrow> run_bind (Some (rx_advance st bs)) (\<lambda>st. Some (Inr (Some (length bs), st))))"

text \<open>How much input is left, for the termination of the loops.\<close>

fun input_size :: "recv_result list \<Rightarrow> nat" where
  "input_size [] = 0"
| "input_size (Received bs # rs) = Suc (length bs + input_size rs)"
| "input_size (r # rs) = Suc (input_size rs)"

lemma recv_call_smaller:
  assumes "recv_call room rs = Some (r, rs')" and "r \<noteq> Received []"
  shows "input_size rs' < input_size rs"
  using assms by (cases rs rule: input_size.cases) (auto simp: recv_call_def split: if_splits)

lemma recv_retry_smaller:
  "recv_retry room tries rs = Some (Some bs, tries', rs') \<Longrightarrow> bs \<noteq> [] \<Longrightarrow> input_size rs' < input_size rs"
proof (induction room tries rs rule: recv_retry.induct)
  case (1 room tries rs)
  then obtain r rs0 where r: "recv_call room rs = Some (r, rs0)"
    by (subst (asm) (2) recv_retry.simps) (auto split: option.splits)
  show ?case
  proof (cases r)
    case (Received x)
    then show ?thesis using "1.prems" r recv_call_smaller [OF r] by (subst (asm) recv_retry.simps) auto
  next
    case Would_block
    then have "input_size rs0 < input_size rs" "tries < RECV_RETRY_MAX_TRIES" "recv_retry room (tries + 1) rs0 = Some (Some bs, tries', rs')"
      using recv_call_smaller [OF r] "1.prems" r by (subst (asm) recv_retry.simps, auto split: if_splits)+
    then show ?thesis using "1.IH" [OF r [unfolded Would_block]] "1.prems" by fastforce
  next
    case Recv_error
    then show ?thesis using "1.prems" r by (subst (asm) recv_retry.simps) auto
  qed
qed

lemma rx_recv_smaller:
  assumes "rx_recv st = Some (Inr (Some n, st'))" and "n \<noteq> 0"
  shows "input_size (rx_input st') < input_size (rx_input st)"
proof -
  obtain bs tries rs where r: "recv_retry (rx_room st) (rx_retries st) (rx_input st) = Some (Some bs, tries, rs)" "bs \<noteq> []"
    "rx_advance (st\<lparr> rx_retries := tries, rx_input := rs \<rparr>) bs = Inr st'"
    using assms by (auto simp: rx_recv_def Let_def split: option.splits prod.splits elim!: run_bind_InrE)
  have "rx_input st' = rs" using r(3)
    by (auto simp: rx_advance_def Let_def split: prod.splits if_splits elim!: res_bind_InrE)
  with recv_retry_smaller [OF r(1,2)] show ?thesis by simp
qed

lemma rx_advance_input: "rx_advance st bs = Inr st' \<Longrightarrow> rx_input st' = rx_input st"
  by (auto simp: rx_advance_def Let_def split: prod.splits if_splits elim!: res_bind_InrE)

text \<open>
  The headers: the loop ends when their end is in the text received so far, and also at the end
  of the connection, without their end. There is no result after an error.
\<close>

function receive_headers :: "nat \<Rightarrow> rx \<Rightarrow> (nat option option \<times> rx) run" where
  "receive_headers response st =
     (case rx_recv st of
        None \<Rightarrow> None
      | Some (Inl e) \<Rightarrow> Some (Inl e)
      | Some (Inr (None, st)) \<Rightarrow> Some (Inr (None, st))
      | Some (Inr (Some n, st)) \<Rightarrow>
          if n = 0 then Some (Inr (Some None, st))
          else run_bind (Some (block_string (drop response (rx_buf st)))) (\<lambda>s.
                 case strstr s (CRLF @ CRLF) of
                   Some i \<Rightarrow> Some (Inr (Some (Some (response + i)), st))
                 | None \<Rightarrow> receive_headers response st))"
  by pat_completeness auto
termination by (relation "measure (\<lambda>(response, st). input_size (rx_input st))") (auto dest: rx_recv_smaller)

declare receive_headers.simps [simp del]

text \<open>
  A body of known length. The pointer \<open>body\<close> is dangling once the buffer has been moved. The
  loop ends when a call returns no bytes. The result is whether no error occurred.
\<close>

function receive_length :: "nat \<Rightarrow> int \<Rightarrow> rx \<Rightarrow> (bool \<times> rx) run" where
  "receive_length body content_length st =
     (if rx_moved st then Some (Inl UseAfterFree)
      else if content_length \<le> int (rx_p st) - int body then Some (Inr (True, st))
      else case rx_recv st of
             None \<Rightarrow> None
           | Some (Inl e) \<Rightarrow> Some (Inl e)
           | Some (Inr (None, st)) \<Rightarrow> Some (Inr (False, st))
           | Some (Inr (Some n, st)) \<Rightarrow>
               if n = 0 then Some (Inr (True, st)) else receive_length body content_length st)"
  by pat_completeness auto
termination by (relation "measure (\<lambda>(body, content_length, st). input_size (rx_input st))") (auto dest: rx_recv_smaller)

declare receive_length.simps [simp del]

text \<open>A body up to the end of the connection; here no call is tried again.\<close>

function receive_rest :: "rx \<Rightarrow> rx run" where
  "receive_rest st =
     (case recv_call (rx_room st) (rx_input st) of
        None \<Rightarrow> None
      | Some (Received bs, rs) \<Rightarrow>
          if bs = [] then Some (Inr (st\<lparr> rx_input := rs \<rparr>))
          else (case rx_advance (st\<lparr> rx_input := rs \<rparr>) bs of
                  Inl e \<Rightarrow> Some (Inl e)
                | Inr st \<Rightarrow> receive_rest st)
      | Some (_, rs) \<Rightarrow> Some (Inr (st\<lparr> rx_input := rs \<rparr>)))"
  by pat_completeness auto
termination
  by (relation "measure (\<lambda>st. input_size (rx_input st))") (auto dest!: rx_advance_input recv_call_smaller)

declare receive_rest.simps [simp del]

text \<open>\<^verbatim>\<open>sscanf\<close> with \<^verbatim>\<open>%lx\<close>.\<close>

definition hex_digit :: "char \<Rightarrow> nat" where
  "hex_digit c = (if isdigit c then of_char c - 48 else of_char (tolower c) - 87)"

definition sscanf_lx :: "string \<Rightarrow> nat option" where
  "sscanf_lx s =
     (let s = dropWhile isspace s;
          neg = (s \<noteq> [] \<and> hd s = CHR ''-'');
          s = (if s \<noteq> [] \<and> hd s \<in> {CHR ''+'', CHR ''-''} then tl s else s);
          s = (if prefix ''0x'' (map tolower s) \<and> drop 2 s \<noteq> [] \<and> isxdigit (s ! 2) then drop 2 s else s);
          ds = takeWhile isxdigit s;
          n = foldl (\<lambda>n d. 16 * n + hex_digit d) 0 ds
      in if ds = [] then None
         else Some (if (2 :: int) ^ 64 \<le> int n then nat (2 ^ 64 - 1) else if neg then nat ((2 ^ 64 - int n) mod 2 ^ 64) else n))"

text \<open>Moving \<open>n\<close> bytes within the buffer.\<close>

definition block_move :: "char option list \<Rightarrow> nat \<Rightarrow> nat \<Rightarrow> nat \<Rightarrow> char option list cres" where
  "block_move b dst src n =
     (if length b < src + n then Inl OutOfBounds else store b (int dst) (take n (drop src b)))"

text \<open>
  The loop that takes the sizes of the chunks out of the text from \<open>chunk\<close> on. The first chunk is
  the one at the start of the body, \<^term>\<open>None\<close> when that pointer is dangling. The arithmetic on the
  pointers is assumed not to wrap around.
\<close>

function unchunk :: "nat option \<Rightarrow> char option list \<Rightarrow> nat \<Rightarrow> nat \<Rightarrow> nat
    \<Rightarrow> (char option list \<times> nat \<times> nat \<times> nat) cres" where
  "unchunk body b p chunk chunk_size =
     (if p \<le> chunk then Inr (b, p, chunk, chunk_size)
      else res_bind (block_string (drop chunk b)) (\<lambda>s.
        case strstr s CRLF of
          None \<Rightarrow> Inr (b, p, chunk, chunk_size)
        | Some i \<Rightarrow>
            let chunk_data = chunk + i + 2;
                chunk_size = (case sscanf_lx s of Some n \<Rightarrow> n | None \<Rightarrow> chunk_size)
            in (case body of
                  None \<Rightarrow> Inl UseAfterFree
                | Some start \<Rightarrow>
                    if chunk = start
                    then res_bind (block_move b chunk chunk_data (p - chunk)) (\<lambda>b.
                           unchunk body b (p - (chunk_data - chunk)) (chunk + chunk_size + 2) chunk_size)
                    else res_bind (block_move b (chunk - 2) chunk_data (p - chunk)) (\<lambda>b.
                           unchunk body b (p - (chunk_data - chunk + 2)) (chunk + chunk_size) chunk_size))))"
  by pat_completeness auto
termination by (relation "measure (\<lambda>(body, b, p, chunk, chunk_size). p - chunk)") auto

declare unchunk.simps [simp del]

text \<open>A body in chunks.\<close>

function receive_chunks :: "nat \<Rightarrow> nat \<Rightarrow> nat \<Rightarrow> rx \<Rightarrow> (bool \<times> rx) run" where
  "receive_chunks body chunk chunk_size st =
     (case unchunk (if rx_moved st then None else Some body) (rx_buf st) (rx_p st) chunk chunk_size of
        Inl e \<Rightarrow> Some (Inl e)
      | Inr (b, p, chunk, chunk_size) \<Rightarrow>
          (if chunk_size = 0 then Some (Inr (True, st\<lparr> rx_buf := b, rx_p := p \<rparr>))
           else case rx_recv (st\<lparr> rx_buf := b, rx_p := p \<rparr>) of
                  None \<Rightarrow> None
                | Some (Inl e) \<Rightarrow> Some (Inl e)
                | Some (Inr (None, st)) \<Rightarrow> Some (Inr (False, st))
                | Some (Inr (Some n, st)) \<Rightarrow>
                    if n = 0 then Some (Inr (True, st)) else receive_chunks body chunk chunk_size st))"
  by pat_completeness auto
termination
  by (relation "measure (\<lambda>(body, chunk, chunk_size, st). input_size (rx_input st))") (auto dest!: rx_recv_smaller)

declare receive_chunks.simps [simp del]

text \<open>The three ways in which the end of the body is found; \<open>body\<close> is behind the end of the headers.\<close>

definition receive_body :: "int \<Rightarrow> nat option \<Rightarrow> rx \<Rightarrow> (bool \<times> rx) run" where
  "receive_body lenflags headers_end st =
     (if lenflags = - 2 then
        (case headers_end of
           None \<Rightarrow> Some (Inl NullDeref)
         | Some e \<Rightarrow> receive_chunks (e + 4) (e + 4) 1 st)
      else if lenflags = - 1 then run_bind (receive_rest st) (\<lambda>st. Some (Inr (True, st)))
      else (case headers_end of
              None \<Rightarrow> Some (Inr (True, st))
            | Some e \<Rightarrow> receive_length (e + 4) lenflags st))"

section \<open>A request and its response\<close>

text \<open>
  A response (\<^verbatim>\<open>uo_http_res.c\<close>): one block that holds the headers and the body, each with a
  terminator.
\<close>

record uo_http_res =
  rs_status_code :: int
  rs_headers_len :: nat
  rs_body_len :: nat
  rs_block :: "char option list"

definition uo_http_res_create :: "int \<Rightarrow> char option list \<Rightarrow> char option list \<Rightarrow> uo_http_res" where
  "uo_http_res_create status_code headers body =
     \<lparr> rs_status_code = status_code, rs_headers_len = length headers, rs_body_len = length body,
       rs_block = headers @ [Some NUL] @ body @ [Some NUL] \<rparr>"

text \<open>
  The number behind the version. When the text ends before it, \<^verbatim>\<open>sscanf\<close> returns a negative
  number, which the code takes for success, and the status is not initialised.
\<close>

definition scan_status :: "string \<Rightarrow> int option cres" where
  "scan_status s =
     (if prefix ''HTTP/1.'' s \<and> length s > 7
      then (let t = dropWhile isspace (drop 8 s)
            in if t = [] then Inl Uninitialised else Inr (sscanf_d t))
      else if prefix s ''HTTP/1.'' then Inl Uninitialised
      else Inr None)"

text \<open>What the calls that set up the connection return; \<open>nt_sent\<close> is how many bytes were sent, if no error occurred.\<close>

record net =
  nt_socket :: bool
  nt_tls_setup :: bool
  nt_connect :: bool
  nt_tls_connect :: bool
  nt_sent :: "nat option"
  nt_input :: "recv_result list"

text \<open>The response if there is one, the bytes that were sent, whether the socket is closed, and the client.\<close>

record exchange =
  ex_res :: "uo_http_res option"
  ex_sent :: "char option list"
  ex_closed :: bool
  ex_httpc :: uo_httpc

definition request_bytes :: "uo_httpc \<Rightarrow> char option list" where
  "request_bytes hp = take (hp_request_len hp) (drop (hp_headers_len hp) (hp_buf hp))"

definition uo_httpc_receive :: "uo_httpc \<Rightarrow> recv_result list \<Rightarrow> (uo_http_res option \<times> char option list) run" where
  "uo_httpc_receive hp input =
     (let response = hp_headers_len hp + hp_request_len hp;
          st = \<lparr> rx_buf = hp_buf hp, rx_p = response, rx_room = length (hp_buf hp) - response, rx_retries = 0,
                 rx_moved = False, rx_input = input \<rparr>
      in run_bind (receive_headers response st) (\<lambda>(r, st).
         case r of None \<Rightarrow> Some (Inr (None, rx_buf st)) | Some headers_end \<Rightarrow>
           run_bind (Some (parse_response_headers (drop response (rx_buf st)) (rx_p st - response))) (\<lambda>lenflags.
           run_bind (receive_body lenflags headers_end (st\<lparr> rx_moved := False \<rparr>)) (\<lambda>(ok, st).
             let b = rx_buf st; p = rx_p st in
             if \<not> ok \<or> p - response < 12 then Some (Inr (None, b))
             else run_bind (Some (block_string (drop response b))) (\<lambda>s.
                  run_bind (Some (scan_status s)) (\<lambda>status.
                    case status of None \<Rightarrow> Some (Inr (None, b)) | Some status_code \<Rightarrow>
                      (case headers_end of
                         None \<Rightarrow> Some (Inl NullDeref)
                       | Some e \<Rightarrow>
                           if rx_moved st then Some (Inl UseAfterFree)
                           else Some (Inr (Some (uo_http_res_create status_code (take (e - response) (drop response b))
                                  (take (p - (e + 4)) (drop (e + 4) b))), b)))))))))"

definition uo_httpc_make_request :: "net \<Rightarrow> uo_httpc \<Rightarrow> exchange run" where
  "uo_httpc_make_request nt hp =
     (let failed = (\<lambda>closed. Some (Inr \<lparr> ex_res = None, ex_sent = [], ex_closed = closed, ex_httpc = hp \<rparr>));
          tls = hp_opt_tls hp
      in
      if \<not> nt_socket nt then failed True
      else if tls \<and> \<not> nt_tls_setup nt then failed False
      else if \<not> nt_connect nt \<or> tls \<and> \<not> nt_tls_connect nt then failed True
      else case nt_sent nt of
             None \<Rightarrow> failed True
           | Some n \<Rightarrow>
               if tls \<and> n \<noteq> hp_request_len hp then failed True
               else run_bind (uo_httpc_receive hp (nt_input nt)) (\<lambda>(res, b).
                      Some (Inr \<lparr> ex_res = res, ex_sent = take n (request_bytes hp), ex_closed = True,
                                  ex_httpc = hp\<lparr> hp_buf := b \<rparr> \<rparr>)))"

end
