(* ===== verification/Httpc_Flow.thy ===== *)
theory Httpc_Flow
  imports Httpc
begin

text \<open>
  How the blocking client behaves: the text of its requests, and the responses it puts together
  from what the socket delivers piece by piece.
\<close>

section \<open>Requests\<close>

text \<open>The headers at the start of the buffer.\<close>

definition httpc_rel :: "uo_httpc \<Rightarrow> (string \<times> string) list \<Rightarrow> bool" where
  "httpc_rel hp hs \<longleftrightarrow> hp_headers_len hp = length (headers_text hs) \<and> hp_headers_len hp \<le> length (hp_buf hp)
     \<and> take (hp_headers_len hp) (hp_buf hp) = chars (headers_text hs) \<and> hp_buf hp \<noteq> []"

lemma chars_simps [simp]: "length (chars s) = length s" "chars (s @ t) = chars s @ chars t" "chars [] = []" "(chars s = []) = (s = [])"
  "(chars s = chars t) = (s = t)"
  by (auto simp: chars_def inj_map_eq_map)

text \<open>Parts written one after the other are their concatenation.\<close>

lemma mem_writes_eq:
  assumes "p + length (concat ss) \<le> length b"
  shows "mem_writes b p ss = Inr (p + length (concat ss), take p b @ concat ss @ drop (p + length (concat ss)) b)"
  using assms
proof (induction ss arbitrary: b p)
  case (Cons s ss)
  let ?b = "take p b @ s @ drop (p + length s) b"
  have s: "store b (int p) s = Inr ?b" using Cons.prems by (simp add: store_def nat_add_distrib)
  have l: "length ?b = length b" using Cons.prems by simp
  have t: "take (p + length s) ?b = take p b @ s" "drop (p + (length s + length (concat ss))) ?b = drop (p + (length s + length (concat ss))) b"
    using Cons.prems by (simp_all add: ac_simps)
  show ?case using Cons.IH [of "p + length s" ?b] Cons.prems s l t by (simp add: ac_simps)
qed simp

text \<open>More than there is room for is an overrun.\<close>

lemma mem_writes_overrun:
  assumes "length b < p + length (concat ss)" and "p \<le> length b"
  shows "mem_writes b p ss = Inl OutOfBounds"
  using assms
proof (induction ss arbitrary: b p)
  case (Cons s ss)
  show ?case
  proof (cases "p + length s \<le> length b")
    case True
    let ?b = "take p b @ s @ drop (p + length s) b"
    have "store b (int p) s = Inr ?b" "length ?b = length b" using True by (simp_all add: store_def nat_add_distrib)
    then show ?thesis using Cons.IH [of ?b "p + length s"] Cons.prems(1) True by simp
  qed (simp add: store_def)
qed simp

lemma httpc_created_exists: "\<exists>hp. uo_httpc_create hostname tls sem True True = Inr (Some hp)"
proof -
  let ?l = "length ''Host: '' + length hostname + length CRLF" and ?ss = "[chars ''Host: '', chars hostname, chars CRLF]"
  let ?b = "replicate (max BUF_INIT_LEN ?l) (None :: char option)"
  have "length (concat ?ss) = ?l" by simp
  then have "mem_writes ?b 0 ?ss = Inr (?l, concat ?ss @ drop ?l ?b)" using mem_writes_eq [of 0 ?ss ?b] by simp
  then show ?thesis by (simp add: uo_httpc_create_def Let_def)
qed

lemma httpc_created:
  assumes "uo_httpc_create hostname tls sem gai_ok tls_ok = Inr (Some hp)"
  shows "httpc_rel hp [(''Host'', map tolower hostname)]" "hp_header_flags hp = 1" "BUF_INIT_LEN \<le> length (hp_buf hp)"
proof -
  let ?n = "length hostname" and ?l = "length ''Host: '' + length hostname + length CRLF"
  let ?b = "replicate (max BUF_INIT_LEN ?l) (None :: char option)" and ?ss = "[chars ''Host: '', chars hostname, chars CRLF]"
  let ?t = "concat ?ss @ drop ?l ?b"
  have len: "length (concat ?ss) = ?l" by simp
  then have w: "mem_writes ?b 0 ?ss = Inr (?l, ?t)" using mem_writes_eq [of 0 ?ss ?b] by simp
  let ?u = "take 6 ?t @ map (map_option tolower) (take ?n (drop 6 ?t)) @ drop (6 + ?n) ?t"
  have hp: "hp_header_flags hp = 1" "hp_headers_len hp = ?l" "hp_buf hp = ?u"
    using assms w by (auto simp: uo_httpc_create_def Let_def split: if_splits)
  have split: "take 6 t @ map f (take ?n (drop 6 t)) @ drop (6 + ?n) t = x @ map f y @ z"
    if "t = x @ y @ z" "length x = 6" "length y = ?n" for t x y z :: "char option list" and f
    using that by simp
  have "?u = chars ''Host: '' @ map (map_option tolower) (chars hostname) @ (chars CRLF @ drop ?l ?b)"
    by (rule split) simp_all
  also have "\<dots> = chars (headers_text [(''Host'', map tolower hostname)]) @ drop ?l ?b"
    by (simp add: header_line_def chars_def)
  finally have u: "?u = chars (headers_text [(''Host'', map tolower hostname)]) @ drop ?l ?b" .
  have "length (headers_text [(''Host'', map tolower hostname)]) = ?l" by (simp add: header_line_def)
  then show "httpc_rel hp [(''Host'', map tolower hostname)]" "hp_header_flags hp = 1" "BUF_INIT_LEN \<le> length (hp_buf hp)"
    using hp unfolding u httpc_rel_def by (auto simp: CRLF_def)
qed

lemma header_set:
  assumes "httpc_rel hp hs" and "header_name header = Some (name @ '': '')"
    and "hp_header_flags hp AND header_flag header \<noteq> header_flag header"
    and "length (headers_text (hs @ [(name, val)])) \<le> length (hp_buf hp)"
  shows "\<exists>hp'. uo_httpc_set_header hp header val = Inr hp' \<and> httpc_rel hp' (hs @ [(name, val)])
    \<and> hp_header_flags hp' = hp_header_flags hp OR header_flag header \<and> length (hp_buf hp') = length (hp_buf hp)"
proof -
  let ?ss = "[chars (name @ '': ''), chars val, chars CRLF]" and ?p = "hp_headers_len hp" and ?b = "hp_buf hp"
  have r: "?p = length (headers_text hs)" "take ?p ?b = chars (headers_text hs)" "?p \<le> length ?b" "?b \<noteq> []"
    using assms(1) by (auto simp: httpc_rel_def)
  have c: "concat ?ss = chars (header_line (name, val))" by (simp add: header_line_def chars_def)
  have l: "length (headers_text (hs @ [(name, val)])) = ?p + length (concat ?ss)" using r(1) by (simp add: headers_text_def header_line_def)
  have w: "mem_writes ?b ?p ?ss = Inr (?p + length (concat ?ss), take ?p ?b @ concat ?ss @ drop (?p + length (concat ?ss)) ?b)"
    using mem_writes_eq [of ?p ?ss ?b] assms(4) l by simp
  define q where "q = chars (header_line (name, val))"
  define rest where "rest = drop (?p + length q) ?b"
  have n: "length q = length (name @ '': '') + length val + length CRLF" by (simp add: q_def header_line_def)
  have b: "length (chars (headers_text hs) @ q @ rest) = length ?b"
    using l assms(4) r(1) unfolding c q_def [symmetric] rest_def by simp
  have w': "mem_writes ?b ?p ?ss = Inr (?p + length (name @ '': '') + length val + length CRLF, chars (headers_text hs) @ q @ rest)"
    using w unfolding c q_def [symmetric] rest_def r(2) n by (simp add: add.assoc)
  have "uo_httpc_set_header hp header val = Inr (hp\<lparr> hp_header_flags := hp_header_flags hp OR header_flag header,
      hp_headers_len := ?p + length q, hp_buf := chars (headers_text hs) @ q @ rest \<rparr>)"
    using w' assms(2-4) l n unfolding c q_def [symmetric]
    by (simp add: uo_httpc_set_header_def Let_def add.assoc del: mem_writes.simps append_assoc)
  moreover have "chars (headers_text (hs @ [(name, val)])) = chars (headers_text hs) @ q"
    by (simp add: headers_text_def q_def)
  ultimately show ?thesis using b r(1) n by (auto simp: httpc_rel_def headers_text_def q_def)
qed

lemma grow_until_grown:
  assumes "b \<noteq> []"
  shows "\<exists>junk. grow_until need b = Some (b @ junk) \<and> need \<le> length (b @ junk)"
  using assms
proof (induction need b rule: grow_until.induct)
  case (1 need b)
  show ?case
  proof (cases "need \<le> length b")
    case False
    then show ?thesis using 1 by (subst grow_until.simps) (auto simp: uo_httpc_grow_buf_def)
  qed (simp add: grow_until.simps)
qed

text \<open>The request, as the message format of the library has it.\<close>

definition content_header :: "string option \<Rightarrow> (string \<times> string) list" where
  "content_header body = (case body of None \<Rightarrow> [] | Some t \<Rightarrow> [(''Content-Length'', decimal (length t))])"

lemma request_composed:
  assumes "httpc_rel hp hs" and "length path + length http_method \<le> 900"
    and "length (decimal (case body of None \<Rightarrow> 0 | Some t \<Rightarrow> length t)) \<le> 20"
  shows "\<exists>hp'. uo_httpc_init_request hp (http_method @ '' '') path body = Some (Inr (hp_opt_sem hp, hp')) \<and> httpc_rel hp' hs
    \<and> request_bytes hp' = chars (request_text http_method path ''HTTP/1.1'' (hs @ content_header body) (case body of None \<Rightarrow> [] | Some t \<Rightarrow> t))
    \<and> hp_headers_len hp' + hp_request_len hp' + 40 \<le> length (hp_buf hp')"
proof -
  let ?n = "hp_headers_len hp" and ?b = "hp_buf hp"
  define tail where "tail = (case body of
      Some t \<Rightarrow> [chars ''Content-Length: '', chars (decimal (length t)), chars (CRLF @ CRLF), chars t] | None \<Rightarrow> [chars CRLF])"
  have r: "?n = length (headers_text hs)" "take ?n ?b = chars (headers_text hs)" "?n \<le> length ?b" "?b \<noteq> []"
    using assms(1) by (auto simp: httpc_rel_def)
  obtain junk where g: "grow_until ((case body of None \<Rightarrow> 0 | Some t \<Rightarrow> length t) + ?n * 2 + 0x400) ?b = Some (?b @ junk)"
    "(case body of None \<Rightarrow> 0 | Some t \<Rightarrow> length t) + ?n * 2 + 0x400 \<le> length (?b @ junk)"
    using grow_until_grown [OF r(4)] by blast
  let ?B = "?b @ junk" and ?req = "request_text http_method path ''HTTP/1.1'' (hs @ content_header body) (case body of None \<Rightarrow> [] | Some t \<Rightarrow> t)"
  let ?ss = "[chars (http_method @ '' ''), chars path, chars '' HTTP/1.1'', chars CRLF, take ?n ?B] @ tail"
  have t: "take ?n ?B = chars (headers_text hs)" using r(2,3) by simp
  have c: "concat ?ss = chars ?req"
    unfolding t by (auto simp: chars_def tail_def request_text_def content_header_def headers_text_def header_line_def split: option.split)
  have lt: "length (concat tail) \<le> 40 + (case body of None \<Rightarrow> 0 | Some t \<Rightarrow> length t)"
    using assms(3) by (auto simp: tail_def CRLF_def split: option.splits)
  have lc: "length (concat ?ss) \<le> 920 + ?n + length (concat tail)" using assms(2) r(3) by (simp add: CRLF_def)
  have fits: "?n + length (concat ?ss) + 40 \<le> length ?B" using lc lt g(2) by (simp split: option.splits)
  have w: "mem_writes ?B ?n ?ss = Inr (?n + length (concat ?ss), take ?n ?B @ concat ?ss @ drop (?n + length (concat ?ss)) ?B)"
    using mem_writes_eq [of ?n ?ss ?B] fits by linarith
  define hp' where "hp' = hp\<lparr> hp_request_len := length (concat ?ss),
      hp_buf := take ?n ?B @ concat ?ss @ drop (?n + length (concat ?ss)) ?B \<rparr>"
  have "uo_httpc_init_request hp (http_method @ '' '') path body = Some (Inr (hp_opt_sem hp, hp'))"
    using g(1) w by (simp add: uo_httpc_init_request_def Let_def tail_def [symmetric] hp'_def del: append_Cons concat_append concat.simps)
  moreover define q where "q = chars ?req"
  define bl where "bl = take ?n ?B"
  define rest where "rest = drop (?n + length q) ?B"
  have hp'': "hp' = hp\<lparr> hp_request_len := length q, hp_buf := bl @ q @ rest \<rparr>"
    unfolding hp'_def c q_def bl_def rest_def ..
  have lb: "length bl = ?n" using r(3) by (simp add: bl_def)
  have "length q + 40 \<le> length (q @ rest)" using fits unfolding c q_def [symmetric] rest_def by simp
  then have "httpc_rel hp' hs" "request_bytes hp' = q" "hp_headers_len hp' + hp_request_len hp' + 40 \<le> length (hp_buf hp')"
    using r(1) t lb unfolding hp'' bl_def [symmetric] httpc_rel_def request_bytes_def by auto
  ultimately show ?thesis unfolding q_def by blast
qed

text \<open>
  A sequence of headers set by the caller, and those of them that the request will have: a header
  is left out when all bits of its flag are already set.
\<close>

fun set_headers :: "uo_httpc \<Rightarrow> (http_header \<times> string) list \<Rightarrow> uo_httpc cres" where
  "set_headers hp [] = Inr hp"
| "set_headers hp ((header, val) # hs) = res_bind (uo_httpc_set_header hp header val) (\<lambda>hp. set_headers hp hs)"

primrec header_key :: "http_header \<Rightarrow> string option" where
  "header_key HTTP_HEADER_NONE = None"
| "header_key HTTP_HEADER_HOST = None"
| "header_key HTTP_HEADER_ACCEPT = Some ''Accept''"
| "header_key HTTP_HEADER_CONNECTION = Some ''Connection''"
| "header_key HTTP_HEADER_CONTENT_TYPE = Some ''Content-Type''"

fun kept_headers :: "32 word \<Rightarrow> (http_header \<times> string) list \<Rightarrow> (string \<times> string) list" where
  "kept_headers flags [] = []"
| "kept_headers flags ((header, val) # hs) =
     (case header_key header of
        None \<Rightarrow> kept_headers flags hs
      | Some key \<Rightarrow> if flags AND header_flag header = header_flag header then kept_headers flags hs
                    else (key, val) # kept_headers (flags OR header_flag header) hs)"

lemma header_name_key: "header_name header = map_option (\<lambda>key. key @ '': '') (header_key header)"
  by (cases header) (simp_all add: header_name_def)

lemma headers_set:
  assumes "httpc_rel hp hs" and "length (headers_text (hs @ kept_headers (hp_header_flags hp) settings)) \<le> length (hp_buf hp)"
  shows "\<exists>hp'. set_headers hp settings = Inr hp' \<and> httpc_rel hp' (hs @ kept_headers (hp_header_flags hp) settings)"
  using assms
proof (induction settings arbitrary: hp hs)
  case (Cons x settings)
  obtain header val where x: "x = (header, val)" by fastforce
  show ?case
  proof (cases "\<exists>key. header_key header = Some key \<and> hp_header_flags hp AND header_flag header \<noteq> header_flag header")
    case True
    then obtain key where key: "header_key header = Some key" "hp_header_flags hp AND header_flag header \<noteq> header_flag header"
      by blast
    have "length (headers_text (hs @ [(key, val)])) \<le> length (hp_buf hp)"
      using Cons.prems(2) key by (simp add: x headers_text_def)
    then obtain hp' where "uo_httpc_set_header hp header val = Inr hp'" "httpc_rel hp' (hs @ [(key, val)])"
      "hp_header_flags hp' = hp_header_flags hp OR header_flag header" "length (hp_buf hp') = length (hp_buf hp)"
      using header_set [OF Cons.prems(1), of header key val] key by (auto simp: header_name_key)
    then show ?thesis using Cons.IH [of hp' "hs @ [(key, val)]"] Cons.prems(2) key by (simp add: x)
  next
    case False
    then have "uo_httpc_set_header hp header val = Inr hp" "kept_headers (hp_header_flags hp) (x # settings) = kept_headers (hp_header_flags hp) settings"
      by (auto simp: uo_httpc_set_header_def header_name_key x split: option.split)
    then show ?thesis using Cons.IH [OF Cons.prems(1)] Cons.prems(2) by (simp add: x)
  qed
qed simp

text \<open>
  The flags are not distinct bits: once \<^verbatim>\<open>Accept\<close> is set, and the host always is, \<^verbatim>\<open>Connection\<close> can
  no longer be set.
\<close>

lemma accept_excludes_connection:
  "kept_headers 1 [(HTTP_HEADER_ACCEPT, a), (HTTP_HEADER_CONNECTION, c)] = [(''Accept'', a)]"
  "kept_headers 1 [(HTTP_HEADER_CONNECTION, c), (HTTP_HEADER_ACCEPT, a)] = [(''Connection'', c)]"
  by simp_all

text \<open>
  C17: Functional behaviour of composing a request. A client is created for a host, the caller
  sets any sequence of headers that fit into the initial buffer, and then sends text with PUT:
  in memory there is, for every path up to 890 characters and every body, exactly the text of an
  HTTP request of that method, with the host in lower case, the headers in the order in which
  they were set, the length of the body, and the body; nothing is written outside the buffer.
\<close>

theorem uo_httpc_request_composed:
  assumes create: "uo_httpc_create hostname tls sem gai_ok tls_ok = Inr (Some hp)"
    and fits: "length (headers_text ((''Host'', map tolower hostname) # kept_headers 1 settings)) \<le> BUF_INIT_LEN"
    and path: "length path \<le> 890" and body: "length (decimal (length body)) \<le> 20"
  shows "\<exists>hp1 hp2. set_headers hp settings = Inr hp1 \<and> uo_httpc_put hp1 path (Some body) = Some (Inr (hp_opt_sem hp1, hp2))
    \<and> request_bytes hp2 = chars (request_text ''PUT'' path ''HTTP/1.1''
        ((''Host'', map tolower hostname) # kept_headers 1 settings @ [(''Content-Length'', decimal (length body))]) body)"
proof -
  note c = httpc_created [OF create]
  obtain hp1 where hp1: "set_headers hp settings = Inr hp1"
    "httpc_rel hp1 ((''Host'', map tolower hostname) # kept_headers 1 settings)"
    using headers_set [OF c(1), of settings] c(2,3) fits by auto
  from request_composed [OF hp1(2), of path "''PUT''" "Some body"] path body
  obtain hp2 where "uo_httpc_init_request hp1 (''PUT'' @ '' '') path (Some body) = Some (Inr (hp_opt_sem hp1, hp2))"
    "request_bytes hp2 = chars (request_text ''PUT'' path ''HTTP/1.1''
        ((''Host'', map tolower hostname) # kept_headers 1 settings @ [(''Content-Length'', decimal (length body))]) body)"
    by (auto simp: content_header_def)
  then show ?thesis using hp1(1) by (auto simp: uo_httpc_put_def)
qed

text \<open>A client created, two headers and a text of two characters.\<close>

theorem uo_httpc_request_composed_witness:
  "\<exists>hp hp1 hp2. uo_httpc_create ''LocalHost'' False True True True = Inr (Some hp)
    \<and> set_headers hp [(HTTP_HEADER_ACCEPT, ''a/b''), (HTTP_HEADER_CONTENT_TYPE, ''c/d'')] = Inr hp1
    \<and> uo_httpc_put hp1 ''/x'' (Some ''ab'') = Some (Inr (hp_opt_sem hp1, hp2))
    \<and> request_bytes hp2 = chars (''PUT /x HTTP/1.1'' @ CRLF @ ''Host: localhost'' @ CRLF @ ''Accept: a/b'' @ CRLF
        @ ''Content-Type: c/d'' @ CRLF @ ''Content-Length: 2'' @ CRLF @ CRLF @ ''ab'')"
proof -
  let ?settings = "[(HTTP_HEADER_ACCEPT, ''a/b''), (HTTP_HEADER_CONTENT_TYPE, ''c/d'')]"
  obtain hp where hp: "uo_httpc_create ''LocalHost'' False True True True = Inr (Some hp)"
    using httpc_created_exists [of "''LocalHost''" False True] by blast
  have k: "kept_headers 1 ?settings = [(''Accept'', ''a/b''), (''Content-Type'', ''c/d'')]" by simp
  have t: "map tolower ''LocalHost'' = ''localhost''" by code_simp
  have d: "decimal (length ''ab'') = ''2''" by code_simp
  have l: "length (headers_text ((''Host'', map tolower ''LocalHost'') # kept_headers 1 ?settings)) \<le> BUF_INIT_LEN"
    unfolding k t by (simp add: header_line_def CRLF_def BUF_INIT_LEN_def)
  from uo_httpc_request_composed [OF hp l, of "''/x''" "''ab''"] show ?thesis
    unfolding k t d using hp by (auto simp: request_text_def header_line_def)
qed

text \<open>
  The room asked for does not include the path: one that is longer than the buffer is written
  beyond its end.
\<close>

lemma long_path_overruns:
  assumes "httpc_rel hp hs" and "hp_headers_len hp * 2 + 0x400 \<le> length (hp_buf hp)" and "length (hp_buf hp) < length path"
  shows "uo_httpc_get hp path = Some (Inl OutOfBounds)"
proof -
  have "grow_until (hp_headers_len hp * 2 + 0x400) (hp_buf hp) = Some (hp_buf hp)" using assms(2) by (simp add: grow_until.simps)
  moreover have "mem_writes (hp_buf hp) (hp_headers_len hp)
      [chars ''GET '', chars path, chars '' HTTP/1.1'', chars CRLF, take (hp_headers_len hp) (hp_buf hp), chars CRLF] = Inl OutOfBounds"
    using assms(1,3) by (intro mem_writes_overrun) (simp_all add: httpc_rel_def)
  ultimately show ?thesis by (simp add: uo_httpc_get_def uo_httpc_init_request_def Let_def del: mem_writes.simps)
qed

section \<open>Receiving in pieces\<close>

text \<open>
  A buffer with the first part of a response in it, from \<open>response\<close> on, and whether the text has
  its terminator.
\<close>

definition rx_holds :: "rx \<Rightarrow> nat \<Rightarrow> string \<Rightarrow> char option list \<Rightarrow> bool" where
  "rx_holds st response u junk \<longleftrightarrow> (\<exists>pre. length pre = response \<and> rx_buf st = pre @ chars u @ junk)
     \<and> rx_p st = response + length u \<and> rx_room st = length junk \<and> \<not> rx_moved st"

lemma store_middle: "length s = length ys \<Longrightarrow> store (xs @ ys @ zs) (int (length xs)) s = Inr (xs @ s @ zs)"
  by (simp add: store_def nat_add_distrib)

lemma rx_advance_holds:
  assumes "rx_holds st response u junk" and "length bs < length junk"
  shows "\<exists>st'. rx_advance st bs = Inr st' \<and> rx_holds st' response (u @ bs) (Some NUL # drop (Suc (length bs)) junk)
    \<and> rx_retries st' = rx_retries st \<and> rx_input st' = rx_input st"
proof -
  obtain pre where pre: "length pre = response" "rx_buf st = pre @ chars u @ junk" "rx_p st = response + length u"
    "\<not> rx_moved st" using assms(1) by (auto simp: rx_holds_def)
  define j where "j = drop (Suc (length bs)) junk"
  obtain x where junk: "junk = take (length bs) junk @ x # j"
    using id_take_nth_drop [OF assms(2)] unfolding j_def by metis
  have l: "length (take (length bs) junk) = length bs" using assms(2) by simp
  have s1: "store (rx_buf st) (int (rx_p st)) (chars bs) = Inr (pre @ chars u @ chars bs @ x # j)"
  proof -
    have "rx_buf st = (pre @ chars u) @ take (length bs) junk @ (x # j)" using pre(2) junk by simp
    then show ?thesis using store_middle [of "chars bs" "take (length bs) junk" "pre @ chars u" "x # j"] l pre(1,3) by simp
  qed
  have s2: "store (pre @ chars u @ chars bs @ x # j) (int (length pre + length u + length bs)) (chars [NUL])
    = Inr (pre @ chars u @ chars bs @ Some NUL # j)"
    using store_middle [of "[Some NUL]" "[x]" "pre @ chars u @ chars bs" j] by (simp add: chars_def ac_simps)
  have "rx_advance st bs = Inr (st\<lparr> rx_buf := pre @ chars u @ chars bs @ Some NUL # j,
      rx_p := length pre + length u + length bs, rx_room := Suc (length j), rx_moved := False \<rparr>)"
    unfolding rx_advance_def s1 using s2 pre(1,3,4) by (simp add: Let_def)
  then show ?thesis using pre(1) unfolding j_def [symmetric] by (auto simp: rx_holds_def)
qed

text \<open>
  Results of calls that bring the bytes of a text: no errors, no end of the connection, and not
  more calls that would block than the code tries again.
\<close>

primrec bytes_of :: "recv_result \<Rightarrow> string" where
  "bytes_of (Received bs) = bs"
| "bytes_of Would_block = []"
| "bytes_of Recv_error = []"

definition delivers :: "recv_result list \<Rightarrow> nat \<Rightarrow> string \<Rightarrow> bool" where
  "delivers rs tries t \<longleftrightarrow> concat (map bytes_of rs) = t \<and> Recv_error \<notin> set rs \<and> Received [] \<notin> set rs
     \<and> tries + length (filter (\<lambda>r. r = Would_block) rs) \<le> RECV_RETRY_MAX_TRIES"

lemma delivers_cons:
  "delivers (r # rs) tries t \<longleftrightarrow>
     (case r of Received bs \<Rightarrow> bs \<noteq> [] \<and> (\<exists>t'. t = bs @ t' \<and> delivers rs tries t')
      | Would_block \<Rightarrow> tries < RECV_RETRY_MAX_TRIES \<and> delivers rs (Suc tries) t
      | Recv_error \<Rightarrow> False)"
  by (cases r) (auto simp: delivers_def)

lemma delivers_nil: "delivers rs tries [] \<Longrightarrow> tries \<le> RECV_RETRY_MAX_TRIES"
  by (auto simp: delivers_def)

lemma recv_retry_delivers:
  assumes "delivers rs tries t" and "t \<noteq> []" and "length t \<le> room"
  shows "\<exists>bs t' tries' rs'. recv_retry room tries (rs @ later) = Some (Some bs, tries', rs' @ later) \<and> bs \<noteq> []
    \<and> t = bs @ t' \<and> delivers rs' tries' t'"
  using assms
proof (induction rs arbitrary: tries)
  case Nil
  then show ?case by (simp add: delivers_def)
next
  case (Cons r rs)
  have room: "room \<noteq> 0" using Cons.prems(2,3) by (cases t) auto
  show ?case
  proof (cases r)
    case (Received bs)
    then obtain t' where t': "bs \<noteq> []" "t = bs @ t'" "delivers rs tries t'" using Cons.prems(1) by (auto simp: delivers_cons)
    then have "recv_retry room tries ((r # rs) @ later) = Some (Some bs, tries, rs @ later)"
      using room Cons.prems(3) by (subst recv_retry.simps) (simp add: recv_call_def Received)
    with t' show ?thesis by blast
  next
    case Would_block
    then have d: "tries < RECV_RETRY_MAX_TRIES" "delivers rs (Suc tries) t" using Cons.prems(1) by (auto simp: delivers_cons)
    then have "recv_retry room tries ((r # rs) @ later) = recv_retry room (Suc tries) (rs @ later)"
      using room by (subst recv_retry.simps) (simp add: recv_call_def Would_block)
    then show ?thesis using Cons.IH [OF d(2)] Cons.prems(2,3) by simp
  next
    case Recv_error
    then show ?thesis using Cons.prems(1) by (simp add: delivers_cons)
  qed
qed

lemma rx_recv_delivers:
  assumes "rx_holds st response u junk" and "delivers rs (rx_retries st) t" and "rx_input st = rs @ later"
    and "t \<noteq> []" and "length t < length junk"
  shows "\<exists>bs t' st' rs' junk'. rx_recv st = Some (Inr (Some (length bs), st')) \<and> bs \<noteq> [] \<and> t = bs @ t'
    \<and> rx_holds st' response (u @ bs) (Some NUL # junk') \<and> length t' \<le> length junk'
    \<and> delivers rs' (rx_retries st') t' \<and> rx_input st' = rs' @ later"
proof -
  have room: "rx_room st = length junk" using assms(1) by (simp add: rx_holds_def)
  obtain bs t' tries' rs' where r: "recv_retry (rx_room st) (rx_retries st) (rs @ later) = Some (Some bs, tries', rs' @ later)"
    "bs \<noteq> []" "t = bs @ t'" "delivers rs' tries' t'"
    using recv_retry_delivers [OF assms(2,4)] assms(5) room by (metis less_imp_le)
  let ?st = "st\<lparr> rx_retries := tries', rx_input := rs' @ later \<rparr>"
  have h: "rx_holds ?st response u junk" using assms(1) by (simp add: rx_holds_def)
  have lb: "length bs < length junk" using r(3) assms(5) by simp
  obtain st' where st': "rx_advance ?st bs = Inr st'" "rx_holds st' response (u @ bs) (Some NUL # drop (Suc (length bs)) junk)"
    "rx_retries st' = tries'" "rx_input st' = rs' @ later"
    using rx_advance_holds [OF h lb] by auto
  have "rx_recv st = Some (Inr (Some (length bs), st'))" using r(1) st'(1) assms(3) by (simp add: rx_recv_def)
  moreover have "length t' \<le> length (drop (Suc (length bs)) junk)" using assms(5) r(3) by simp
  ultimately show ?thesis using r(2,3,4) st'(2-4) by metis
qed

section \<open>A response of known length\<close>

text \<open>A sequence of lines, each with its end.\<close>

definition lines_text :: "string list \<Rightarrow> string" where
  "lines_text ls = concat (map (\<lambda>l. l @ CRLF) ls)"

lemma lines_text_simps [simp]: "lines_text [] = []" "lines_text (l # ls) = l @ CRLF @ lines_text ls"
  by (simp_all add: lines_text_def)

definition line_ok :: "string \<Rightarrow> bool" where
  "line_ok l \<longleftrightarrow> l \<noteq> [] \<and> plain l"

lemma strstr_found_prefix: "strstr s n = Some i \<Longrightarrow> i + length n \<le> length s \<and> strstr (s @ t) n = Some i"
proof (induction s arbitrary: i)
  case Nil
  then show ?case by (cases t) (auto split: if_splits)
next
  case (Cons c s)
  show ?case
  proof (cases "prefix n (c # s)")
    case True
    then have "prefix n ((c # s) @ t)" using prefix_prefix by blast
    then show ?thesis using True Cons.prems prefix_length_le [OF True] by auto
  next
    case False
    then obtain j where j: "i = Suc j" "strstr s n = Some j" using Cons.prems by auto
    with Cons.IH [OF j(2)] have l: "j + length n \<le> length s" "strstr (s @ t) n = Some j" by auto
    have "\<not> prefix n ((c # s) @ t)"
    proof
      assume "prefix n ((c # s) @ t)"
      then have "prefix n (c # s)" by (rule prefix_length_prefix) (use l(1) in auto)
      then show False using False by simp
    qed
    then show ?thesis using l j by simp
  qed
qed

lemma strstr_lines:
  assumes "list_all line_ok (l # ls)"
  shows "strstr (l @ CRLF @ lines_text ls @ CRLF @ rest) (CRLF @ CRLF) = Some (length l + length (lines_text ls))"
  using assms
proof (induction ls arbitrary: l)
  case Nil
  then have "CHR 0x0D \<notin> set l" by (simp add: line_ok_def plain_def)
  then have "strstr (l @ CRLF @ CRLF @ rest) (CRLF @ CRLF) = map_option (\<lambda>i. length l + i) (strstr (CRLF @ CRLF @ rest) (CRLF @ CRLF))"
    unfolding CRLF_def by (simp add: strstr_skip)
  then show ?case by (simp add: CRLF_def)
next
  case (Cons l' ls)
  then have l: "CHR 0x0D \<notin> set l" "CHR 0x0D \<notin> set l'" "l' \<noteq> []" by (simp_all add: line_ok_def plain_def)
  let ?r = "l' @ CRLF @ lines_text ls @ CRLF @ rest"
  have "strstr (l @ CRLF @ ?r) (CRLF @ CRLF) = map_option (\<lambda>i. length l + i) (strstr (CRLF @ ?r) (CRLF @ CRLF))"
    using l(1) unfolding CRLF_def by (simp add: strstr_skip)
  moreover have "strstr (CRLF @ ?r) (CRLF @ CRLF) = map_option (\<lambda>i. 2 + i) (strstr ?r (CRLF @ CRLF))"
    using l(2,3) by (cases l') (auto simp: CRLF_def option.map_comp comp_def)
  moreover have "strstr ?r (CRLF @ CRLF) = Some (length l' + length (lines_text ls))" using Cons by auto
  ultimately show ?case by (simp add: CRLF_def)
qed

lemma block_string_chars: "block_string (chars u @ Some NUL # junk) = Inr (cstr u)"
proof (induction u)
  case (Cons c u)
  then show ?case
    by (auto simp: block_string_def cstr_def chars_def Let_def split: if_splits)
qed (simp add: block_string_def cstr_def)

lemma rx_string:
  assumes "rx_holds st response u (Some NUL # junk)"
  shows "block_string (drop response (rx_buf st)) = Inr (cstr u)"
  using assms block_string_chars [of u junk] by (auto simp: rx_holds_def)

lemma line_ok_no_nul: "list_all line_ok ls \<Longrightarrow> no_nul (lines_text ls)"
  by (induction ls) (auto simp: line_ok_def plain_def no_nul_def CRLF_def)

text \<open>The headers are complete after some call, not before all of their bytes have come.\<close>

lemma receive_headers_delivers:
  assumes "rx_holds st response u junk" and "delivers rs (rx_retries st) t" and "rx_input st = rs @ later"
    and "u @ t = lines_text (l # ls) @ CRLF @ body" and "length u < length (lines_text (l # ls)) + 2"
    and "length t < length junk" and "list_all line_ok (l # ls)"
  shows "\<exists>u' t' st' rs' junk'.
    receive_headers response st = Some (Inr (Some (Some (response + (length l + length (lines_text ls)))), st'))
    \<and> u' @ t' = lines_text (l # ls) @ CRLF @ body \<and> length (lines_text (l # ls)) + 2 \<le> length u'
    \<and> rx_holds st' response u' (Some NUL # junk') \<and> length t' \<le> length junk'
    \<and> delivers rs' (rx_retries st') t' \<and> rx_input st' = rs' @ later"
  using assms
proof (induction "length t" arbitrary: st u junk rs t rule: less_induct)
  case less
  let ?H = "lines_text (l # ls)" and ?i = "length l + length (lines_text ls)"
  have full: "strstr (?H @ CRLF @ r) (CRLF @ CRLF) = Some ?i" for r
    using strstr_lines [OF less.prems(7)] by simp
  have "t \<noteq> []" using less.prems(4,5) by (auto simp: CRLF_def)
  then obtain bs t1 st1 rs1 junk1 where s1: "rx_recv st = Some (Inr (Some (length bs), st1))" "bs \<noteq> []" "t = bs @ t1"
    "rx_holds st1 response (u @ bs) (Some NUL # junk1)" "length t1 \<le> length junk1" "delivers rs1 (rx_retries st1) t1"
    "rx_input st1 = rs1 @ later"
    using rx_recv_delivers [OF less.prems(1-3) _ less.prems(6)] by metis
  have t1: "(u @ bs) @ t1 = ?H @ CRLF @ body" using less.prems(4) s1(3) by simp
  have step: "receive_headers response st = (case strstr (cstr (u @ bs)) (CRLF @ CRLF) of
      Some i \<Rightarrow> Some (Inr (Some (Some (response + i)), st1)) | None \<Rightarrow> receive_headers response st1)"
    using s1(1,2) rx_string [OF s1(4)] by (subst receive_headers.simps) simp
  show ?case
  proof (cases "length (u @ bs) < length ?H + 2")
    case True
    have "strstr (cstr (u @ bs)) (CRLF @ CRLF) = None"
    proof (rule ccontr)
      assume "strstr (cstr (u @ bs)) (CRLF @ CRLF) \<noteq> None"
      then obtain i where i: "strstr (cstr (u @ bs)) (CRLF @ CRLF) = Some i" by blast
      obtain r where "u @ bs = cstr (u @ bs) @ r" unfolding cstr_def using takeWhile_dropWhile_id by metis
      then have "?H @ CRLF @ body = cstr (u @ bs) @ r @ t1" using t1 by (metis append.assoc)
      then have "i = ?i" using strstr_found_prefix [OF i, of "r @ t1"] full [of body] by simp
      moreover have "i + 4 \<le> length (cstr (u @ bs))" using strstr_found_prefix [OF i, of "[]"] by (simp add: CRLF_def)
      moreover have "length (cstr (u @ bs)) \<le> length (u @ bs)" unfolding cstr_def by (rule length_takeWhile_le)
      ultimately show False using True by (simp add: CRLF_def)
    qed
    moreover have "length t1 < length t" using s1(2,3) by simp
    ultimately show ?thesis
      using less.hyps [OF _ s1(4,6,7) t1 True _ less.prems(7)] s1(5) step by simp
  next
    case False
    then obtain r where r: "u @ bs = ?H @ CRLF @ r"
      using t1 append_eq_append_conv_if [of "?H @ CRLF" body "u @ bs" t1] by (auto simp: CRLF_def split: if_splits)
    have "no_nul (?H @ CRLF)" using line_ok_no_nul [OF less.prems(7)] by (auto simp: no_nul_def CRLF_def)
    then have "cstr (u @ bs) = ?H @ CRLF @ cstr r" using cstr_append [of "?H @ CRLF" r] r by simp
    then have "receive_headers response st = Some (Inr (Some (Some (response + (length l + length (lines_text ls)))), st1))"
      using step full by (simp add: add.assoc)
    then show ?thesis using False t1 s1(4-7) by (metis not_less)
  qed
qed

lemma receive_length_delivers:
  assumes "rx_holds st response u (Some NUL # junk)" and "delivers rs (rx_retries st) t" and "rx_input st = rs @ later"
    and "length (u @ t) = start + n" and "start \<le> length u" and "length t \<le> length junk"
  shows "\<exists>st' junk'. receive_length (response + start) (int n) st = Some (Inr (True, st'))
    \<and> rx_holds st' response (u @ t) (Some NUL # junk')"
  using assms
proof (induction "length t" arbitrary: st u junk rs t rule: less_induct)
  case less
  have m: "\<not> rx_moved st" "rx_p st = response + length u" using less.prems(1) by (auto simp: rx_holds_def)
  show ?case
  proof (cases "t = []")
    case True
    then have "receive_length (response + start) (int n) st = Some (Inr (True, st))"
      using m less.prems(4) by (subst receive_length.simps) simp
    then show ?thesis using less.prems(1) True by auto
  next
    case False
    then obtain bs t1 st1 rs1 junk1 where s1: "rx_recv st = Some (Inr (Some (length bs), st1))" "bs \<noteq> []" "t = bs @ t1"
      "rx_holds st1 response (u @ bs) (Some NUL # junk1)" "length t1 \<le> length junk1" "delivers rs1 (rx_retries st1) t1"
      "rx_input st1 = rs1 @ later"
      using rx_recv_delivers [OF less.prems(1-3)] less.prems(6) by (metis length_Cons less_Suc_eq_le)
    have "\<not> int n \<le> int (length u) - int start" using less.prems(4,5) False by (cases t) auto
    then have "receive_length (response + start) (int n) st = receive_length (response + start) (int n) st1"
      using m s1(1,2) by (subst receive_length.simps) simp
    then show ?thesis using less.hyps [OF _ s1(4,6,7) _ _ s1(5)] s1(2,3) less.prems(4,5) by simp
  qed
qed

text \<open>Lines that name neither of the two headers the code looks for.\<close>

definition other_line :: "string \<Rightarrow> bool" where
  "other_line l \<longleftrightarrow> masked_match HEADER_TRANSFER_ENCODING_CHUNKED (chars (l @ CRLF)) = Inr False
     \<and> masked_match HEADER_CONTENT_LENGTH (chars (l @ CRLF)) = Inr False"

lemma masked_match_more: "masked_match p m = Inr b \<Longrightarrow> masked_match p (m @ m') = Inr b"
  by (induction p m rule: masked_match.induct) (auto split: if_splits)

lemma masked_match_case: "map masked name = map masked p \<Longrightarrow> masked_match p (chars name @ m) = Inr True"
proof (induction p arbitrary: name)
  case (Cons c p)
  then show ?case by (cases name) (auto simp: chars_def)
qed simp

lemma length_line_matches:
  assumes "map masked name = map masked HEADER_CONTENT_LENGTH"
  shows "masked_match HEADER_CONTENT_LENGTH (chars name @ m) = Inr True"
    "masked_match HEADER_TRANSFER_ENCODING_CHUNKED (chars name @ m) = Inr False"
proof -
  show "masked_match HEADER_CONTENT_LENGTH (chars name @ m) = Inr True" by (rule masked_match_case [OF assms])
  obtain c name' where "name = c # name'" "masked c = masked CHR ''C''"
    using assms by (cases name) (auto simp: HEADER_CONTENT_LENGTH_def)
  then show "masked_match HEADER_TRANSFER_ENCODING_CHUNKED (chars name @ m) = Inr False"
    by (simp add: HEADER_TRANSFER_ENCODING_CHUNKED_def chars_def)
qed

lemma sscanf_ld_decimal:
  assumes "n < 2 ^ 63" and "rest = [] \<or> \<not> isdigit (hd rest)"
  shows "sscanf_ld (decimal n @ rest) = Some (int n)"
  using assms scan_decimal_decimal [OF assms(2), of n] by (simp add: sscanf_ld_def)

lemma parse_header_line:
  fixes x l rest :: string and junk :: "char option list"
  defines "m \<equiv> chars (x @ l @ CRLF @ rest) @ junk" and "len \<equiv> length (x @ l @ CRLF @ rest)"
  assumes "plain l"
  shows "parse_header_lines m len (length x) =
    res_bind (masked_match HEADER_TRANSFER_ENCODING_CHUNKED (drop (length x) m)) (\<lambda>chunked.
      if chunked then Inr (- 2)
      else res_bind (masked_match HEADER_CONTENT_LENGTH (drop (length x) m)) (\<lambda>found.
        if found
        then res_bind (block_string (drop (length x + length HEADER_CONTENT_LENGTH) m)) (\<lambda>val.
               Inr (case sscanf_ld val of Some n \<Rightarrow> n | None \<Rightarrow> - 1))
        else parse_header_lines m len (length (x @ l @ CRLF))))"
proof -
  have t: "take (len - length x) (drop (length x) m) = chars l @ Some CHR 0x0D # Some CHR 0x0A # chars rest"
    by (simp add: m_def len_def CRLF_def chars_def)
  have "\<forall>c \<in> set (chars l). c \<noteq> Some CHR 0x0D" using assms(3) by (auto simp: plain_def chars_def)
  then have i: "find_idx (\<lambda>c. c = Some CHR 0x0D) (take (len - length x) (drop (length x) m)) = Some (length l)"
    unfolding t using find_idx_append_first [of "chars l"] by simp
  have e: "length x + length l + 2 = length (x @ l @ CRLF)" by (simp add: CRLF_def)
  have "\<not> len < length x" by (simp add: len_def)
  then show ?thesis unfolding parse_header_lines.simps [of m len "length x"] i option.case e by simp
qed

lemma parse_other_lines:
  assumes "list_all line_ok ls" and "list_all other_line ls"
  shows "parse_header_lines (chars (x @ lines_text ls @ rest) @ junk) (length (x @ lines_text ls @ rest)) (length x)
    = parse_header_lines (chars (x @ lines_text ls @ rest) @ junk) (length (x @ lines_text ls @ rest)) (length (x @ lines_text ls))"
  using assms
proof (induction ls arbitrary: x)
  case (Cons l ls)
  have o: "masked_match HEADER_TRANSFER_ENCODING_CHUNKED (chars l @ chars CRLF @ m) = Inr False"
    "masked_match HEADER_CONTENT_LENGTH (chars l @ chars CRLF @ m) = Inr False" for m
    using Cons.prems(2) masked_match_more [of _ "chars (l @ CRLF)" False m] by (simp_all add: other_line_def)
  show ?case
    using parse_header_line [of l x "lines_text ls @ rest" junk] Cons.IH [of "x @ l @ CRLF"] Cons.prems o by (simp add: line_ok_def)
qed simp

lemma parse_content_length:
  assumes "list_all line_ok (ls @ [name @ decimal n])" and "list_all other_line ls"
    and "map masked name = map masked HEADER_CONTENT_LENGTH" and "n < 2 ^ 63"
  shows "parse_response_headers (chars (lines_text (ls @ (name @ decimal n) # ls') @ rest) @ Some NUL # junk)
    (length (lines_text (ls @ (name @ decimal n) # ls') @ rest)) = Inr (int n)"
proof -
  let ?x = "lines_text ls" and ?r = "lines_text ls' @ rest"
  have s: "lines_text (ls @ (name @ decimal n) # ls') @ rest = ?x @ (name @ decimal n) @ CRLF @ ?r" by (simp add: lines_text_def)
  have l: "length HEADER_CONTENT_LENGTH = length name" using arg_cong [OF assms(3), of length] by simp
  have nul: "no_nul (decimal n @ CRLF)" using decimal_plain(1) [of n] by (auto simp: plain_def no_nul_def CRLF_def)
  have b: "block_string (chars (decimal n) @ chars CRLF @ chars ?r @ Some NUL # junk) = Inr (decimal n @ CRLF @ cstr ?r)"
    using block_string_chars [of "decimal n @ CRLF @ ?r" junk] cstr_append [OF nul, of ?r] by simp
  have sc: "sscanf_ld (decimal n @ CRLF @ cstr ?r) = Some (int n)"
    by (rule sscanf_ld_decimal [OF assms(4)]) (simp add: CRLF_def isdigit_def)
  have "parse_header_lines (chars (?x @ (name @ decimal n) @ CRLF @ ?r) @ Some NUL # junk)
      (length (?x @ (name @ decimal n) @ CRLF @ ?r)) 0
    = parse_header_lines (chars (?x @ (name @ decimal n) @ CRLF @ ?r) @ Some NUL # junk)
      (length (?x @ (name @ decimal n) @ CRLF @ ?r)) (length ?x)"
    using parse_other_lines [of ls "[]" "(name @ decimal n) @ CRLF @ ?r" "Some NUL # junk"] assms(1,2) by simp
  also have "\<dots> = Inr (int n)"
    using parse_header_line [of "name @ decimal n" ?x ?r "Some NUL # junk"] assms(1) length_line_matches [OF assms(3)] b l sc
    by (simp add: line_ok_def)
  finally show ?thesis unfolding parse_response_headers_def s .
qed

text \<open>The line with the status.\<close>

definition status_text :: "char \<Rightarrow> nat \<Rightarrow> string \<Rightarrow> string" where
  "status_text version code reason = ''HTTP/1.'' @ version # '' '' @ decimal code @ reason"

lemma scan_status_text:
  assumes "reason = [] \<or> \<not> isdigit (hd reason)" and "reason = [] \<longrightarrow> rest = [] \<or> \<not> isdigit (hd rest)"
  shows "scan_status (status_text version code reason @ rest) = Inr (Some (int code))"
proof -
  let ?s = "status_text version code reason @ rest"
  have d: "drop 8 ?s = CHR '' '' # decimal code @ reason @ rest" by (simp add: status_text_def)
  have w: "dropWhile isspace (decimal code @ reason @ rest) = decimal code @ reason @ rest"
    using decimal_plain(2,3) [of code] by (cases "decimal code") auto
  have "reason @ rest = [] \<or> \<not> isdigit (hd (reason @ rest))" using assms by (cases reason) auto
  then have "sscanf_d (decimal code @ reason @ rest) = Some (int code)" by (simp add: sscanf_d_def scan_decimal_decimal)
  moreover have "prefix ''HTTP/1.'' ?s \<and> length ?s > 7" by (simp add: status_text_def)
  ultimately show ?thesis using w decimal_plain(2) [of code] unfolding scan_status_def d by (simp add: isspace_def)
qed

lemma other_status_line: "other_line (status_text version code reason)"
  by (simp add: other_line_def status_text_def HEADER_TRANSFER_ENCODING_CHUNKED_def HEADER_CONTENT_LENGTH_def chars_def)

text \<open>The response that the code is to return: the headers without the end of their last line, and the body.\<close>

definition whole_response :: "nat \<Rightarrow> string \<Rightarrow> string \<Rightarrow> uo_http_res" where
  "whole_response code headers body = uo_http_res_create (int code) (chars (take (length headers - 2) headers)) (chars body)"

lemma response_received_whole:
  fixes version code reason before name after_length body
  defines "headers \<equiv> lines_text (status_text version code reason # before @ (name @ decimal (length body)) # after_length)"
  assumes ok: "list_all line_ok (status_text version code reason # before @ (name @ decimal (length body)) # after_length)"
    and reason: "reason = [] \<or> \<not> isdigit (hd reason)" and before: "list_all other_line before"
    and name: "map masked name = map masked HEADER_CONTENT_LENGTH" and body: "length body < 2 ^ 63"
    and room: "hp_headers_len hp + hp_request_len hp + length (headers @ CRLF @ body) < length (hp_buf hp)"
    and input: "delivers rs 0 (headers @ CRLF @ body)"
  shows "\<exists>b. uo_httpc_receive hp (rs @ later) = Some (Inr (Some (whole_response code headers body), b))"
proof -
  let ?t = "headers @ CRLF @ body" and ?response = "hp_headers_len hp + hp_request_len hp"
  let ?l = "status_text version code reason" and ?ls = "before @ (name @ decimal (length body)) # after_length"
  let ?junk = "drop ?response (hp_buf hp)" and ?e = "length headers - 2"
  let ?st = "\<lparr> rx_buf = hp_buf hp, rx_p = ?response, rx_room = length (hp_buf hp) - ?response, rx_retries = 0,
                 rx_moved = False, rx_input = rs @ later \<rparr>"
  have e: "length ?l + length (lines_text ?ls) = ?e" "2 \<le> length headers" by (simp_all add: headers_def CRLF_def)
  have h0: "rx_holds ?st ?response [] ?junk"
    using room by (auto simp: rx_holds_def intro!: exI [of _ "take ?response (hp_buf hp)"])
  have jl: "length ?t < length ?junk" using room by (simp only: length_drop)
  obtain u t st rs' junk where h: "receive_headers ?response ?st = Some (Inr (Some (Some (?response + ?e)), st))"
    "u @ t = ?t" "length headers + 2 \<le> length u" "rx_holds st ?response u (Some NUL # junk)" "length t \<le> length junk"
    "delivers rs' (rx_retries st) t" "rx_input st = rs' @ later"
    using receive_headers_delivers [OF h0, of rs ?t later ?l ?ls body, folded headers_def, unfolded e(1), OF _ _ _ _ jl ok] input e(2)
    by (auto simp del: add.assoc length_append)
  obtain r where r: "u = headers @ CRLF @ r"
    using h(2,3) append_eq_append_conv_if [of "headers @ CRLF" body u t] by (auto simp: CRLF_def split: if_splits)
  have p: "parse_response_headers (drop ?response (rx_buf st)) (rx_p st - ?response) = Inr (int (length body))"
    using h(4) parse_content_length [of "?l # before" name "length body" after_length "CRLF @ r" junk] ok before name body
      other_status_line unfolding r headers_def by (auto simp: rx_holds_def)
  have st: "st\<lparr> rx_moved := False \<rparr> = st" using h(4) by (simp add: rx_holds_def)
  obtain st2 junk2 where l: "receive_length (?response + (length headers + 2)) (int (length body)) st = Some (Inr (True, st2))"
    "rx_holds st2 ?response ?t (Some NUL # junk2)"
    using receive_length_delivers [OF h(4,6,7), of "length headers + 2" "length body"] h(2,3,5) by (auto simp: CRLF_def)
  have e4: "?response + ?e + 4 = ?response + (length headers + 2)" using e(2) by simp
  have b: "receive_body (int (length body)) (Some (?response + ?e)) st = Some (Inr (True, st2))"
    using l(1) by (simp add: receive_body_def e4 del: add.assoc)
  obtain pre where pre: "length pre = ?response" "rx_buf st2 = pre @ chars ?t @ Some NUL # junk2" "\<not> rx_moved st2"
    "rx_p st2 = ?response + length ?t" using l(2) by (auto simp: rx_holds_def)
  have nul: "no_nul (?l @ CRLF)" using ok by (auto simp: line_ok_def plain_def no_nul_def CRLF_def)
  have "cstr ?t = (?l @ CRLF) @ cstr (lines_text ?ls @ CRLF @ body)"
    using cstr_append [OF nul] by (simp add: headers_def)
  then have sc: "scan_status (cstr ?t) = Inr (Some (int code))"
    using scan_status_text [of reason "CRLF @ cstr (lines_text ?ls @ CRLF @ body)" version code] reason
    by (simp add: CRLF_def isdigit_def)
  have len: "12 \<le> length ?t" using decimal_plain(2) [of code] by (cases "decimal code") (simp_all add: headers_def status_text_def CRLF_def)
  have hd: "take ?e (drop ?response (rx_buf st2)) = chars (take ?e headers)"
    using pre(1,2) by (simp add: chars_def take_map)
  have bd: "take (rx_p st2 - (?response + ?e + 4)) (drop (?response + ?e + 4) (rx_buf st2)) = chars body"
    unfolding e4 using pre(1,2,4) by (simp add: CRLF_def chars_def)
  show ?thesis
    using h(1) p b rx_string [OF l(2)] sc len pre(3,4) hd bd st
    by (simp add: uo_httpc_receive_def whole_response_def Let_def)
qed

text \<open>
  C8: Liveness of the blocking client. A connection that can be set up and takes the whole
  request, and a server that answers with a status line, header lines among which the first that
  names a length is \<open>Content-Length\<close> in any mixture of letters, and a body of that length (any bytes):
  if the response is shorter than what is left of the buffer, then, whatever the pieces in which
  it arrives, with at most three calls in between that would block, the request returns a
  response with that status, those headers and the whole body; the bytes sent are the request,
  and the socket is closed.
\<close>

theorem uo_httpc_response_received:
  fixes version code reason before name after_length body
  defines "headers \<equiv> lines_text (status_text version code reason # before @ (name @ decimal (length body)) # after_length)"
  assumes connection: "nt_socket nt" "nt_connect nt" "hp_opt_tls hp \<longrightarrow> nt_tls_setup nt \<and> nt_tls_connect nt"
      "nt_sent nt = Some (hp_request_len hp)"
    and ok: "list_all line_ok (status_text version code reason # before @ (name @ decimal (length body)) # after_length)"
    and reason: "reason = [] \<or> \<not> isdigit (hd reason)" and before: "list_all other_line before"
    and name: "map masked name = map masked HEADER_CONTENT_LENGTH" and body: "length body < 2 ^ 63"
    and room: "hp_headers_len hp + hp_request_len hp + length (headers @ CRLF @ body) < length (hp_buf hp)"
    and input: "nt_input nt = rs @ later" "delivers rs 0 (headers @ CRLF @ body)"
  shows "\<exists>b. uo_httpc_make_request nt hp = Some (Inr \<lparr> ex_res = Some (whole_response code headers body),
    ex_sent = request_bytes hp, ex_closed = True, ex_httpc = hp\<lparr> hp_buf := b \<rparr> \<rparr>)"
proof -
  obtain b where "uo_httpc_receive hp (rs @ later) = Some (Inr (Some (whole_response code headers body), b))"
    using response_received_whole [of version code reason before name body after_length hp rs later] assms
    unfolding headers_def by auto
  then show ?thesis
    using connection input(1) by (auto simp: uo_httpc_make_request_def request_bytes_def Let_def)
qed

text \<open>A small client, and a response in three pieces, one of them inside the headers, with a call that would block.\<close>

definition small_httpc :: "nat \<Rightarrow> uo_httpc" where
  "small_httpc room = \<lparr> hp_opt_tls = False, hp_opt_sem = True, hp_header_flags = 1, hp_headers_len = 10, hp_request_len = 28,
     hp_hostname_len = 2, hp_hostname = 6,
     hp_buf = chars (''Host: uo'' @ CRLF @ ''GET / HTTP/1.1'' @ CRLF @ ''Host: uo'' @ CRLF @ CRLF) @ replicate room None \<rparr>"

theorem uo_httpc_response_received_witness:
  "\<exists>b. uo_httpc_make_request
      \<lparr> nt_socket = True, nt_tls_setup = False, nt_connect = True, nt_tls_connect = False, nt_sent = Some 28,
        nt_input = [Received ''HTTP/1.1 200 O'', Would_block, Received (''K'' @ CRLF @ ''content-length: 3'' @ CRLF @ CRLF @ ''a''),
          Received ''bc'', Recv_error] \<rparr> (small_httpc 100)
    = Some (Inr \<lparr> ex_res = Some \<lparr> rs_status_code = 200, rs_headers_len = 34, rs_body_len = 3,
          rs_block = chars (''HTTP/1.1 200 OK'' @ CRLF @ ''content-length: 3'') @ [Some NUL] @ chars ''abc'' @ [Some NUL] \<rparr>,
        ex_sent = chars (''GET / HTTP/1.1'' @ CRLF @ ''Host: uo'' @ CRLF @ CRLF), ex_closed = True,
        ex_httpc = (small_httpc 100)\<lparr> hp_buf := b \<rparr> \<rparr>)"
proof -
  let ?rs = "[Received ''HTTP/1.1 200 O'', Would_block, Received (''K'' @ CRLF @ ''content-length: 3'' @ CRLF @ CRLF @ ''a''), Received ''bc'']"
  let ?nt = "\<lparr> nt_socket = True, nt_tls_setup = False, nt_connect = True, nt_tls_connect = False, nt_sent = Some 28,
        nt_input = ?rs @ [Recv_error] \<rparr>"
  let ?s = "status_text (CHR ''1'') 200 '' OK''" and ?n = "''content-length: ''"
  have d: "decimal 200 = ''200''" "decimal (length ''abc'') = ''3''" by code_simp+
  have s: "?s = ''HTTP/1.1 200 OK''" by (simp add: status_text_def d)
  have ok: "list_all line_ok (?s # [] @ (?n @ decimal (length ''abc'')) # [])"
    unfolding s d by (simp add: line_ok_def plain_def)
  have nm: "map masked ?n = map masked HEADER_CONTENT_LENGTH" by (simp add: HEADER_CONTENT_LENGTH_def)
  have t: "lines_text (?s # [] @ (?n @ decimal (length ''abc'')) # []) = ''HTTP/1.1 200 OK'' @ CRLF @ ''content-length: 3'' @ CRLF"
    unfolding s d by simp
  have dl: "delivers ?rs 0 ((''HTTP/1.1 200 OK'' @ CRLF @ ''content-length: 3'' @ CRLF) @ CRLF @ ''abc'')"
    by (simp add: delivers_def RECV_RETRY_MAX_TRIES_def)
  have "\<exists>b. uo_httpc_make_request ?nt (small_httpc 100) = Some (Inr
      \<lparr> ex_res = Some (whole_response 200 (''HTTP/1.1 200 OK'' @ CRLF @ ''content-length: 3'' @ CRLF) ''abc''),
        ex_sent = request_bytes (small_httpc 100), ex_closed = True, ex_httpc = (small_httpc 100)\<lparr> hp_buf := b \<rparr> \<rparr>)"
    using uo_httpc_response_received [of ?nt "small_httpc 100", OF _ _ _ _ ok _ _ nm _ _ _ dl [folded t], of "[Recv_error]"]
    unfolding t by (simp add: small_httpc_def CRLF_def isdigit_def)
  moreover have "whole_response 200 (''HTTP/1.1 200 OK'' @ CRLF @ ''content-length: 3'' @ CRLF) ''abc''
    = \<lparr> rs_status_code = 200, rs_headers_len = 34, rs_body_len = 3,
        rs_block = chars (''HTTP/1.1 200 OK'' @ CRLF @ ''content-length: 3'') @ [Some NUL] @ chars ''abc'' @ [Some NUL] \<rparr>"
    by code_simp
  moreover have "request_bytes (small_httpc 100) = chars (''GET / HTTP/1.1'' @ CRLF @ ''Host: uo'' @ CRLF @ CRLF)"
    by code_simp
  ultimately show ?thesis by simp
qed

text \<open>
  When the buffer is full it is doubled, but the next call is still told that there is no room
  and returns no bytes, which the code takes for the end of the connection: the body is cut off
  and the response is reported as a success.
\<close>

lemma full_buffer_cuts_off:
  "map_option (map_sum id fst) (uo_httpc_receive (small_httpc 40)
     [Received (''HTTP/1.1 200 OK'' @ CRLF @ ''Content-Length: 5'' @ CRLF @ CRLF @ ''abcde'')])
   = Some (Inr (Some (whole_response 200 (''HTTP/1.1 200 OK'' @ CRLF @ ''Content-Length: 5'' @ CRLF) ''ab'')))"
  by code_simp

text \<open>If the buffer becomes full while the body is received, the pointer to the body is dangling.\<close>

lemma full_buffer_moves_body:
  "uo_httpc_receive (small_httpc 40)
     [Received (''HTTP/1.1 200 OK'' @ CRLF @ ''Content-Length: 5'' @ CRLF @ CRLF), Received ''abcde'']
   = Some (Inl UseAfterFree)"
  by code_simp

text \<open>
  A body in one chunk. The end of line behind the last chunk is part of the body that is
  returned when it arrives together with what comes before it, and is not when it comes alone.
\<close>

lemma chunks_depend_on_pieces:
  "map_option (map_sum id fst) (uo_httpc_receive (small_httpc 90)
     [Received (''HTTP/1.1 200 OK'' @ CRLF @ ''Transfer-Encoding: chunked'' @ CRLF @ CRLF @ ''2'' @ CRLF @ ''ab'' @ CRLF @ ''0'' @ CRLF @ CRLF)])
   = Some (Inr (Some (whole_response 200 (''HTTP/1.1 200 OK'' @ CRLF @ ''Transfer-Encoding: chunked'' @ CRLF) (''ab'' @ CRLF))))"
  by code_simp

lemma chunks_depend_on_pieces':
  "map_option (map_sum id fst) (uo_httpc_receive (small_httpc 90)
     [Received (''HTTP/1.1 200 OK'' @ CRLF @ ''Transfer-Encoding: chunked'' @ CRLF @ CRLF @ ''2'' @ CRLF @ ''ab'' @ CRLF @ ''0'' @ CRLF), Received CRLF])
   = Some (Inr (Some (whole_response 200 (''HTTP/1.1 200 OK'' @ CRLF @ ''Transfer-Encoding: chunked'' @ CRLF) ''ab'')))"
  by code_simp

end
