(* ===== verification/Spec2Isabelle.thy ===== *)
theory Spec2Isabelle
  imports Jwt Refcount Cb Http_Files Http_Exchange Httpc_Flow
begin

text \<open>
  A verification development for \<^verbatim>\<open>libuo\<close>.
\<close>

section \<open>A client and a server\<close>

text \<open>
  C1: A client and a server of the library understand each other. The bytes that a client
  sends when its connection opens, taken to a server that is ready, make the server run the
  function for the first matching pattern, and the bytes that the server sends, taken back to
  the client, make it run its function for responses on a connection that holds the status, the
  headers and the content that the server's function had composed. The server is then ready for
  the next request.
\<close>

theorem uo_http_client_server:
  assumes client: "c = uo_tcp_conn_create_for_client fd shared chs" "client_flow chs"
      "http_addr s \<noteq> 0" "http_addr s \<noteq> UO_HASHTBL_TAG_REMOVED" "uses s a b" "app_requests app a request"
      "list_all (\<lambda>w. 0 < w) (writes s)" "length request \<le> length (writes s)" "ctls s = True # oks" "\<And>s. app b s = Some (Inr s)"
    and server: "http_ready s' c'" "routed (http_server s') (m @ '' '' @ uri) d ps" "app_replies app' d mth uri ps content reply"
      "list_all (\<lambda>w. 0 < w) (writes s')" "length reply \<le> length (writes s')" "ctls s' = True # oks'"
    and request: "method_str mth = Some m" "version_str ver = Some v" "plain uri" "wire_ok hs content_type content"
      "request = request_text m uri v (hs @ content_hdrs content_type content) content"
      "length request \<le> bf_size (tc_rbuf c')" "bf_size (tc_rbuf c') < 2 ^ 31" "map_of hs ''connection'' \<noteq> Some ''close''"
    and reply: "map_of status_strs st = Some sstr" "version_str ver' = Some v'" "wire_ok hs' content_type' content'"
      "reply = v' @ '' '' @ sstr @ CRLF @ headers_text (hs' @ content_hdrs content_type' content') @ CRLF @ content'"
      "length reply \<le> 0x200"
  shows "\<exists>n t k t' d' u h.
      run_cb (client_func app) n (uo_tcp_conn_open c s) = Some (Inr t) \<and> sent t = sent s @ request
    \<and> run_cb (server_func app') k (uo_io_accept_async_io (EPOLLIN (Some (drop (length (sent s)) (sent t)))) s') = Some (Inr t')
    \<and> http_ready t' d' \<and> sent t' = sent s' @ reply
    \<and> leads (client_func app) (uo_io_accept_async_io (EPOLLIN (Some (drop (length (sent s')) (sent t')))) t) u
    \<and> hd (cb_funcs u) = Usr (App b) \<and> http_conn u = Some h
    \<and> hm_status (hc_http_res h) = st \<and> hm_ver (hc_http_res h) = ver' \<and> hm_body (hc_http_res h) = Some content'
    \<and> hdrs_rel (hc_http_res h) (hs' @ content_hdrs content_type' content')"
proof -
  obtain t e where t: "leads (client_func app) (uo_tcp_conn_open c s) t" "awaits t e a b" "sent t = sent s @ request"
    "0x200 \<le> bf_size (tc_rbuf e)"
    using client_opened [OF client(1-9)] by blast
  obtain n where n: "run_cb (client_func app) n (uo_tcp_conn_open c s) = Some (Inr t)"
    using leads_stops [OF t(1)] t(2) by (auto simp: awaits_def waiting_def)
  obtain k t' d' where t': "run_cb (server_func app') k (uo_io_accept_async_io (EPOLLIN (Some request)) s') = Some (Inr t')"
    "sent t' = sent s' @ reply" "http_ready t' d'"
    using exchange [OF server(1) request(1-7) routed_handles [OF server(2,3)] server(4-6) request(8) answered_response] by blast
  have len: "length reply \<le> bf_size (tc_rbuf e)" using reply(5) t(4) by simp
  obtain u h where u: "leads (client_func app) (uo_io_accept_async_io (EPOLLIN (Some reply)) t) u"
    "hd (cb_funcs u) = Usr (App b)" "http_conn u = Some h"
    "hm_status (hc_http_res h) = st" "hm_ver (hc_http_res h) = ver'" "hm_body (hc_http_res h) = Some content'"
    "hdrs_rel (hc_http_res h) (hs' @ content_hdrs content_type' content')"
    using client_answered [where app = app, OF t(2) reply(1-4) len reply(5) client(10)] by blast
  show ?thesis
    by (rule exI [of _ n], rule exI [of _ t], rule exI [of _ k], rule exI [of _ t'], rule exI [of _ d'], rule exI [of _ u],
        rule exI [of _ h]) (simp add: n t(3) t' u)
qed

text \<open>The greeting server and the client that asks it.\<close>

theorem uo_http_client_server_witness:
  "\<exists>s' n t k t' d' u h. run_cb (client_func ask) n (uo_tcp_conn_open ask_conn ask_start) = Some (Inr t)
    \<and> run_cb (server_func greet) k (uo_io_accept_async_io (EPOLLIN (Some (sent t))) s') = Some (Inr t') \<and> http_ready t' d'
    \<and> leads (client_func ask) (uo_io_accept_async_io (EPOLLIN (Some (sent t'))) t) u \<and> http_conn u = Some h
    \<and> hm_status (hc_http_res h) = UO_HTTP_200 \<and> hm_body (hc_http_res h) = Some ''hello, world''"
proof -
  obtain s' c' where s: "http_ready s' c'" "http_server s' = greet_server" "sent s' = []" "writes s' = replicate 100 3"
    "ctls s' = True # []" "0x200 \<le> bf_size (tc_rbuf c')" "bf_size (tc_rbuf c') \<le> 0x400"
    using greet_opened by blast
  have w: "method_str UO_HTTP_GET = Some ''GET''" "plain ''/hello/world''" "wire_ok [(''host'', ''uo'')] ''text/plain'' []"
    "map_of [(''host'', ''uo'')] ''connection'' \<noteq> Some ''close''"
    unfolding plain_def wire_ok_def header_ok_def by code_simp+
  have b: "length greet_request \<le> bf_size (tc_rbuf c')" "bf_size (tc_rbuf c') < 2 ^ 31" "list_all (\<lambda>w. 0 < w) (writes s')"
    "length greet_reply \<le> length (writes s')" "routed (http_server s') (''GET'' @ '' '' @ ''/hello/world'') () [(''name'', ''world'')]"
    using s(2,4,6,7) greet_lengths greet_routed by (simp_all add: list_all_iff)
  note T = uo_http_client_server [OF ask_conn_def ask_ok(1-4) ask_requests ask_ok(5-7) ask.simps(2) s(1) b(5) greet_replies
      b(3,4) s(5) w(1) greet_reply_parts(2) w(2,3) greet_request_def b(1,2) w(4) greet_reply_parts(1,2,3,5,4)]
  show ?thesis using T unfolding ask_ok(8) s(3) append_Nil list.size(3) drop_0 by blast
qed

end
